(* ===== verification/Ntfs_Prelude.thy ===== *)
theory Ntfs_Prelude
  imports Main "HOL-Library.Word"
begin

text \<open>
  Shared vocabulary of the development: the error numbers the driver returns, the outcome
  type of a C function (a value, a negative error number, a \<^verbatim>\<open>BUG()\<close>, an access outside the
  object a pointer points into), sequencing of outcomes, the C integer types, little endian
  fields of byte buffers, and the list lemmas the components share.
\<close>

unbundle bit_operations_syntax

section \<open>Collections of simplification rules\<close>

named_theorems outcome_simps \<open>sequencing and case analysis of outcomes\<close>
named_theorems s64_simps \<open>signed 64-bit wrap-around on values that are in range\<close>

section \<open>Outcomes of C functions\<close>

datatype errno =
    EPERM | ENOENT | EIO | ENOMEM | EACCES | EEXIST | ENOTDIR | EINVAL | ENOSPC | EROFS
  | ERANGE | ENAMETOOLONG | EOPNOTSUPP | EOVERFLOW | EILSEQ

text \<open>
  \<open>Bug\<close> is a triggered \<^verbatim>\<open>BUG()\<close> or \<^verbatim>\<open>BUG_ON()\<close>, \<open>Oob\<close> a read or write outside the memory
  object, or an integer the source would silently wrap where the model does not follow it.
\<close>

datatype 'a result = Ok 'a | Error errno | Bug | Oob

fun bind_result :: "'a result \<Rightarrow> ('a \<Rightarrow> 'b result) \<Rightarrow> 'b result" where
  "bind_result (Ok x) f = f x"
| "bind_result (Error e) f = Error e"
| "bind_result Bug f = Bug"
| "bind_result Oob f = Oob"

fun is_Ok :: "'a result \<Rightarrow> bool" where
  "is_Ok (Ok x) = True"
| "is_Ok r = False"

lemma bind_result_Ok_iff [outcome_simps]:
  "bind_result r f = Ok y \<longleftrightarrow> (\<exists>x. r = Ok x \<and> f x = Ok y)"
  by (cases r) auto

lemma bind_result_assoc [outcome_simps]:
  "bind_result (bind_result r f) g = bind_result r (\<lambda>x. bind_result (f x) g)"
  by (cases r) auto

lemma bind_result_cong [fundef_cong]:
  "r = r' \<Longrightarrow> (\<And>x. r' = Ok x \<Longrightarrow> f x = g x) \<Longrightarrow> bind_result r f = bind_result r' g"
  by (cases r') auto

lemma is_Ok_iff [outcome_simps]: "is_Ok r \<longleftrightarrow> (\<exists>x. r = Ok x)"
  by (cases r) auto

text \<open>Reading and writing one cell of an array object.\<close>

definition rd :: "'a list \<Rightarrow> nat \<Rightarrow> 'a result" where
  "rd xs i = (if i < length xs then Ok (xs ! i) else Oob)"

definition wr :: "'a list \<Rightarrow> nat \<Rightarrow> 'a \<Rightarrow> 'a list result" where
  "wr xs i v = (if i < length xs then Ok (xs[i := v]) else Oob)"

lemma rd_in [simp]: "i < length xs \<Longrightarrow> rd xs i = Ok (xs ! i)"
  by (simp add: rd_def)

lemma rd_out [simp]: "length xs \<le> i \<Longrightarrow> rd xs i = Oob"
  by (simp add: rd_def)

lemma wr_in [simp]: "i < length xs \<Longrightarrow> wr xs i v = Ok (xs[i := v])"
  by (simp add: wr_def)

lemma wr_out [simp]: "length xs \<le> i \<Longrightarrow> wr xs i v = Oob"
  by (simp add: wr_def)

lemma rd_Ok_iff [outcome_simps]: "rd xs i = Ok v \<longleftrightarrow> i < length xs \<and> v = xs ! i"
  by (auto simp: rd_def)

lemma wr_Ok_iff [outcome_simps]: "wr xs i v = Ok ys \<longleftrightarrow> i < length xs \<and> ys = xs[i := v]"
  by (auto simp: wr_def)

text \<open>Reading \<open>n\<close> consecutive cells.\<close>

definition rd_bytes :: "'a list \<Rightarrow> nat \<Rightarrow> nat \<Rightarrow> 'a list result" where
  "rd_bytes xs i n = (if i + n \<le> length xs then Ok (take n (drop i xs)) else Oob)"

lemma rd_bytes_append [simp]:
  "rd_bytes (xs @ ys @ zs) (length xs) (length ys) = Ok ys"
  by (simp add: rd_bytes_def)

section \<open>Integer types\<close>

type_synonym u8 = "8 word"
type_synonym u16 = "16 word"
type_synonym u32 = "32 word"

text \<open>
  A signed 64-bit value is an \<open>int\<close>; every arithmetic result is brought back into range by
  \<open>s64\<close>, two's complement wrap-around as the kernel is compiled
  (\<^verbatim>\<open>-fno-strict-overflow\<close>).
\<close>

definition s64 :: "int \<Rightarrow> int" where
  "s64 x = (x + 9223372036854775808) mod 18446744073709551616 - 9223372036854775808"

definition in_s64 :: "int \<Rightarrow> bool" where
  "in_s64 x \<longleftrightarrow> - 9223372036854775808 \<le> x \<and> x < 9223372036854775808"

lemma s64_id [s64_simps]:
  "- 9223372036854775808 \<le> x \<Longrightarrow> x < 9223372036854775808 \<Longrightarrow> s64 x = x"
  by (simp add: s64_def)

lemma s64_in: "in_s64 x \<Longrightarrow> s64 x = x"
  by (simp add: in_s64_def s64_id)

lemma in_s64_s64 [simp]: "in_s64 (s64 x)"
proof -
  have "0 \<le> (x + 9223372036854775808) mod 18446744073709551616"
    and "(x + 9223372036854775808) mod 18446744073709551616 < 18446744073709551616"
    by simp_all
  then show ?thesis by (simp add: in_s64_def s64_def)
qed

lemma s64_s64 [simp]: "s64 (s64 x) = s64 x"
  by (rule s64_in) simp

lemma s64_signed: "s64 x = sint (word_of_int x :: 64 word)"
  by (simp add: s64_def sint_word_ariths signed_take_bit_eq_take_bit_shift take_bit_eq_mod
      signed_of_int)

text \<open>The kernel is built for x86: pages of 4096 bytes.\<close>

definition PAGE_SIZE :: nat where
  "PAGE_SIZE = 4096"

definition PAGE_ALIGN :: "nat \<Rightarrow> nat" where
  "PAGE_ALIGN n = (n + 4095) div 4096 * 4096"

end
