(* ===== verification/Ntfs_Mst.thy ===== *)
theory Ntfs_Mst
  imports Ntfs_Prelude
begin

text \<open>
  Multi sector transfer protection (\<^verbatim>\<open>ntfs/mst.c\<close>). A protected record is an array of
  little endian 16-bit cells: cells 0 and 1 hold the magic, cell 2 the byte offset of the
  update sequence array (usa), cell 3 its number of entries. The last cell of every 512-byte
  sector is swapped with an entry of the usa when the record goes to disk.
\<close>

section \<open>The record header\<close>

definition NTFS_BLOCK_SIZE :: nat where
  "NTFS_BLOCK_SIZE = 512"

text \<open>\<open>u16s_per_block\<close> is \<^verbatim>\<open>NTFS_BLOCK_SIZE / sizeof(u16)\<close>, \<open>last_u16\<close> the index of the
  last cell of the first sector.\<close>

abbreviation u16s_per_block :: nat where
  "u16s_per_block \<equiv> 256"

abbreviation last_u16 :: nat where
  "last_u16 \<equiv> 255"

type_synonym ntfs_record = "u16 list"

definition magic_BAAD :: "u16 \<times> u16" where
  "magic_BAAD = (0x4142, 0x4441)"

definition magic_HOLE :: "u16 \<times> u16" where
  "magic_HOLE = (0x4f48, 0x454c)"

definition get_magic :: "ntfs_record \<Rightarrow> u16 \<times> u16" where
  "get_magic b = (b ! 0, b ! 1)"

definition set_magic :: "u16 \<times> u16 \<Rightarrow> ntfs_record \<Rightarrow> ntfs_record" where
  "set_magic m b = b[0 := fst m, 1 := snd m]"

definition usa_ofs :: "ntfs_record \<Rightarrow> u16" where
  "usa_ofs b = b ! 2"

text \<open>Number of fixups: the 16-bit entry count less one, which wraps when the count is 0.\<close>

definition usa_count :: "ntfs_record \<Rightarrow> u16" where
  "usa_count b = b ! 3 - 1"

definition usa_pos :: "ntfs_record \<Rightarrow> nat" where
  "usa_pos b = unat (usa_ofs b) div 2"

text \<open>The size and alignment checks both fixup routines start with.\<close>

definition mst_bad_geometry :: "ntfs_record \<Rightarrow> u32 \<Rightarrow> bool" where
  "mst_bad_geometry b sz \<longleftrightarrow>
     sz AND 511 \<noteq> 0 \<or> usa_ofs b AND 1 \<noteq> 0 \<or>
     unat (usa_ofs b) + unat (usa_count b) * 2 > unat sz \<or>
     unat (drop_bit 9 sz) \<noteq> unat (usa_count b)"

section \<open>The operations\<close>

text \<open>The first loop of \<^verbatim>\<open>post_read_mst_fixup\<close>: are all sector ends equal to \<open>usn\<close>?\<close>

fun mst_check :: "ntfs_record \<Rightarrow> u16 \<Rightarrow> nat \<Rightarrow> nat \<Rightarrow> bool result" where
  "mst_check b usn data_pos 0 = Ok True"
| "mst_check b usn data_pos (Suc n) =
     bind_result (rd b data_pos) (\<lambda>d.
       if d \<noteq> usn then Ok False else mst_check b usn (data_pos + u16s_per_block) n)"

text \<open>The restoring loop: move the saved cells back from the usa into the sector ends.\<close>

fun mst_restore :: "ntfs_record \<Rightarrow> nat \<Rightarrow> nat \<Rightarrow> nat \<Rightarrow> ntfs_record result" where
  "mst_restore b upos data_pos 0 = Ok b"
| "mst_restore b upos data_pos (Suc n) =
     bind_result (rd b (upos + 1)) (\<lambda>v.
     bind_result (wr b data_pos v) (\<lambda>b'.
       mst_restore b' (upos + 1) (data_pos + u16s_per_block) n))"

definition post_read_mst_fixup :: "ntfs_record \<Rightarrow> u32 \<Rightarrow> (ntfs_record \<times> errno option) result"
where
  "post_read_mst_fixup b sz =
     (if length b < 4 then Oob
      else if mst_bad_geometry b sz then Ok (b, None)
      else bind_result (rd b (usa_pos b)) (\<lambda>usn.
        bind_result (mst_check b usn last_u16 (unat (usa_count b))) (\<lambda>complete.
          if \<not> complete then Ok (set_magic magic_BAAD b, Some EINVAL)
          else bind_result (mst_restore b (usa_pos b) last_u16 (unat (usa_count b)))
                 (\<lambda>b'. Ok (b', None)))))"

text \<open>The loop of \<^verbatim>\<open>pre_write_mst_fixup\<close>: save each sector end in the usa, then stamp it.\<close>

fun mst_protect :: "ntfs_record \<Rightarrow> u16 \<Rightarrow> nat \<Rightarrow> nat \<Rightarrow> nat \<Rightarrow> ntfs_record result" where
  "mst_protect b usn upos data_pos 0 = Ok b"
| "mst_protect b usn upos data_pos (Suc n) =
     bind_result (rd b data_pos) (\<lambda>v.
     bind_result (wr b (upos + 1) v) (\<lambda>b1.
     bind_result (wr b1 data_pos usn) (\<lambda>b2.
       mst_protect b2 usn (upos + 1) (data_pos + u16s_per_block) n)))"

text \<open>The cyclic increment of the update sequence number, which skips 0 and 0xffff.\<close>

definition next_usn :: "u16 \<Rightarrow> u16" where
  "next_usn u = (let usn = u + 1 in if usn = 0xffff \<or> usn = 0 then 1 else usn)"

definition pre_write_mst_fixup ::
  "ntfs_record option \<Rightarrow> u32 \<Rightarrow> (ntfs_record option \<times> errno option) result" where
  "pre_write_mst_fixup bo sz =
     (case bo of
        None \<Rightarrow> Ok (None, Some EINVAL)
      | Some b \<Rightarrow>
          if length b < 4 then Oob
          else if get_magic b = magic_BAAD \<or> get_magic b = magic_HOLE then
            Ok (Some b, Some EINVAL)
          else if mst_bad_geometry b sz then Ok (Some b, Some EINVAL)
          else bind_result (rd b (usa_pos b)) (\<lambda>u.
            let usn = next_usn u in
            bind_result (wr b (usa_pos b) usn) (\<lambda>b1.
            bind_result (mst_protect b1 usn (usa_pos b) last_u16 (unat (usa_count b)))
              (\<lambda>b2. Ok (Some b2, None)))))"

definition post_write_mst_fixup :: "ntfs_record \<Rightarrow> ntfs_record result" where
  "post_write_mst_fixup b =
     (if length b < 4 then Oob
      else mst_restore b (usa_pos b) last_u16 (unat (usa_count b)))"

section \<open>Well-formed records\<close>

text \<open>
  The layout \<^verbatim>\<open>layout.h\<close> documents for a record: the buffer is \<open>sz\<close> bytes long, the
  checks pass, and the usa lies after the header and ends before the last cell of the first
  sector.
\<close>

definition mst_layout :: "ntfs_record \<Rightarrow> u32 \<Rightarrow> bool" where
  "mst_layout b sz \<longleftrightarrow>
     2 * length b = unat sz \<and> 4 \<le> usa_pos b \<and>
     usa_pos b + unat (usa_count b) < last_u16 \<and>
     0 < unat (usa_count b) \<and> \<not> mst_bad_geometry b sz"

text \<open>\<open>sector_end k i\<close>: cell \<open>k\<close> is one of the last cells of the first \<open>n\<close> sectors that
  start with the sector ending in \<open>dp\<close>.\<close>

definition sector_end :: "nat \<Rightarrow> nat \<Rightarrow> nat \<Rightarrow> bool" where
  "sector_end dp n k \<longleftrightarrow> (\<exists>i<n. k = dp + u16s_per_block * i)"

lemma sector_end_0 [simp]: "\<not> sector_end dp 0 k"
  by (simp add: sector_end_def)

lemma sector_end_Suc:
  "sector_end dp (Suc n) k \<longleftrightarrow> k = dp \<or> sector_end (dp + u16s_per_block) n k"
proof -
  have "(\<exists>i<Suc n. k = dp + 256 * i) \<longleftrightarrow> k = dp \<or> (\<exists>i<n. k = dp + 256 * Suc i)"
    by (auto simp: less_Suc_eq_0_disj)
  then show ?thesis by (simp add: sector_end_def algebra_simps)
qed

lemma sector_end_ge: "sector_end dp n k \<Longrightarrow> dp \<le> k"
  by (auto simp: sector_end_def)

lemma not_sector_end_low [simp]: "k < dp \<Longrightarrow> \<not> sector_end dp n k"
  by (auto simp: sector_end_def)

lemma sector_endI: "i < n \<Longrightarrow> sector_end dp n (dp + u16s_per_block * i)"
  by (auto simp: sector_end_def)

lemma sector_bounds_Suc:
  fixes dp l :: nat
  assumes "\<forall>i<Suc n. dp + u16s_per_block * i < l"
  shows "dp < l" and "\<forall>i<n. dp + u16s_per_block + u16s_per_block * i < l"
proof -
  show "dp < l" using spec [OF assms, of 0] by simp
  show "\<forall>i<n. dp + 256 + 256 * i < l"
  proof (intro allI impI)
    fix i assume "i < n"
    then show "dp + 256 + 256 * i < l" using spec [OF assms, of "Suc i"] by simp
  qed
qed

lemma mst_layout_length:
  assumes "mst_layout b sz"
  shows "length b = u16s_per_block * unat (usa_count b)"
proof -
  have "sz AND 511 = 0" and "unat (drop_bit 9 sz) = unat (usa_count b)"
    using assms by (auto simp: mst_layout_def mst_bad_geometry_def)
  moreover have "sz AND 511 = take_bit 9 sz"
    by (simp add: take_bit_eq_mask mask_eq_decr_exp)
  moreover have "unat sz = unat (take_bit 9 sz) + 512 * unat (drop_bit 9 sz)"
  proof -
    have "unat (take_bit 9 sz) = take_bit 9 (unat sz)"
      and "unat (drop_bit 9 sz) = drop_bit 9 (unat sz)"
      by (simp_all add: unsigned_take_bit_eq unat_drop_bit_eq)
    then show ?thesis by (simp add: drop_bit_eq_div take_bit_eq_mod)
  qed
  ultimately have "unat sz = 512 * unat (usa_count b)" by simp
  then show ?thesis using assms by (simp add: mst_layout_def)
qed

section \<open>What the three loops compute\<close>

lemma mst_check_eq:
  assumes "\<forall>i<n. dp + u16s_per_block * i < length b"
  shows "mst_check b usn dp n = Ok (\<forall>i<n. b ! (dp + u16s_per_block * i) = usn)"
  using assms
proof (induction n arbitrary: dp)
  case 0
  show ?case by simp
next
  case (Suc n)
  have dp: "dp < length b" using Suc.prems by auto
  have "\<forall>i<n. (dp + 256) + 256 * i < length b"
    using sector_bounds_Suc [OF Suc.prems] by simp
  then have IH: "mst_check b usn (dp + 256) n =
      Ok (\<forall>i<n. b ! (dp + 256 + 256 * i) = usn)"
    by (rule Suc.IH)
  have "(\<forall>i<Suc n. b ! (dp + 256 * i) = usn) \<longleftrightarrow>
      b ! dp = usn \<and> (\<forall>i<n. b ! (dp + 256 + 256 * i) = usn)"
    by (auto simp: less_Suc_eq_0_disj algebra_simps)
  with IH dp show ?case by simp
qed

lemma mst_restore_eq:
  assumes "upos + n < dp" and "\<forall>i<n. dp + u16s_per_block * i < length b"
  shows "\<exists>b'. mst_restore b upos dp n = Ok b' \<and> length b' = length b \<and>
      (\<forall>i<n. b' ! (dp + u16s_per_block * i) = b ! (upos + 1 + i)) \<and>
      (\<forall>k. \<not> sector_end dp n k \<longrightarrow> b' ! k = b ! k)"
  using assms
proof (induction n arbitrary: b upos dp)
  case 0
  show ?case by simp
next
  case (Suc n)
  have dp: "dp < length b" using Suc.prems(2) by auto
  have up: "upos + 1 < length b" using Suc.prems(1) dp by simp
  let ?b = "b[dp := b ! (upos + 1)]"
  have bd: "\<forall>i<n. (dp + 256) + 256 * i < length ?b"
    using sector_bounds_Suc [OF Suc.prems(2)] by simp
  have "upos + 1 + n < dp + 256" using Suc.prems(1) by simp
  from Suc.IH [OF this bd] obtain b' where
    r: "mst_restore ?b (upos + 1) (dp + 256) n = Ok b'" and l: "length b' = length ?b"
    and d: "\<forall>i<n. b' ! (dp + 256 + 256 * i) = ?b ! (upos + 1 + 1 + i)"
    and o: "\<forall>k. \<not> sector_end (dp + 256) n k \<longrightarrow> b' ! k = ?b ! k"
    by blast
  have "\<not> sector_end (dp + 256) n dp" using sector_end_ge by fastforce
  then have "b' ! dp = b ! (upos + 1)" using o dp by simp
  moreover have "b' ! (dp + 256 * Suc i) = b ! (upos + 1 + Suc i)" if "i < n" for i
    using mp [OF spec [OF d, of i] that] that Suc.prems(1) by (simp add: add.assoc)
  ultimately have "\<forall>i<Suc n. b' ! (dp + 256 * i) = b ! (upos + 1 + i)"
    by (simp add: All_less_Suc2)
  moreover have "\<forall>k. \<not> sector_end dp (Suc n) k \<longrightarrow> b' ! k = b ! k"
    using o by (simp add: sector_end_Suc)
  ultimately show ?case using r l dp up by (intro exI [of _ b']) simp
qed

lemma mst_protect_eq:
  assumes "upos + n < dp" and "\<forall>i<n. dp + u16s_per_block * i < length b"
  shows "\<exists>b'. mst_protect b usn upos dp n = Ok b' \<and> length b' = length b \<and>
      (\<forall>i<n. b' ! (dp + u16s_per_block * i) = usn) \<and>
      (\<forall>i<n. b' ! (upos + 1 + i) = b ! (dp + u16s_per_block * i)) \<and>
      (\<forall>k. \<not> sector_end dp n k \<and> \<not> (upos < k \<and> k \<le> upos + n) \<longrightarrow> b' ! k = b ! k)"
  using assms
proof (induction n arbitrary: b upos dp)
  case 0
  show ?case by simp
next
  case (Suc n)
  have dp: "dp < length b" using Suc.prems(2) by auto
  have up: "upos + 1 < length b" using Suc.prems(1) dp by simp
  let ?b = "b[upos + 1 := b ! dp, dp := usn]"
  have bd: "\<forall>i<n. (dp + 256) + 256 * i < length ?b"
    using sector_bounds_Suc [OF Suc.prems(2)] by simp
  have "upos + 1 + n < dp + 256" using Suc.prems(1) by simp
  from Suc.IH [OF this bd] obtain b' where
    r: "mst_protect ?b usn (upos + 1) (dp + 256) n = Ok b'" and l: "length b' = length ?b"
    and d: "\<forall>i<n. b' ! (dp + 256 + 256 * i) = usn"
    and u: "\<forall>i<n. b' ! (upos + 1 + 1 + i) = ?b ! (dp + 256 + 256 * i)"
    and o: "\<forall>k. \<not> sector_end (dp + 256) n k \<and> \<not> (upos + 1 < k \<and> k \<le> upos + 1 + n)
              \<longrightarrow> b' ! k = ?b ! k"
    by blast
  have nd: "\<not> sector_end (dp + 256) n dp" "\<not> sector_end (dp + 256) n (upos + 1)"
    using sector_end_ge Suc.prems(1) by fastforce+
  have "b' ! dp = ?b ! dp" using o nd Suc.prems(1) by simp
  then have "b' ! dp = usn" using dp by simp
  moreover have "b' ! (dp + 256 * Suc i) = usn" if "i < n" for i
    using mp [OF spec [OF d, of i] that] by (simp add: add.assoc)
  ultimately have D: "\<forall>i<Suc n. b' ! (dp + 256 * i) = usn"
    by (simp add: All_less_Suc2)
  have "b' ! (upos + 1) = ?b ! (upos + 1)" using o nd by simp
  then have "b' ! (upos + 1) = b ! dp" using up dp Suc.prems(1) by (simp add: nth_list_update)
  moreover have "b' ! (upos + 1 + Suc i) = b ! (dp + 256 * Suc i)" if "i < n" for i
    using mp [OF spec [OF u, of i] that] Suc.prems(1) by (simp add: add.assoc)
  ultimately have U: "\<forall>i<Suc n. b' ! (upos + 1 + i) = b ! (dp + 256 * i)"
    by (simp add: All_less_Suc2)
  have "\<forall>k. \<not> sector_end dp (Suc n) k \<and> \<not> (upos < k \<and> k \<le> upos + Suc n) \<longrightarrow> b' ! k = b ! k"
  proof (intro allI impI)
    fix k assume k: "\<not> sector_end dp (Suc n) k \<and> \<not> (upos < k \<and> k \<le> upos + Suc n)"
    then have "k \<noteq> upos + 1" and "k \<noteq> dp" by (auto simp: sector_end_Suc)
    then have "?b ! k = b ! k" by simp
    moreover have "b' ! k = ?b ! k" using o k by (auto simp: sector_end_Suc)
    ultimately show "b' ! k = b ! k" by simp
  qed
  with r l D U dp up show ?case by (intro exI [of _ b']) simp
qed

section \<open>Correctness of the protection\<close>

lemma next_usn_valid: "next_usn u \<noteq> 0 \<and> next_usn u \<noteq> 0xffff"
  by (simp add: next_usn_def Let_def)

lemma mst_layout_facts:
  assumes "mst_layout b sz"
  shows "4 \<le> length b" and "usa_pos b < length b"
    and "usa_pos b + unat (usa_count b) < last_u16"
    and "\<forall>i<unat (usa_count b). last_u16 + u16s_per_block * i < length b"
    and "\<not> mst_bad_geometry b sz"
proof -
  have l: "length b = 256 * unat (usa_count b)" and n: "0 < unat (usa_count b)"
    and u: "usa_pos b + unat (usa_count b) < 255"
    using assms mst_layout_length [OF assms] by (auto simp: mst_layout_def)
  show "4 \<le> length b" and "usa_pos b < length b" using l n u by linarith+
  show "usa_pos b + unat (usa_count b) < 255" by (rule u)
  show "\<not> mst_bad_geometry b sz" using assms by (simp add: mst_layout_def)
  show "\<forall>i<unat (usa_count b). 255 + 256 * i < length b"
  proof (intro allI impI)
    fix i assume "i < unat (usa_count b)"
    then have "Suc i \<le> unat (usa_count b)" by simp
    then have "256 * Suc i \<le> 256 * unat (usa_count b)" by (rule mult_le_mono2)
    then show "255 + 256 * i < length b" using l by simp
  qed
qed

text \<open>Reading back a record of the documented layout: success exactly when every sector end
  carries the update sequence number.\<close>

lemma post_read_complete:
  assumes "mst_layout b sz"
    and "\<forall>i<unat (usa_count b). b ! (last_u16 + u16s_per_block * i) = b ! usa_pos b"
  shows "post_read_mst_fixup b sz =
    bind_result (mst_restore b (usa_pos b) last_u16 (unat (usa_count b))) (\<lambda>b'. Ok (b', None))"
  using mst_layout_facts [OF assms(1)] assms(2) mst_check_eq [of "unat (usa_count b)" 255 b]
  by (simp add: post_read_mst_fixup_def)

lemma post_read_torn:
  assumes "mst_layout b sz" and "i < unat (usa_count b)"
    and "b ! (last_u16 + u16s_per_block * i) \<noteq> b ! usa_pos b"
  shows "post_read_mst_fixup b sz = Ok (set_magic magic_BAAD b, Some EINVAL)"
proof -
  have "mst_check b (b ! usa_pos b) 255 (unat (usa_count b)) = Ok False"
    using assms(2,3) mst_check_eq [OF mst_layout_facts(4) [OF assms(1)], of "b ! usa_pos b"]
    by auto
  then show ?thesis
    using mst_layout_facts [OF assms(1)] by (simp add: post_read_mst_fixup_def)
qed

text \<open>What a record looks like after \<^verbatim>\<open>pre_write_mst_fixup\<close> has protected it.\<close>

lemma pre_write_protects:
  assumes lay: "mst_layout b sz"
    and "get_magic b \<noteq> magic_BAAD" and "get_magic b \<noteq> magic_HOLE"
  defines "n \<equiv> unat (usa_count b)" and "u \<equiv> usa_pos b"
  obtains b1 where "pre_write_mst_fixup (Some b) sz = Ok (Some b1, None)"
    and "length b1 = length b" and "mst_layout b1 sz"
    and "usa_pos b1 = u" and "usa_count b1 = usa_count b"
    and "b1 ! u = next_usn (b ! u)"
    and "\<forall>i<n. b1 ! (last_u16 + u16s_per_block * i) = next_usn (b ! u)"
    and "\<forall>i<n. b1 ! (u + 1 + i) = b ! (last_u16 + u16s_per_block * i)"
    and "\<forall>k. \<not> sector_end last_u16 n k \<and> \<not> (u \<le> k \<and> k \<le> u + n) \<longrightarrow> b1 ! k = b ! k"
proof -
  note f = mst_layout_facts [OF lay, folded n_def u_def]
  let ?usn = "next_usn (b ! u)"
  let ?b = "b[u := ?usn]"
  have "\<forall>i<n. 255 + 256 * i < length ?b" using f(4) by simp
  from mst_protect_eq [OF f(3) this, of ?usn] obtain b1 where
    r: "mst_protect ?b ?usn u 255 n = Ok b1" and l: "length b1 = length ?b"
    and d: "\<forall>i<n. b1 ! (255 + 256 * i) = ?usn"
    and s: "\<forall>i<n. b1 ! (u + 1 + i) = ?b ! (255 + 256 * i)"
    and o: "\<forall>k. \<not> sector_end 255 n k \<and> \<not> (u < k \<and> k \<le> u + n) \<longrightarrow> b1 ! k = ?b ! k"
    by blast
  have low: "b1 ! k = ?b ! k" if "k < 255" "k \<le> u" for k
    using o that by simp
  have u4: "4 \<le> u" using lay by (simp add: mst_layout_def u_def)
  have hd: "b1 ! 2 = b ! 2" "b1 ! 3 = b ! 3" using low u4 by simp_all
  have ofs: "usa_ofs b1 = usa_ofs b" "usa_count b1 = usa_count b" "usa_pos b1 = u"
    using hd by (simp_all add: usa_ofs_def usa_count_def usa_pos_def u_def)
  have "mst_layout b1 sz"
    using lay ofs l u_def by (simp add: mst_layout_def mst_bad_geometry_def)
  moreover have "b1 ! u = ?usn" using low [of u] f(2,3) by simp
  moreover have "\<forall>i<n. b1 ! (u + 1 + i) = b ! (255 + 256 * i)"
    using s f(3) by simp
  moreover have "\<forall>k. \<not> sector_end 255 n k \<and> \<not> (u \<le> k \<and> k \<le> u + n) \<longrightarrow> b1 ! k = b ! k"
  proof (intro allI impI)
    fix k assume "\<not> sector_end 255 n k \<and> \<not> (u \<le> k \<and> k \<le> u + n)"
    then show "b1 ! k = b ! k" using o by (auto dest!: spec [of _ k])
  qed
  moreover have "pre_write_mst_fixup (Some b) sz = Ok (Some b1, None)"
    using assms(2,3) f r by (simp add: pre_write_mst_fixup_def u_def n_def Let_def)
  ultimately show thesis using that d l ofs by auto
qed

text \<open>
  C7. Writing and reading back. For a record with the documented layout that is not marked
  BAAD or HOLE, \<^verbatim>\<open>pre_write_mst_fixup\<close> succeeds; reading the protected record back with
  \<^verbatim>\<open>post_read_mst_fixup\<close>, or deprotecting it with \<^verbatim>\<open>post_write_mst_fixup\<close>, gives one and the
  same record, in which every cell outside the update sequence array has its original value
  and the update sequence number has advanced to a value that is neither 0 nor 0xffff.
\<close>

theorem mst_write_read_roundtrip:
  assumes lay: "mst_layout b sz"
    and "get_magic b \<noteq> magic_BAAD" and "get_magic b \<noteq> magic_HOLE"
  shows "\<exists>b1 b2. pre_write_mst_fixup (Some b) sz = Ok (Some b1, None) \<and>
      post_read_mst_fixup b1 sz = Ok (b2, None) \<and> post_write_mst_fixup b1 = Ok b2 \<and>
      length b2 = length b \<and> b2 ! usa_pos b = next_usn (b ! usa_pos b) \<and>
      b2 ! usa_pos b \<notin> {0, 0xffff} \<and>
      (\<forall>k. k < usa_pos b \<or> usa_pos b + unat (usa_count b) < k \<longrightarrow> b2 ! k = b ! k)"
proof -
  let ?n = "unat (usa_count b)" and ?u = "usa_pos b"
  obtain b1 where pw: "pre_write_mst_fixup (Some b) sz = Ok (Some b1, None)"
    and l1: "length b1 = length b" and lay1: "mst_layout b1 sz"
    and u1: "usa_pos b1 = ?u" and c1: "usa_count b1 = usa_count b"
    and n1: "b1 ! ?u = next_usn (b ! ?u)"
    and d1: "\<forall>i<?n. b1 ! (255 + 256 * i) = next_usn (b ! ?u)"
    and s1: "\<forall>i<?n. b1 ! (?u + 1 + i) = b ! (255 + 256 * i)"
    and o1: "\<forall>k. \<not> sector_end 255 ?n k \<and> \<not> (?u \<le> k \<and> k \<le> ?u + ?n) \<longrightarrow> b1 ! k = b ! k"
    by (rule pre_write_protects [OF assms])
  note f = mst_layout_facts [OF lay1, unfolded u1 c1]
  from mst_restore_eq [OF f(3,4)] obtain b2 where
    r: "mst_restore b1 ?u 255 ?n = Ok b2" and l2: "length b2 = length b1"
    and d2: "\<forall>i<?n. b2 ! (255 + 256 * i) = b1 ! (?u + 1 + i)"
    and o2: "\<forall>k. \<not> sector_end 255 ?n k \<longrightarrow> b2 ! k = b1 ! k"
    by blast
  have "\<forall>i<unat (usa_count b1). b1 ! (255 + 256 * i) = b1 ! usa_pos b1"
    using d1 n1 u1 c1 by simp
  then have "post_read_mst_fixup b1 sz = Ok (b2, None)"
    using post_read_complete [OF lay1] r u1 c1 by simp
  moreover have "post_write_mst_fixup b1 = Ok b2"
    using r u1 c1 f(1) by (simp add: post_write_mst_fixup_def)
  moreover have "b2 ! ?u = next_usn (b ! ?u)"
    using o2 n1 f(3) by simp
  moreover have "\<forall>k. k < ?u \<or> ?u + ?n < k \<longrightarrow> b2 ! k = b ! k"
  proof (intro allI impI)
    fix k assume k: "k < ?u \<or> ?u + ?n < k"
    show "b2 ! k = b ! k"
    proof (cases "sector_end 255 ?n k")
      case True
      then show ?thesis using d2 s1 by (auto simp: sector_end_def)
    next
      case False
      then show ?thesis using o1 o2 k by auto
    qed
  qed
  ultimately show ?thesis using pw l1 l2 next_usn_valid [of "b ! ?u"] by auto
qed

text \<open>
  A concrete record of one sector: cells 2 and 3 of the header say that the usa starts at
  byte 48 and has two entries.
\<close>

definition mst_example :: ntfs_record where
  "mst_example = [0x4946, 0x454c, 48, 2] @ replicate 252 7"

lemma mst_example_layout: "mst_layout mst_example 512"
  by (simp add: mst_layout_def mst_bad_geometry_def usa_pos_def usa_ofs_def usa_count_def
      mst_example_def)

lemma mst_example_magic:
  "get_magic mst_example \<noteq> magic_BAAD" "get_magic mst_example \<noteq> magic_HOLE"
  by (simp_all add: get_magic_def mst_example_def magic_BAAD_def magic_HOLE_def)

theorem mst_write_read_roundtrip_witness:
  "\<exists>b1 b2. pre_write_mst_fixup (Some mst_example) 512 = Ok (Some b1, None) \<and>
      post_read_mst_fixup b1 512 = Ok (b2, None) \<and> post_write_mst_fixup b1 = Ok b2 \<and>
      b2 ! usa_pos mst_example = 8"
proof -
  have "usa_pos mst_example = 24" by (simp add: usa_pos_def usa_ofs_def mst_example_def)
  moreover have "next_usn (mst_example ! 24) = 8"
    by (simp add: next_usn_def mst_example_def nth_append)
  ultimately show ?thesis
    using mst_write_read_roundtrip [OF mst_example_layout mst_example_magic] by auto
qed

text \<open>
  C11. Torn writes are detected. When the end of any sector of a record does not carry the
  update sequence number of the record's usa (the sector stems from another write),
  \<^verbatim>\<open>post_read_mst_fixup\<close> fails with EINVAL, marks the record BAAD and changes nothing else;
  no cell is restored from the usa.
\<close>

theorem mst_torn_write_detected:
  assumes "mst_layout b sz" and "i < unat (usa_count b)"
    and "b ! (last_u16 + u16s_per_block * i) \<noteq> b ! usa_pos b"
  shows "\<exists>b'. post_read_mst_fixup b sz = Ok (b', Some EINVAL) \<and>
      get_magic b' = magic_BAAD \<and> (\<forall>k\<ge>2. b' ! k = b ! k)"
proof -
  have "post_read_mst_fixup b sz = Ok (set_magic magic_BAAD b, Some EINVAL)"
    by (rule post_read_torn [OF assms])
  moreover have "0 < length b" and "1 < length b"
    using mst_layout_facts(1) [OF assms(1)] by linarith+
  then have "get_magic (set_magic magic_BAAD b) = magic_BAAD"
    by (simp add: get_magic_def set_magic_def)
  moreover have "\<forall>k\<ge>2. set_magic magic_BAAD b ! k = b ! k"
    by (simp add: set_magic_def)
  ultimately show ?thesis by blast
qed

definition mst_torn_example :: ntfs_record where
  "mst_torn_example = [0x4946, 0x454c, 48, 2] @ replicate 251 7 @ [9]"

theorem mst_torn_write_detected_witness:
  "\<exists>b'. post_read_mst_fixup mst_torn_example 512 = Ok (b', Some EINVAL) \<and>
      get_magic b' = magic_BAAD"
proof -
  have lay: "mst_layout mst_torn_example 512"
    by (simp add: mst_layout_def mst_bad_geometry_def usa_pos_def usa_ofs_def usa_count_def
        mst_torn_example_def)
  have n: "(0::nat) < unat (usa_count mst_torn_example)"
    by (simp add: usa_count_def mst_torn_example_def)
  have ne: "mst_torn_example ! (255 + 256 * 0) \<noteq> mst_torn_example ! usa_pos mst_torn_example"
    by (simp add: usa_pos_def usa_ofs_def mst_torn_example_def nth_append)
  show ?thesis using mst_torn_write_detected [OF lay n ne] by blast
qed

section \<open>Memory safety of the checks\<close>

lemma mst_restore_safe:
  assumes "\<forall>i<n. upos + 1 + i < length b \<and> dp + u16s_per_block * i < length b"
  shows "\<exists>b'. mst_restore b upos dp n = Ok b' \<and> length b' = length b"
  using assms
proof (induction n arbitrary: b upos dp)
  case 0
  show ?case by simp
next
  case (Suc n)
  have dp: "dp < length b" and up: "upos + 1 < length b"
    using spec [OF Suc.prems, of 0] by simp_all
  let ?b = "b[dp := b ! (upos + 1)]"
  have "\<forall>i<n. upos + 1 + 1 + i < length ?b \<and> dp + 256 + 256 * i < length ?b"
  proof (intro allI impI)
    fix i assume "i < n"
    then show "upos + 1 + 1 + i < length ?b \<and> dp + 256 + 256 * i < length ?b"
      using spec [OF Suc.prems, of "Suc i"] by simp
  qed
  from Suc.IH [OF this] dp up show ?case by auto
qed

definition mst_overrun_example :: ntfs_record where
  "mst_overrun_example = [0x4946, 0x454c, 510, 2] @ replicate 252 7"

text \<open>
  C35. The bounds check is one entry short. The check
  \<^verbatim>\<open>usa_ofs + (usa_count * 2) > size\<close> of \<^verbatim>\<open>post_read_mst_fixup\<close> counts the fixups but not the
  update sequence number in front of them: there is a record whose buffer is exactly \<open>sz\<close>
  bytes long and that passes the checks, for which the restoring loop reads the cell behind
  the buffer.
\<close>

theorem post_read_overruns_buffer:
  "\<exists>b sz. 2 * length b = unat sz \<and> \<not> mst_bad_geometry b sz \<and>
      post_read_mst_fixup b sz = Oob"
proof (intro exI conjI)
  let ?b = mst_overrun_example
  show l: "2 * length ?b = unat (512 :: u32)" by (simp add: mst_overrun_example_def)
  have p: "usa_pos ?b = 255" and c: "unat (usa_count ?b) = Suc 0"
    by (simp_all add: usa_pos_def usa_ofs_def usa_count_def mst_overrun_example_def)
  show g: "\<not> mst_bad_geometry ?b 512"
    by (simp add: mst_bad_geometry_def usa_ofs_def usa_count_def mst_overrun_example_def)
  show "post_read_mst_fixup ?b 512 = Oob"
    using g l by (simp add: post_read_mst_fixup_def p c)
qed

end
