(* ===== verification/Ntfs_Runlist.thy ===== *)
theory Ntfs_Runlist
  imports Ntfs_Prelude
begin

text \<open>
  The in-memory map from virtual to logical clusters of an attribute
  (\<^verbatim>\<open>ntfs/runlist.h\<close>, and the two searching routines of \<^verbatim>\<open>ntfs/runlist.c\<close>). A runlist is the
  array of its elements; the first element of length 0 terminates it and whatever the
  buffer holds behind that terminator is not part of it. A \<^verbatim>\<open>NULL\<close> runlist is \<open>None\<close>.
\<close>

section \<open>Elements and special values\<close>

record runlist_element =
  rl_vcn :: int
  rl_lcn :: int
  rl_len :: int

type_synonym runlist = "runlist_element list"

abbreviation LCN_HOLE :: int where
  "LCN_HOLE \<equiv> - 1"

abbreviation LCN_RL_NOT_MAPPED :: int where
  "LCN_RL_NOT_MAPPED \<equiv> - 2"

abbreviation LCN_ENOENT :: int where
  "LCN_ENOENT \<equiv> - 3"

abbreviation LCN_ENOMEM :: int where
  "LCN_ENOMEM \<equiv> - 4"

abbreviation LCN_EIO :: int where
  "LCN_EIO \<equiv> - 5"

abbreviation mk_rle :: "int \<Rightarrow> int \<Rightarrow> int \<Rightarrow> runlist_element" where
  "mk_rle v l n \<equiv> \<lparr>rl_vcn = v, rl_lcn = l, rl_len = n\<rparr>"

section \<open>Searching\<close>

text \<open>The loop of \<^verbatim>\<open>ntfs_rl_vcn_to_lcn\<close>; the list is the array from the current element on.\<close>

fun vcn_to_lcn_loop :: "runlist \<Rightarrow> int \<Rightarrow> int result" where
  "vcn_to_lcn_loop [] v = Oob"
| "vcn_to_lcn_loop (e # rest) v =
     (if rl_len e \<noteq> 0 then
        (case rest of
           [] \<Rightarrow> Oob
         | e1 # _ \<Rightarrow>
             if v < rl_vcn e1 then
               (if rl_lcn e \<ge> 0 then Ok (s64 (rl_lcn e + s64 (v - rl_vcn e)))
                else Ok (rl_lcn e))
             else vcn_to_lcn_loop rest v)
      else if rl_lcn e < 0 then Ok (rl_lcn e)
      else Ok LCN_ENOENT)"

definition ntfs_rl_vcn_to_lcn :: "runlist option \<Rightarrow> int \<Rightarrow> int result" where
  "ntfs_rl_vcn_to_lcn rlo v =
     (if v < 0 then Bug
      else case rlo of
        None \<Rightarrow> Ok LCN_RL_NOT_MAPPED
      | Some rl \<Rightarrow>
          bind_result (rd rl 0) (\<lambda>e0.
            if v < rl_vcn e0 then Ok LCN_ENOENT else vcn_to_lcn_loop rl v))"

text \<open>
  \<^verbatim>\<open>ntfs_rl_find_vcn_nolock\<close> returns a pointer into the runlist; the model returns its index,
  \<open>None\<close> for \<^verbatim>\<open>NULL\<close>.
\<close>

fun find_vcn_loop :: "runlist \<Rightarrow> nat \<Rightarrow> int \<Rightarrow> nat option result" where
  "find_vcn_loop [] i v = Oob"
| "find_vcn_loop (e # rest) i v =
     (if rl_len e \<noteq> 0 then
        (case rest of
           [] \<Rightarrow> Oob
         | e1 # _ \<Rightarrow>
             if v < rl_vcn e1 then
               (if rl_lcn e \<ge> LCN_HOLE then Ok (Some i) else Ok None)
             else find_vcn_loop rest (Suc i) v)
      else if rl_lcn e = LCN_ENOENT then Ok (Some i)
      else Ok None)"

definition ntfs_rl_find_vcn_nolock :: "runlist option \<Rightarrow> int \<Rightarrow> nat option result" where
  "ntfs_rl_find_vcn_nolock rlo v =
     (if v < 0 then Bug
      else case rlo of
        None \<Rightarrow> Ok None
      | Some rl \<Rightarrow>
          bind_result (rd rl 0) (\<lambda>e0.
            if v < rl_vcn e0 then Ok None else find_vcn_loop rl 0 v))"

section \<open>Well-formed runlists and the map they stand for\<close>

text \<open>
  \<open>rl_chain v rl\<close>: the elements start at vcn \<open>v\<close>, have positive lengths, follow each other
  without gap or overlap and end in a terminator that is either "no such vcn" or "not mapped
  yet"; all numbers, and the lcns of allocated runs, are below \<open>2 ^ 63\<close>.
\<close>

fun rl_chain :: "int \<Rightarrow> runlist \<Rightarrow> bool" where
  "rl_chain v [] \<longleftrightarrow> False"
| "rl_chain v (e # rest) \<longleftrightarrow>
     rl_vcn e = v \<and> v < 9223372036854775808 \<and>
     (if rl_len e = 0 then rl_lcn e = LCN_ENOENT \<or> rl_lcn e = LCN_RL_NOT_MAPPED
      else 0 < rl_len e \<and> LCN_RL_NOT_MAPPED \<le> rl_lcn e \<and>
        rl_lcn e + rl_len e < 9223372036854775808 \<and> rl_chain (v + rl_len e) rest)"

definition rl_wf :: "runlist \<Rightarrow> bool" where
  "rl_wf rl \<longleftrightarrow> rl_chain 0 rl"

text \<open>The abstract content: which lcn, or which special value, a vcn is mapped to.\<close>

fun rl_map :: "runlist \<Rightarrow> int \<Rightarrow> int" where
  "rl_map [] v = LCN_ENOENT"
| "rl_map (e # rest) v =
     (if rl_len e = 0 then rl_lcn e
      else if v < rl_vcn e + rl_len e then
        (if rl_lcn e \<ge> 0 then rl_lcn e + (v - rl_vcn e) else rl_lcn e)
      else rl_map rest v)"

text \<open>The first vcn behind the runlist.\<close>

fun rl_end :: "runlist \<Rightarrow> int" where
  "rl_end [] = 0"
| "rl_end (e # rest) = (if rl_len e = 0 then rl_vcn e else rl_end rest)"

lemma rl_chain_nonempty: "rl_chain v rl \<Longrightarrow> rl \<noteq> []"
  by (cases rl) auto

lemma rl_chain_hd: "rl_chain v rl \<Longrightarrow> rl_vcn (hd rl) = v"
  by (cases rl) auto

lemma rl_chain_end: "rl_chain v rl \<Longrightarrow> v \<le> rl_end rl \<and> rl_end rl < 9223372036854775808"
  by (induction v rl rule: rl_chain.induct) (auto split: if_splits)

lemma vcn_to_lcn_loop_eq:
  assumes "rl_chain s rl" and "0 \<le> s" and "s \<le> v" and "v < 9223372036854775808"
  shows "vcn_to_lcn_loop rl v = Ok (rl_map rl v)"
  using assms
proof (induction rl arbitrary: s)
  case Nil
  then show ?case by simp
next
  case (Cons e rest)
  show ?case
  proof (cases "rl_len e = 0")
    case True
    with Cons.prems(1) show ?thesis by auto
  next
    case False
    with Cons.prems(1) have c: "rl_chain (s + rl_len e) rest" and s: "rl_vcn e = s"
      and n: "0 < rl_len e" and b: "rl_lcn e + rl_len e < 9223372036854775808" by auto
    obtain e1 r where r: "rest = e1 # r" and e1: "rl_vcn e1 = s + rl_len e"
      using c by (cases rest) auto
    show ?thesis
    proof (cases "v < s + rl_len e")
      case True
      then have "s64 (v - s) = v - s" and "0 \<le> rl_lcn e \<Longrightarrow>
          s64 (rl_lcn e + (v - s)) = rl_lcn e + (v - s)"
        using Cons.prems b by (auto intro!: s64_id)
      with True False r e1 s show ?thesis by simp
    next
      case ge: False
      then have "vcn_to_lcn_loop rest v = Ok (rl_map rest v)"
        using Cons.IH [OF c] Cons.prems n by simp
      with ge False r e1 s show ?thesis by simp
    qed
  qed
qed

lemma rl_vcn_to_lcn_map:
  assumes "rl_wf rl" and "0 \<le> v" and "v < 9223372036854775808"
  shows "ntfs_rl_vcn_to_lcn (Some rl) v = Ok (rl_map rl v)"
proof -
  have c: "rl_chain 0 rl" using assms(1) by (simp add: rl_wf_def)
  then obtain e r where "rl = e # r" and "rl_vcn e = 0" by (cases rl) auto
  then show ?thesis
    using vcn_to_lcn_loop_eq [OF c order_refl assms(2,3)] assms(2)
    by (simp add: ntfs_rl_vcn_to_lcn_def)
qed

text \<open>
  C22. Translation of virtual to logical clusters. On a well-formed runlist
  \<^verbatim>\<open>ntfs_rl_vcn_to_lcn\<close> never reads behind the terminator, its additions do not overflow, and
  it returns exactly what the runlist maps the vcn to: the lcn inside an allocated run, the
  special value of a hole or unmapped run, or the terminator's value behind the end.
\<close>

theorem rl_vcn_to_lcn_correct:
  assumes "rl_wf rl" and "0 \<le> v" and "v < 9223372036854775808"
  shows "ntfs_rl_vcn_to_lcn (Some rl) v = Ok (rl_map rl v)"
  by (rule rl_vcn_to_lcn_map [OF assms])

definition rl_example :: runlist where
  "rl_example = [mk_rle 0 100 8, mk_rle 8 LCN_HOLE 8, mk_rle 16 LCN_RL_NOT_MAPPED 16,
     mk_rle 32 LCN_ENOENT 0]"

lemma rl_example_wf: "rl_wf rl_example"
  by (simp add: rl_wf_def rl_example_def)

theorem rl_vcn_to_lcn_correct_witness:
  "ntfs_rl_vcn_to_lcn (Some rl_example) 5 = Ok 105 \<and>
   ntfs_rl_vcn_to_lcn (Some rl_example) 12 = Ok LCN_HOLE"
  using rl_vcn_to_lcn_correct [OF rl_example_wf, of 5] rl_vcn_to_lcn_correct [OF rl_example_wf, of 12]
  by (simp add: rl_example_def)

section \<open>Finding the element of a vcn\<close>

text \<open>The element contains the vcn \<open>v\<close>, is allocated or a hole, and maps \<open>v\<close> to \<open>lcn\<close>.\<close>

definition element_maps :: "runlist_element \<Rightarrow> int \<Rightarrow> int \<Rightarrow> bool" where
  "element_maps e v lcn \<longleftrightarrow>
     LCN_HOLE \<le> rl_lcn e \<and> rl_vcn e \<le> v \<and> v < rl_vcn e + rl_len e \<and>
     lcn = (if 0 \<le> rl_lcn e then rl_lcn e + (v - rl_vcn e) else LCN_HOLE)"

lemma find_vcn_loop_eq:
  assumes "rl_chain s rl" and "s \<le> v" and "v < rl_end rl"
  shows "\<exists>j. find_vcn_loop rl i v = Ok j \<and>
    (case j of
       None \<Rightarrow> rl_map rl v = LCN_RL_NOT_MAPPED
     | Some k \<Rightarrow> i \<le> k \<and> k - i < length rl \<and> element_maps (rl ! (k - i)) v (rl_map rl v))"
  using assms
proof (induction rl arbitrary: s i)
  case Nil
  then show ?case by simp
next
  case (Cons e rest)
  have len: "rl_len e \<noteq> 0" using Cons.prems by (auto split: if_splits)
  with Cons.prems(1) have c: "rl_chain (s + rl_len e) rest" and s: "rl_vcn e = s"
    and n: "0 < rl_len e" and l: "- 2 \<le> rl_lcn e" by auto
  obtain e1 r where r: "rest = e1 # r" and e1: "rl_vcn e1 = s + rl_len e"
    using c by (cases rest) auto
  show ?case
  proof (cases "v < s + rl_len e")
    case True
    with len r e1 s l Cons.prems(2) show ?thesis by (auto simp: element_maps_def)
  next
    case ge: False
    have "v < rl_end rest" using Cons.prems(3) len by simp
    with Cons.IH [OF c, of "Suc i"] ge obtain j where j: "find_vcn_loop rest (Suc i) v = Ok j" and
      "case j of None \<Rightarrow> rl_map rest v = LCN_RL_NOT_MAPPED
       | Some k \<Rightarrow> Suc i \<le> k \<and> k - Suc i < length rest \<and> element_maps (rest ! (k - Suc i)) v (rl_map rest v)" by auto
    moreover have "(e # rest) ! (k - i) = rest ! (k - Suc i)" if "Suc i \<le> k" for k
      using that by (simp add: nth_Cons' Suc_diff_Suc)
    ultimately show ?thesis using ge len r e1 s j by (cases j) auto
  qed
qed

text \<open>
  C23. Finding an element. For a vcn inside a well-formed runlist \<^verbatim>\<open>ntfs_rl_find_vcn_nolock\<close> always returns: \<^verbatim>\<open>NULL\<close>
  exactly if the vcn is not mapped yet, and otherwise the element that contains the vcn, from which the
  lcn of the vcn can be computed, or which is a hole exactly if the vcn lies in a hole.
\<close>

theorem rl_find_vcn_correct:
  assumes "rl_wf rl" and "0 \<le> v" and "v < rl_end rl"
  shows "\<exists>j. ntfs_rl_find_vcn_nolock (Some rl) v = Ok j \<and> (j = None \<longleftrightarrow> rl_map rl v = LCN_RL_NOT_MAPPED) \<and>
    (\<forall>k. j = Some k \<longrightarrow> k < length rl \<and> element_maps (rl ! k) v (rl_map rl v))"
proof -
  have c: "rl_chain 0 rl" using assms(1) by (simp add: rl_wf_def)
  then obtain e r where "rl = e # r" and "rl_vcn e = 0" by (cases rl) auto
  then have "ntfs_rl_find_vcn_nolock (Some rl) v = find_vcn_loop rl 0 v"
    using assms(2) by (simp add: ntfs_rl_find_vcn_nolock_def)
  moreover obtain j where "find_vcn_loop rl 0 v = Ok j"
      "case j of None \<Rightarrow> rl_map rl v = LCN_RL_NOT_MAPPED
       | Some k \<Rightarrow> 0 \<le> k \<and> k - 0 < length rl \<and> element_maps (rl ! (k - 0)) v (rl_map rl v)"
    using find_vcn_loop_eq [OF c assms(2,3), of 0] by blast
  moreover have "rl_map rl v \<noteq> LCN_RL_NOT_MAPPED" if "element_maps e v (rl_map rl v)" for e
    using that by (auto simp: element_maps_def)
  ultimately show ?thesis by (cases j) auto
qed

theorem rl_find_vcn_correct_witness:
  "ntfs_rl_find_vcn_nolock (Some rl_example) 9 = Ok (Some 1) \<and> rl_map rl_example 9 = LCN_HOLE"
  using rl_find_vcn_correct [OF rl_example_wf, of 9]
  by (auto simp: ntfs_rl_find_vcn_nolock_def rl_example_def element_maps_def)

end
