(* ===== verification/Ntfs_Runlist_Merge.thy ===== *)
theory Ntfs_Runlist_Merge
  imports Ntfs_Runlist
begin

text \<open>
  Merging two runlists (\<^verbatim>\<open>ntfs/runlist.c\<close>): the memory primitives on arrays of elements, the
  four ways to bring a new runlist into a hole or unmapped region of an existing one and
  \<^verbatim>\<open>ntfs_runlists_merge\<close>, which chooses among them. The buffer of a runlist is a list; its
  length is the number of elements the code may access.
\<close>

section \<open>Memory primitives\<close>

text \<open>
  What the allocator does: whether an allocation that may fail succeeds, and what freshly
  allocated elements hold.
\<close>

record rl_mem =
  alloc_ok :: bool
  fresh_elem :: "nat \<Rightarrow> runlist_element"

definition ntfs_rl_mm :: "runlist \<Rightarrow> nat \<Rightarrow> nat \<Rightarrow> nat \<Rightarrow> runlist result" where
  "ntfs_rl_mm base dst src n =
     (if dst \<noteq> src \<and> n > 0 then
        (if dst + n \<le> length base \<and> src + n \<le> length base
         then Ok (take dst base @ take n (drop src base) @ drop (dst + n) base) else Oob)
      else Ok base)"

definition ntfs_rl_mc :: "runlist \<Rightarrow> nat \<Rightarrow> runlist \<Rightarrow> nat \<Rightarrow> nat \<Rightarrow> runlist result" where
  "ntfs_rl_mc dstbase dst srcbase src n =
     (if n > 0 then
        (if dst + n \<le> length dstbase \<and> src + n \<le> length srcbase
         then Ok (take dst dstbase @ take n (drop src srcbase) @ drop (dst + n) dstbase) else Oob)
      else Ok dstbase)"

text \<open>
  Elements have 24 bytes and buffers whole pages. When the number of pages stays the same the
  buffer is kept and the elements up to \<open>new_size\<close> are accessible; otherwise the common part of
  the old pages is copied into the new ones.
\<close>

definition rl_extend :: "rl_mem \<Rightarrow> runlist \<Rightarrow> nat \<Rightarrow> runlist" where
  "rl_extend mem rl n = rl @ map (fresh_elem mem) [length rl..<n]"

definition ntfs_rl_realloc_nofail :: "rl_mem \<Rightarrow> runlist \<Rightarrow> nat \<Rightarrow> nat \<Rightarrow> runlist" where
  "ntfs_rl_realloc_nofail mem rl old_size new_size =
     (let old_bytes = PAGE_ALIGN (old_size * 24); new_bytes = PAGE_ALIGN (new_size * 24) in
      if old_bytes = new_bytes then rl_extend mem rl new_size
      else rl_extend mem (take (min old_bytes new_bytes div 24) rl) new_size)"

definition ntfs_rl_realloc :: "rl_mem \<Rightarrow> runlist \<Rightarrow> nat \<Rightarrow> nat \<Rightarrow> runlist result" where
  "ntfs_rl_realloc mem rl old_size new_size =
     (let old_bytes = PAGE_ALIGN (old_size * 24); new_bytes = PAGE_ALIGN (new_size * 24) in
      if old_bytes = new_bytes then Ok (rl_extend mem rl new_size)
      else if \<not> alloc_ok mem then Error ENOMEM
      else Ok (rl_extend mem (take (min old_bytes new_bytes div 24) rl) new_size))"

section \<open>Joining runs\<close>

definition ntfs_are_rl_mergeable :: "runlist_element \<Rightarrow> runlist_element \<Rightarrow> bool" where
  "ntfs_are_rl_mergeable dst src \<longleftrightarrow>
     (rl_lcn dst = LCN_RL_NOT_MAPPED \<and> rl_lcn src = LCN_RL_NOT_MAPPED) \<or>
     (s64 (rl_vcn dst + rl_len dst) = rl_vcn src \<and>
      ((rl_lcn dst \<ge> 0 \<and> rl_lcn src \<ge> 0 \<and> s64 (rl_lcn dst + rl_len dst) = rl_lcn src) \<or>
       (rl_lcn dst = LCN_HOLE \<and> rl_lcn src = LCN_HOLE)))"

definition ntfs_rl_merge :: "runlist_element \<Rightarrow> runlist_element \<Rightarrow> runlist_element" where
  "ntfs_rl_merge dst src = dst\<lparr>rl_len := s64 (rl_len dst + rl_len src)\<rparr>"

text \<open>The end of an element and changes of one field of an array cell.\<close>

definition rle_end :: "runlist_element \<Rightarrow> int" where
  "rle_end e = s64 (rl_vcn e + rl_len e)"

definition upd_elem :: "runlist \<Rightarrow> nat \<Rightarrow> (runlist_element \<Rightarrow> runlist_element) \<Rightarrow> runlist result" where
  "upd_elem rl i f = bind_result (rd rl i) (\<lambda>e. wr rl i (f e))"

text \<open>\<^verbatim>\<open>rl[n - 1]\<close>, which lies in front of the array for \<open>n = 0\<close>.\<close>

definition rd_prev :: "'a list \<Rightarrow> nat \<Rightarrow> 'a result" where
  "rd_prev xs n = (if n = 0 then Oob else rd xs (n - 1))"

section \<open>The four merges\<close>

text \<open>The length of the file may have changed: correct the end marker.\<close>

definition rl_fix_end :: "runlist \<Rightarrow> nat \<Rightarrow> runlist result" where
  "rl_fix_end dst marker =
     bind_result (rd dst marker) (\<lambda>m.
       if rl_lcn m = LCN_ENOENT then
         bind_result (rd_prev dst marker) (\<lambda>p. wr dst marker (m\<lparr>rl_vcn := rle_end p\<rparr>))
       else Ok dst)"

definition ntfs_rl_append :: "rl_mem \<Rightarrow> runlist \<Rightarrow> nat \<Rightarrow> runlist \<Rightarrow> nat \<Rightarrow> nat \<Rightarrow> runlist result" where
  "ntfs_rl_append mem dst dsize src ssize loc =
     bind_result
       (if loc + 1 < dsize
        then bind_result (rd_prev src ssize) (\<lambda>s. bind_result (rd dst (loc + 1)) (\<lambda>d.
          Ok (ntfs_are_rl_mergeable s d)))
        else Ok False) (\<lambda>right.
     bind_result (ntfs_rl_realloc mem dst dsize (dsize + ssize - of_bool right)) (\<lambda>dst.
     bind_result
       (if right then bind_result (rd dst (loc + 1)) (\<lambda>d.
          upd_elem src (ssize - 1) (\<lambda>s. ntfs_rl_merge s d)) else Ok src) (\<lambda>src.
     let marker = loc + ssize + 1; tail = loc + 1 + of_bool right in
     bind_result (ntfs_rl_mm dst marker tail (dsize - tail)) (\<lambda>dst.
     bind_result (ntfs_rl_mc dst (loc + 1) src 0 ssize) (\<lambda>dst.
     bind_result (rd dst (loc + 1)) (\<lambda>e1.
     bind_result (upd_elem dst loc (\<lambda>e. e\<lparr>rl_len := s64 (rl_vcn e1 - rl_vcn e)\<rparr>)) (\<lambda>dst.
       rl_fix_end dst marker)))))))"

text \<open>
  After the copy: the vcn and, for a hole or unmapped run, the length of the run behind the
  inserted ones, and the "not mapped" run that fills a discontinuity in front of them.
\<close>

definition rl_insert_adjust :: "runlist \<Rightarrow> nat \<Rightarrow> nat \<Rightarrow> bool \<Rightarrow> runlist result" where
  "rl_insert_adjust dst marker loc disc =
     bind_result (rd_prev dst marker) (\<lambda>p.
     bind_result (upd_elem dst marker (\<lambda>m. m\<lparr>rl_vcn := rle_end p\<rparr>)) (\<lambda>dst.
     bind_result (rd dst marker) (\<lambda>m.
     bind_result
       (if rl_lcn m = LCN_HOLE \<or> rl_lcn m = LCN_RL_NOT_MAPPED then
          bind_result (rd dst (marker + 1)) (\<lambda>n.
            wr dst marker (m\<lparr>rl_len := s64 (rl_vcn n - rl_vcn m)\<rparr>))
        else Ok dst) (\<lambda>dst.
     if disc then
       bind_result (rd dst (loc + 1)) (\<lambda>n.
         if loc > 0 then
           bind_result (rd dst (loc - 1)) (\<lambda>p.
             wr dst loc (mk_rle (rle_end p) LCN_RL_NOT_MAPPED (s64 (rl_vcn n - rle_end p))))
         else wr dst loc (mk_rle 0 LCN_RL_NOT_MAPPED (rl_vcn n)))
     else Ok dst))))"

definition ntfs_rl_insert :: "rl_mem \<Rightarrow> runlist \<Rightarrow> nat \<Rightarrow> runlist \<Rightarrow> nat \<Rightarrow> nat \<Rightarrow> runlist result" where
  "ntfs_rl_insert mem dst dsize src ssize loc =
     bind_result (rd src 0) (\<lambda>s0.
     bind_result
       (if loc = 0 then Ok (False, rl_vcn s0 > 0)
        else bind_result (rd dst (loc - 1)) (\<lambda>p.
          let left = ntfs_are_rl_mergeable p s0;
              merged_length = (if left then s64 (rl_len p + rl_len s0) else rl_len p)
          in Ok (left, rl_vcn s0 > s64 (rl_vcn p + merged_length)))) (\<lambda>(left, disc).
     bind_result (ntfs_rl_realloc mem dst dsize (dsize + ssize - of_bool left + of_bool disc)) (\<lambda>dst.
     bind_result (if left then upd_elem dst (loc - 1) (\<lambda>p. ntfs_rl_merge p s0) else Ok dst) (\<lambda>dst.
     let marker = loc + ssize - of_bool left + of_bool disc in
     bind_result (ntfs_rl_mm dst marker loc (dsize - loc)) (\<lambda>dst.
     bind_result (ntfs_rl_mc dst (loc + of_bool disc) src (of_bool left) (ssize - of_bool left)) (\<lambda>dst.
       rl_insert_adjust dst marker loc disc))))))"

text \<open>Merge the left end, move the tail of the destination and copy in the source.\<close>

definition rl_replace_move :: "runlist \<Rightarrow> nat \<Rightarrow> runlist \<Rightarrow> nat \<Rightarrow> nat \<Rightarrow> bool \<Rightarrow> bool \<Rightarrow> runlist result" where
  "rl_replace_move dst dsize src ssize loc left right =
     bind_result
       (if left then bind_result (rd src 0) (\<lambda>s.
          upd_elem dst (loc - 1) (\<lambda>d. ntfs_rl_merge d s)) else Ok dst) (\<lambda>dst.
     let tail = loc + of_bool right + 1; marker = loc + ssize - of_bool left in
     bind_result (ntfs_rl_mm dst marker tail (dsize - tail)) (\<lambda>dst.
     bind_result (ntfs_rl_mc dst loc src (of_bool left) (ssize - of_bool left)) (\<lambda>dst.
       if dsize > tail then rl_fix_end dst marker else Ok dst)))"

definition ntfs_rl_replace :: "rl_mem \<Rightarrow> runlist \<Rightarrow> nat \<Rightarrow> runlist \<Rightarrow> nat \<Rightarrow> nat \<Rightarrow> runlist result" where
  "ntfs_rl_replace mem dst dsize src ssize loc =
     bind_result
       (if loc + 1 < dsize
        then bind_result (rd_prev src ssize) (\<lambda>s. bind_result (rd dst (loc + 1)) (\<lambda>d.
          Ok (ntfs_are_rl_mergeable s d)))
        else Ok False) (\<lambda>right.
     bind_result
       (if loc > 0
        then bind_result (rd dst (loc - 1)) (\<lambda>d. bind_result (rd src 0) (\<lambda>s.
          Ok (ntfs_are_rl_mergeable d s)))
        else Ok False) (\<lambda>left.
     bind_result
       (if ssize > 1 + of_bool left + of_bool right
        then ntfs_rl_realloc mem dst dsize (dsize + ssize - 1 - of_bool left - of_bool right)
        else Ok dst) (\<lambda>dst.
     bind_result
       (if right then bind_result (rd dst (loc + 1)) (\<lambda>d.
          upd_elem src (ssize - 1) (\<lambda>s. ntfs_rl_merge s d)) else Ok src) (\<lambda>src.
       rl_replace_move dst dsize src ssize loc left right))))"

definition ntfs_rl_split :: "rl_mem \<Rightarrow> runlist \<Rightarrow> nat \<Rightarrow> runlist \<Rightarrow> nat \<Rightarrow> nat \<Rightarrow> runlist result" where
  "ntfs_rl_split mem dst dsize src ssize loc =
     bind_result (ntfs_rl_realloc mem dst dsize (dsize + ssize + 1)) (\<lambda>dst.
     bind_result (ntfs_rl_mm dst (loc + 1 + ssize) loc (dsize - loc)) (\<lambda>dst.
     bind_result (ntfs_rl_mc dst (loc + 1) src 0 ssize) (\<lambda>dst.
     bind_result (rd dst (loc + 1)) (\<lambda>e1.
     bind_result (upd_elem dst loc (\<lambda>e. e\<lparr>rl_len := s64 (rl_vcn e1 - rl_vcn e)\<rparr>)) (\<lambda>dst.
     bind_result (rd dst (loc + ssize)) (\<lambda>l.
     bind_result (upd_elem dst (loc + ssize + 1) (\<lambda>e. e\<lparr>rl_vcn := rle_end l\<rparr>)) (\<lambda>dst.
     bind_result (rd dst (loc + ssize + 2)) (\<lambda>n.
       upd_elem dst (loc + ssize + 1) (\<lambda>e. e\<lparr>rl_len := s64 (rl_vcn n - rl_vcn e)\<rparr>)))))))))"

section \<open>Choosing the merge\<close>

text \<open>The index of the first element that is mapped, or a hole, or the terminator.\<close>

fun skip_unmapped :: "runlist \<Rightarrow> nat result" where
  "skip_unmapped [] = Oob"
| "skip_unmapped (e # rest) =
     (if rl_len e \<noteq> 0 \<and> rl_lcn e < LCN_HOLE
      then bind_result (skip_unmapped rest) (\<lambda>i. Ok (Suc i)) else Ok 0)"

text \<open>The index of the element that ends behind \<open>v\<close>, or of the terminator.\<close>

fun find_ins :: "runlist \<Rightarrow> int \<Rightarrow> nat result" where
  "find_ins [] v = Oob"
| "find_ins (e # rest) v =
     (if rl_len e = 0 \<or> rle_end e > v then Ok 0
      else bind_result (find_ins rest v) (\<lambda>i. Ok (Suc i)))"

text \<open>The index of the terminator.\<close>

fun scan_end :: "runlist \<Rightarrow> nat result" where
  "scan_end [] = Oob"
| "scan_end (e # rest) =
     (if rl_len e = 0 then Ok 0 else bind_result (scan_end rest) (\<lambda>i. Ok (Suc i)))"

text \<open>The last index, from \<open>n\<close> down, of an element that is mapped or a hole.\<close>

fun scan_final :: "runlist \<Rightarrow> nat \<Rightarrow> int" where
  "scan_final rl 0 = (if rl_lcn (rl ! 0) < LCN_HOLE then - 1 else 0)"
| "scan_final rl (Suc n) =
     (if rl_lcn (rl ! Suc n) < LCN_HOLE then scan_final rl n else int (Suc n))"

text \<open>The first mapping: complete the source so that it starts at vcn 0.\<close>

definition rl_complete :: "rl_mem \<Rightarrow> runlist \<Rightarrow> runlist result" where
  "rl_complete mem drl =
     bind_result (rd drl 0) (\<lambda>e0.
       if rl_vcn e0 = 0 then Ok drl
       else bind_result (scan_end drl) (\<lambda>i.
         let dend = i + 1 in
         bind_result (ntfs_rl_realloc mem drl dend (dend + 1)) (\<lambda>drl.
         bind_result (ntfs_rl_mm drl 1 0 dend) (\<lambda>drl.
         bind_result (rd drl 1) (\<lambda>e1. wr drl 0 (mk_rle 0 LCN_RL_NOT_MAPPED (rl_vcn e1)))))))"

text \<open>
  The marker code: the source ended with "no such vcn" at \<open>marker_vcn\<close>, so the result must not
  end in front of it with anything else.
\<close>

definition rl_fix_marker :: "rl_mem \<Rightarrow> runlist \<Rightarrow> nat \<Rightarrow> int \<Rightarrow> runlist result" where
  "rl_fix_marker mem drl dend marker_vcn =
     bind_result (scan_end (drop dend drl)) (\<lambda>i.
     let ds = dend + i in
     bind_result (rd drl ds) (\<lambda>t.
     if rl_vcn t > marker_vcn then Ok drl
     else if rl_vcn t = marker_vcn then wr drl ds (t\<lparr>rl_lcn := LCN_ENOENT\<rparr>)
     else
       let (ds, slots) = (if rl_lcn t = LCN_ENOENT then (ds - 1, 1) else (ds, 0::nat)) in
       bind_result (rd drl ds) (\<lambda>e.
       bind_result
         (if rl_lcn e \<noteq> LCN_RL_NOT_MAPPED then
            (let (drl, slots) =
               (if slots = 0 then (ntfs_rl_realloc_nofail mem drl ds (ds + 2), 2) else (drl, slots));
                 ds = ds + 1 in
             bind_result
               (if slots \<noteq> 1 then
                  bind_result (rd drl (ds - 1)) (\<lambda>p.
                    upd_elem drl ds (\<lambda>x. x\<lparr>rl_vcn := rle_end p\<rparr>))
                else Ok drl) (\<lambda>drl.
             bind_result (upd_elem drl ds (\<lambda>x. x\<lparr>rl_lcn := LCN_RL_NOT_MAPPED\<rparr>)) (\<lambda>drl.
               Ok (drl, ds, slots - 1))))
          else Ok (drl, ds, slots)) (\<lambda>(drl, ds, slots).
       bind_result (upd_elem drl ds (\<lambda>x. x\<lparr>rl_len := s64 (marker_vcn - rl_vcn x)\<rparr>)) (\<lambda>drl.
       let ds = ds + 1;
           drl = (if slots = 0 then ntfs_rl_realloc_nofail mem drl ds (ds + 1) else drl)
       in wr drl ds (mk_rle marker_vcn LCN_ENOENT 0))))))"

definition ntfs_runlists_merge ::
  "rl_mem \<Rightarrow> runlist option \<Rightarrow> runlist option \<Rightarrow> runlist option result" where
  "ntfs_runlists_merge mem drlo srlo =
     (case srlo of
        None \<Rightarrow> Ok drlo
      | Some srl \<Rightarrow>
        (case drlo of
           None \<Rightarrow> bind_result (rl_complete mem srl) (\<lambda>rl. Ok (Some rl))
         | Some drl \<Rightarrow>
             bind_result (skip_unmapped srl) (\<lambda>si.
             bind_result (rd srl si) (\<lambda>s.
             if rl_len s = 0 then Bug
             else
             bind_result (find_ins drl (rl_vcn s)) (\<lambda>dins.
             bind_result (rd drl dins) (\<lambda>d.
             if rl_vcn d = rl_vcn s \<and> rl_lcn d \<ge> 0 \<and> rl_lcn s \<ge> 0 then Error ERANGE
             else
             bind_result (scan_end (drop si srl)) (\<lambda>i.
             bind_result (scan_end (drop dins drl)) (\<lambda>j.
             let send = si + i; dend = dins + j in
             bind_result (rd srl send) (\<lambda>st.
             bind_result (rd_prev srl send) (\<lambda>sl.
             let marker = (rl_lcn st = LCN_ENOENT);
                 sfinal = scan_final srl send;
                 ds = dend + 1;
                 ss = nat (sfinal - int si + 1);
                 start = (rl_lcn d < LCN_RL_NOT_MAPPED \<or> rl_vcn d = rl_vcn s);
                 finish = (rl_lcn d \<ge> LCN_RL_NOT_MAPPED \<and> rle_end d \<le> rle_end sl);
                 ss = (if finish \<and> rl_len d = 0 then ss + 1 else ss);
                 finish = (if marker \<and> rle_end d > rl_vcn sl then False else finish) in
             bind_result
               (if start then
                  (if finish then ntfs_rl_replace mem drl ds (drop si srl) ss dins
                   else ntfs_rl_insert mem drl ds (drop si srl) ss dins)
                else
                  (if finish then ntfs_rl_append mem drl ds (drop si srl) ss dins
                   else ntfs_rl_split mem drl ds (drop si srl) ss dins)) (\<lambda>drl.
             if marker then bind_result (rl_fix_marker mem drl dend (rl_vcn st)) (\<lambda>rl. Ok (Some rl))
             else Ok (Some drl))))))))))))"

section \<open>Segments of a runlist\<close>

text \<open>Elements of positive length that follow each other from \<open>v\<close> to \<open>v'\<close>.\<close>

fun rl_seg :: "int \<Rightarrow> runlist \<Rightarrow> int \<Rightarrow> bool" where
  "rl_seg v [] v' \<longleftrightarrow> v = v'"
| "rl_seg v (e # rest) v' \<longleftrightarrow>
     rl_vcn e = v \<and> 0 < rl_len e \<and> LCN_RL_NOT_MAPPED \<le> rl_lcn e \<and>
     rl_lcn e + rl_len e < 9223372036854775808 \<and> rl_seg (v + rl_len e) rest v'"

lemma rl_seg_append:
  "rl_seg v (xs @ ys) v' \<longleftrightarrow> (\<exists>u. rl_seg v xs u \<and> rl_seg u ys v')"
  by (induction xs arbitrary: v) auto

lemma rl_seg_le: "rl_seg v xs v' \<Longrightarrow> v \<le> v'"
  by (induction xs arbitrary: v) fastforce+

lemma rl_seg_lt: "rl_seg v xs v' \<Longrightarrow> xs \<noteq> [] \<Longrightarrow> v < v'"
  using rl_seg_le by (cases xs) fastforce+

lemma rl_chain_ge: "rl_chain v rl \<Longrightarrow> v < 9223372036854775808"
  by (cases rl) auto

lemma rl_chain_seg:
  "rl_seg v xs v' \<Longrightarrow> rl_chain v (xs @ ys) \<longleftrightarrow> rl_chain v' ys"
proof (induction xs arbitrary: v)
  case (Cons e xs)
  then show ?case using rl_chain_ge [of v' ys] rl_seg_le [of "v + rl_len e" xs v'] by auto
qed simp

lemma rl_chain_split:
  assumes "rl_chain v (xs @ ys)" and "\<forall>e\<in>set xs. rl_len e \<noteq> 0"
  shows "\<exists>v'. rl_seg v xs v' \<and> rl_chain v' ys"
  using assms by (induction xs arbitrary: v) auto

lemma rl_map_seg:
  "rl_seg v xs v' \<Longrightarrow> v \<le> x \<Longrightarrow>
   rl_map (xs @ ys) x = (if x < v' then rl_map xs x else rl_map ys x)"
proof (induction xs arbitrary: v)
  case (Cons e xs)
  then show ?case using rl_seg_le [of "v + rl_len e" xs v'] by auto
qed auto

text \<open>Two segments over the same vcns with the same content.\<close>

definition rl_same :: "int \<Rightarrow> int \<Rightarrow> runlist \<Rightarrow> runlist \<Rightarrow> bool" where
  "rl_same v v' xs ys \<longleftrightarrow>
     rl_seg v xs v' \<and> rl_seg v ys v' \<and> (\<forall>x. v \<le> x \<and> x < v' \<longrightarrow> rl_map xs x = rl_map ys x)"

lemma rl_same_refl: "rl_seg v xs v' \<Longrightarrow> rl_same v v' xs xs"
  by (simp add: rl_same_def)

lemma rl_same_append:
  assumes "rl_same v u xs xs'" and "rl_same u v' ys ys'"
  shows "rl_same v v' (xs @ ys) (xs' @ ys')"
proof -
  have s: "rl_seg v xs u" "rl_seg v xs' u" "rl_seg u ys v'" "rl_seg u ys' v'"
    using assms by (simp_all add: rl_same_def)
  moreover have "rl_map (xs @ ys) x = rl_map (xs' @ ys') x" if "v \<le> x" "x < v'" for x
    using that assms rl_map_seg [OF s(1), of x ys] rl_map_seg [OF s(2), of x ys']
    by (auto simp: rl_same_def)
  ultimately show ?thesis unfolding rl_same_def rl_seg_append by blast
qed

lemma rl_same_merge:
  assumes "rl_seg v [p, r] v'" and "ntfs_are_rl_mergeable p r" and "LCN_HOLE \<le> rl_lcn p \<or> LCN_HOLE \<le> rl_lcn r"
    and "0 \<le> v" and "v' < 9223372036854775808"
  shows "rl_same v v' [ntfs_rl_merge p r] [p, r]"
proof -
  have e: "rl_vcn p = v" "rl_vcn r = v + rl_len p" "v' = v + rl_len p + rl_len r"
    "0 < rl_len p" "0 < rl_len r" "rl_lcn p + rl_len p < 9223372036854775808"
    "rl_lcn r + rl_len r < 9223372036854775808" using assms(1) by auto
  have s: "s64 (rl_len p + rl_len r) = rl_len p + rl_len r"
    by (rule s64_id) (use e assms(4,5) in auto)
  consider (runs) "0 \<le> rl_lcn p" "0 \<le> rl_lcn r" "s64 (rl_lcn p + rl_len p) = rl_lcn r"
    | (hole) "rl_lcn p = - 1" "rl_lcn r = - 1"
    using assms(2,3) by (auto simp: ntfs_are_rl_mergeable_def)
  then show ?thesis
  proof cases
    case runs
    then have "rl_lcn r = rl_lcn p + rl_len p" using s64_id [of "rl_lcn p + rl_len p"] e by auto
    with runs e s show ?thesis by (auto simp: rl_same_def ntfs_rl_merge_def)
  next
    case hole
    with e s assms(4,5) show ?thesis by (auto simp: rl_same_def ntfs_rl_merge_def)
  qed
qed

section \<open>Opening a gap\<close>

lemma mm_mc:
  assumes "marker + n \<le> length dst" and "tail + n \<le> length dst"
    and "off + m \<le> length src" and "marker = p + m"
  shows "bind_result (ntfs_rl_mm dst marker tail n) (\<lambda>d. bind_result (ntfs_rl_mc d p src off m) F) =
    F (take p dst @ take m (drop off src) @ take n (drop tail dst) @ drop (marker + n) dst)"
proof -
  have "ntfs_rl_mm dst marker tail n =
      Ok (take marker dst @ take n (drop tail dst) @ drop (marker + n) dst)"
    using assms(1,2) by (auto simp: ntfs_rl_mm_def append_take_drop_id take_add [symmetric])
      (metis append.assoc append_take_drop_id take_add)
  with assms show ?thesis by (auto simp: ntfs_rl_mc_def min_def)
qed

lemma rl_extend_keeps:
  "n \<le> length rl \<Longrightarrow> take n (rl_extend mem rl k) = take n rl"
  "k \<le> length (rl_extend mem rl k)"
  by (auto simp: rl_extend_def)

lemma page_align_mono: "a \<le> b \<Longrightarrow> PAGE_ALIGN a \<le> PAGE_ALIGN b"
  unfolding PAGE_ALIGN_def by (intro mult_le_mono1 div_le_mono) simp

lemma page_align_ge: "a \<le> PAGE_ALIGN a"
  unfolding PAGE_ALIGN_def using div_mult_mod_eq [of "a + 4095" 4096] mod_less_divisor [of 4096 "a + 4095"]
  by linarith

lemma realloc_keeps:
  assumes "dsize \<le> length rl" and "dsize \<le> k"
  shows "ntfs_rl_realloc mem rl dsize k = Error ENOMEM \<and> \<not> alloc_ok mem \<or>
    (\<exists>rl'. ntfs_rl_realloc mem rl dsize k = Ok rl' \<and> take dsize rl' = take dsize rl \<and> k \<le> length rl')"
proof -
  have m: "min (PAGE_ALIGN (dsize * 24)) (PAGE_ALIGN (k * 24)) = PAGE_ALIGN (dsize * 24)"
    using page_align_mono [of "dsize * 24" "k * 24"] assms(2) by simp
  have "dsize \<le> PAGE_ALIGN (dsize * 24) div 24" using page_align_ge [of "dsize * 24"] by linarith
  then have "take dsize (take (PAGE_ALIGN (dsize * 24) div 24) rl) = take dsize rl"
    and "dsize \<le> length (take (PAGE_ALIGN (dsize * 24) div 24) rl)"
    using assms(1) by (simp_all add: min_absorb1)
  then show ?thesis
    using rl_extend_keeps(1) [of dsize _ mem k] rl_extend_keeps(2) [of k mem] assms(1)
    by (simp add: ntfs_rl_realloc_def Let_def m)
qed

text \<open>Array accesses in a concatenation.\<close>

lemma rd_app: "length xs \<le> i \<Longrightarrow> rd (xs @ ys) i = rd ys (i - length xs)"
  by (auto simp: rd_def nth_append)

lemma rd_Cons: "rd (x # xs) 0 = Ok x" "rd (x # xs) (Suc i) = rd xs i"
  by (simp_all add: rd_def)

lemma upd_app:
  "length xs \<le> i \<Longrightarrow> upd_elem (xs @ ys) i f = bind_result (upd_elem ys (i - length xs) f) (\<lambda>z. Ok (xs @ z))"
  by (auto simp: upd_elem_def wr_def list_update_append rd_def nth_append)

lemma upd_Cons:
  "upd_elem (x # xs) 0 f = Ok (f x # xs)"
  "upd_elem (x # xs) (Suc i) f = bind_result (upd_elem xs i f) (\<lambda>z. Ok (x # z))"
  by (auto simp: upd_elem_def wr_def rd_def)

lemma rd_hd: "ys \<noteq> [] \<Longrightarrow> rd (ys @ zs) 0 = Ok (hd ys)"
  by (cases ys) auto

lemma wr_app:
  "length xs \<le> i \<Longrightarrow> wr (xs @ ys) i v = bind_result (wr ys (i - length xs) v) (\<lambda>z. Ok (xs @ z))"
  by (auto simp: wr_def list_update_append)

lemma wr_Cons:
  "wr (x # xs) 0 v = Ok (v # xs)" "wr (x # xs) (Suc i) v = bind_result (wr xs i v) (\<lambda>z. Ok (x # z))"
  by (auto simp: wr_def)

lemma rd_last: "ys \<noteq> [] \<Longrightarrow> rd (ys @ zs) (length ys - Suc 0) = Ok (last ys)"
  by (cases ys rule: rev_cases) auto

lemma rd_last_Cons: "ys \<noteq> [] \<Longrightarrow> n = length ys \<Longrightarrow> rd (x # ys @ zs) n = Ok (last ys)"
  by (cases ys rule: rev_cases) (auto simp: rd_app rd_Cons simp del: rd_in)

lemma rl_vcn_id: "rl_vcn m = x \<Longrightarrow> m\<lparr>rl_vcn := x\<rparr> = m"
  by (cases m) simp

text \<open>A list with its last, or its first, element changed.\<close>

definition map_last :: "('a \<Rightarrow> 'a) \<Rightarrow> 'a list \<Rightarrow> 'a list" where
  "map_last f xs = butlast xs @ [f (last xs)]"

lemma map_last_simps [simp]:
  "xs \<noteq> [] \<Longrightarrow> length (map_last f xs) = length xs" "map_last f xs \<noteq> []" "last (map_last f xs) = f (last xs)"
  by (simp_all add: map_last_def)

lemma upd_last:
  "ys \<noteq> [] \<Longrightarrow> upd_elem (ys @ zs) (length ys - Suc 0) f = Ok (map_last f ys @ zs)"
  by (cases ys rule: rev_cases) (auto simp: upd_app upd_Cons map_last_def)

lemma map_last_vcn:
  "xs \<noteq> [] \<Longrightarrow> rl_vcn (hd (map_last (\<lambda>e. ntfs_rl_merge e q) xs)) = rl_vcn (hd xs)"
  by (cases xs) (auto simp: map_last_def ntfs_rl_merge_def)

lemmas cell_simps = rd_last_Cons upd_last wr_app wr_Cons rd_app rd_Cons upd_app upd_Cons rd_hd rd_last

lemma take_eq_append: "take n xs = ys \<Longrightarrow> \<exists>zs. xs = ys @ zs"
  by (metis append_take_drop_id)

lemma realloc_app:
  assumes "dsize = length xs" and "dsize \<le> k"
  shows "ntfs_rl_realloc mem (xs @ junk) dsize k = Error ENOMEM \<and> \<not> alloc_ok mem \<or>
    (\<exists>junk'. ntfs_rl_realloc mem (xs @ junk) dsize k = Ok (xs @ junk') \<and> k \<le> length xs + length junk')"
proof -
  have "rl' = xs @ drop dsize rl' \<and> length rl' = length xs + length (drop dsize rl')"
    if "take dsize rl' = take dsize (xs @ junk)" "k \<le> length rl'" for rl'
    using that assms by (metis append_eq_conv_conj append_take_drop_id length_append)
  then show ?thesis
    using realloc_keeps [of dsize "xs @ junk" k mem] assms by (metis le_add1 length_append)
qed

lemma rl_split_eq:
  assumes "runs \<noteq> []" and "post \<noteq> []"
    and "rl_vcn (hd runs) - rl_vcn h = n0" "rle_end (last runs) = s1" "rl_vcn (hd post) - s1 = n1"
    and "in_s64 n0" "in_s64 n1" and "loc = length pre" "ssize = length runs"
    and "dsize = length pre + 1 + length post"
  shows "ntfs_rl_split mem (pre @ h # post @ junk) dsize (runs @ srest) ssize loc = Error ENOMEM \<and>
      \<not> alloc_ok mem \<or>
    (\<exists>junk'. ntfs_rl_split mem (pre @ h # post @ junk) dsize (runs @ srest) ssize loc =
      Ok (pre @ h\<lparr>rl_len := n0\<rparr> # runs @ h\<lparr>rl_vcn := s1, rl_len := n1\<rparr> # post @ junk'))"
proof -
  have "ntfs_rl_realloc mem (pre @ h # post @ junk) dsize (dsize + ssize + 1) = Error ENOMEM \<and> \<not> alloc_ok mem \<or>
    (\<exists>j. ntfs_rl_realloc mem (pre @ h # post @ junk) dsize (dsize + ssize + 1) = Ok (pre @ h # post @ j) \<and>
       dsize + ssize + 1 \<le> dsize + length j)"
    using realloc_app [of dsize "pre @ h # post" "dsize + ssize + 1" mem junk] assms(10) by simp
  then show ?thesis
  proof (elim disjE exE conjE)
    fix j assume re: "ntfs_rl_realloc mem (pre @ h # post @ junk) dsize (dsize + ssize + 1) = Ok (pre @ h # post @ j)"
      and len: "dsize + ssize + 1 \<le> dsize + length j"
    then show ?thesis
      using assms by (auto simp: ntfs_rl_split_def mm_mc cell_simps s64_in simp del: rd_in)
  qed (simp add: ntfs_rl_split_def)
qed


lemma rl_fix_end_id:
  assumes "xs \<noteq> []" and "marker = length xs" and "rl_lcn m = LCN_ENOENT \<longrightarrow> rl_vcn m = rle_end (last xs)"
  shows "rl_fix_end (xs @ m # ys) marker = Ok (xs @ m # ys)"
  using assms by (auto simp: rl_fix_end_def rd_prev_def cell_simps rl_vcn_id simp del: rd_in wr_in)

lemma rl_insert_adjust_eq:
  assumes "xs \<noteq> []" and "marker = length xs" and "rl_lcn h = LCN_HOLE \<or> rl_lcn h = LCN_RL_NOT_MAPPED"
    and "post \<noteq> []" and "rle_end (last xs) = s1" and "rl_vcn (hd post) - s1 = n1" and "in_s64 n1"
  shows "rl_insert_adjust (xs @ h # post @ ys) marker loc False =
    Ok (xs @ h\<lparr>rl_vcn := s1, rl_len := n1\<rparr> # post @ ys)"
  using assms by (auto simp: rl_insert_adjust_def rd_prev_def cell_simps s64_in simp del: rd_in wr_in)

lemma rl_append_eq:
  assumes "runs \<noteq> []" and "right \<longleftrightarrow> ntfs_are_rl_mergeable (last runs) q"
    and "rl_vcn (hd runs) - rl_vcn h = n0" and "in_s64 n0" and "loc = length pre" "ssize = length runs"
    and "dsize = length pre + 2 + length post"
    and "runs' = (if right then map_last (\<lambda>e. ntfs_rl_merge e q) runs else runs)"
    and "(if right then post else q # post) = m # post'"
    and "rl_lcn m = LCN_ENOENT \<longrightarrow> rl_vcn m = rle_end (last runs')"
  shows "ntfs_rl_append mem (pre @ h # q # post @ junk) dsize (runs @ srest) ssize loc = Error ENOMEM \<and>
      \<not> alloc_ok mem \<or>
    (\<exists>junk'. ntfs_rl_append mem (pre @ h # q # post @ junk) dsize (runs @ srest) ssize loc =
      Ok (pre @ h\<lparr>rl_len := n0\<rparr> # runs' @ m # post' @ junk'))"
proof -
  let ?k = "dsize + ssize - of_bool right"
  have "0 < ssize" using assms(1,6) by simp
  then have "ntfs_rl_realloc mem (pre @ h # q # post @ junk) dsize ?k = Error ENOMEM \<and> \<not> alloc_ok mem \<or>
    (\<exists>j. ntfs_rl_realloc mem (pre @ h # q # post @ junk) dsize ?k = Ok (pre @ h # q # post @ j) \<and>
       ?k \<le> dsize + length j)"
    using realloc_app [of dsize "pre @ h # q # post" ?k mem junk] assms(7) by auto
  then show ?thesis
  proof (elim disjE exE conjE)
    fix j assume "ntfs_rl_realloc mem (pre @ h # q # post @ junk) dsize ?k = Ok (pre @ h # q # post @ j)"
      and "?k \<le> dsize + length j"
    then show ?thesis
      using assms rl_fix_end_id [of "pre @ h\<lparr>rl_len := n0\<rparr> # runs'" "loc + ssize + 1" m "post' @ _"]
      by (cases right)
        (simp_all add: ntfs_rl_append_def mm_mc cell_simps rd_prev_def s64_in map_last_vcn
          del: rd_in wr_in)
  qed (use assms in \<open>auto simp: ntfs_rl_append_def cell_simps rd_prev_def simp del: rd_in\<close>)
qed

text \<open>The left end of the source, merged into the element in front.\<close>

definition left_pre :: "bool \<Rightarrow> runlist \<Rightarrow> runlist \<Rightarrow> runlist" where
  "left_pre left pre runs = (if left then map_last (\<lambda>p. ntfs_rl_merge p (hd runs)) pre else pre)"

definition left_runs :: "bool \<Rightarrow> runlist \<Rightarrow> runlist" where
  "left_runs left runs = (if left then tl runs else runs)"

lemma rl_insert_eq:
  assumes "runs \<noteq> []" and "post \<noteq> []"
    and "left \<longleftrightarrow> pre \<noteq> [] \<and> ntfs_are_rl_mergeable (last pre) (hd runs)"
    and "if pre = [] then rl_vcn (hd runs) \<le> 0
      else rl_vcn (hd runs) \<le> s64 (rl_vcn (last pre) +
        (if left then s64 (rl_len (last pre) + rl_len (hd runs)) else rl_len (last pre)))"
    and "rl_lcn h = LCN_HOLE \<or> rl_lcn h = LCN_RL_NOT_MAPPED"
    and "rle_end (last (left_pre left pre runs @ left_runs left runs)) = s1"
    and "rl_vcn (hd post) - s1 = n1" and "in_s64 n1" and "loc = length pre" "ssize = length runs"
    and "dsize = length pre + 1 + length post"
  shows "ntfs_rl_insert mem (pre @ h # post @ junk) dsize (runs @ srest) ssize loc = Error ENOMEM \<and>
      \<not> alloc_ok mem \<or>
    (\<exists>junk'. ntfs_rl_insert mem (pre @ h # post @ junk) dsize (runs @ srest) ssize loc =
      Ok (left_pre left pre runs @ left_runs left runs @ h\<lparr>rl_vcn := s1, rl_len := n1\<rparr> # post @ junk'))"
proof -
  let ?k = "dsize + ssize - of_bool left"
  have "0 < ssize" using assms(1,10) by simp
  then have "ntfs_rl_realloc mem (pre @ h # post @ junk) dsize ?k = Error ENOMEM \<and> \<not> alloc_ok mem \<or>
    (\<exists>j. ntfs_rl_realloc mem (pre @ h # post @ junk) dsize ?k = Ok (pre @ h # post @ j) \<and>
       ?k \<le> dsize + length j)"
    using realloc_app [of dsize "pre @ h # post" ?k mem junk] assms(11) by auto
  then show ?thesis
  proof (elim disjE exE conjE)
    fix j assume j: "ntfs_rl_realloc mem (pre @ h # post @ junk) dsize ?k = Ok (pre @ h # post @ j)"
      "?k \<le> dsize + length j"
    have adj: "rl_insert_adjust (left_pre left pre runs @ left_runs left runs @ h # post @ z)
        (loc + ssize - of_bool left) loc False =
        Ok (left_pre left pre runs @ left_runs left runs @ h\<lparr>rl_vcn := s1, rl_len := n1\<rparr> # post @ z)" for z
    proof -
      have "loc + ssize - of_bool left = length (left_pre left pre runs @ left_runs left runs)"
        using assms(1,3,9,10) by (cases runs) (auto simp: left_pre_def left_runs_def)
      then show ?thesis
        using rl_insert_adjust_eq [of "left_pre left pre runs @ left_runs left runs" _ h post s1 n1 z loc] assms
        by (auto simp: left_pre_def left_runs_def)
    qed
    obtain r rs where "runs = r # rs" using assms(1) by (cases runs) auto
    then show ?thesis
      using j assms(2-4,9-11) adj
      by (cases left; cases "pre = []")
        (auto simp: ntfs_rl_insert_def mm_mc cell_simps left_pre_def left_runs_def Let_def
          simp del: rd_in wr_in)
  qed (use assms in \<open>auto simp: ntfs_rl_insert_def cell_simps Let_def simp del: rd_in\<close>)
qed

lemma rl_replace_start:
  assumes "runs \<noteq> []" and "right \<longleftrightarrow> ntfs_are_rl_mergeable (last runs) q"
    and "left \<longleftrightarrow> pre \<noteq> [] \<and> ntfs_are_rl_mergeable (last pre) (hd runs)"
    and "src = (if right then map_last (\<lambda>e. ntfs_rl_merge e q) runs else runs)"
    and "loc = length pre" and "ssize = length runs" and "loc + 1 < dsize"
    and "(if ssize > 1 + of_bool left + of_bool right
        then ntfs_rl_realloc mem (pre @ h # q # post @ junk) dsize (dsize + ssize - 1 - of_bool left - of_bool right)
        else Ok (pre @ h # q # post @ junk)) = r"
    and "r = Ok (pre @ h # q # post @ j) \<or> r = Error ENOMEM"
  shows "ntfs_rl_replace mem (pre @ h # q # post @ junk) dsize (runs @ srest) ssize loc =
    bind_result r (\<lambda>dst. rl_replace_move dst dsize (src @ srest) ssize loc left right)"
proof -
  have R: "(if loc + 1 < dsize
      then bind_result (rd_prev (runs @ srest) ssize) (\<lambda>s.
        bind_result (rd (pre @ h # q # post @ junk) (loc + 1)) (\<lambda>d. Ok (ntfs_are_rl_mergeable s d)))
      else Ok False) = Ok right"
    using assms(1,2,5-7) by (simp add: rd_prev_def cell_simps del: rd_in)
  have L: "(if loc > 0
      then bind_result (rd (pre @ h # q # post @ junk) (loc - 1)) (\<lambda>d.
        bind_result (rd (runs @ srest) 0) (\<lambda>s. Ok (ntfs_are_rl_mergeable d s)))
      else Ok False) = Ok left"
    using assms(1,3,5) by (simp add: cell_simps del: rd_in)
  have S: "(if right then bind_result (rd (pre @ h # q # post @ j) (loc + 1)) (\<lambda>d.
      upd_elem (runs @ srest) (ssize - 1) (\<lambda>s. ntfs_rl_merge s d)) else Ok (runs @ srest)) =
      Ok (src @ srest)"
    using assms(1,4-6) by (simp add: cell_simps del: rd_in)
  from assms(9) show ?thesis
  proof
    assume r: "r = Ok (pre @ h # q # post @ j)"
    show ?thesis
      unfolding ntfs_rl_replace_def R L bind_result.simps assms(8) r S by (rule refl)
  next
    assume r: "r = Error ENOMEM"
    show ?thesis unfolding ntfs_rl_replace_def R L bind_result.simps assms(8) r by (rule refl)
  qed
qed

lemma rl_replace_move_eq:
  assumes "src = s # ss" and "left \<Longrightarrow> pre \<noteq> []" and "(if right then post else q # post) = m # post'"
    and "left_pre left pre src @ left_runs left src = xs"
    and "rl_lcn m = LCN_ENOENT \<longrightarrow> rl_vcn m = rle_end (last xs)"
    and "loc = length pre" and "ssize = length src" and "dsize = length pre + 2 + length post"
    and "dsize + ssize - 1 - of_bool left - of_bool right \<le> dsize + length j"
  shows "\<exists>j'. rl_replace_move (pre @ h # q # post @ j) dsize (src @ srest) ssize loc left right =
    Ok (xs @ m # post' @ j')"
proof -
  let ?tail = "loc + of_bool right + 1" and ?marker = "loc + ssize - of_bool left"
  let ?dst = "left_pre left pre src @ h # q # post @ j"
  have fix_end: "rl_fix_end (xs @ m # z) ?marker = Ok (xs @ m # z)" for z
  proof (rule rl_fix_end_id)
    show "xs \<noteq> []" using assms(1,4) by (cases left) (auto simp: left_pre_def left_runs_def)
    show "?marker = length xs"
      using assms(1,2,4,6,7) by (cases left) (auto simp: left_pre_def left_runs_def)
  qed (rule assms(5))
  have D: "(if left then bind_result (rd (src @ srest) 0) (\<lambda>s.
      upd_elem (pre @ h # q # post @ j) (loc - 1) (\<lambda>d. ntfs_rl_merge d s)) else Ok (pre @ h # q # post @ j)) =
      Ok ?dst"
    using assms(1,2,6) by (simp add: cell_simps left_pre_def del: rd_in)
  have len: "length (left_pre left pre src) = loc" "of_bool left \<le> ssize"
    using assms(1,2,6,7) by (auto simp: left_pre_def)
  have mv: "take loc ?dst @ take (ssize - of_bool left) (drop (of_bool left) (src @ srest)) @
      take (dsize - ?tail) (drop ?tail ?dst) = xs @ m # post'"
    using assms(1,3,4,7,8) len by (cases right; cases left) (auto simp: left_runs_def assms(6))
  have mv': "take loc ?dst @ take (ssize - of_bool left) (drop (of_bool left) (src @ srest)) @
      take (dsize - ?tail) (drop ?tail ?dst) @ z = xs @ m # post' @ z" for z
    using arg_cong [OF mv, of "\<lambda>x. x @ z"] by (simp only: append_assoc append_Cons)
  have "rl_replace_move (pre @ h # q # post @ j) dsize (src @ srest) ssize loc left right =
      (\<lambda>dst. if dsize > ?tail then rl_fix_end dst ?marker else Ok dst)
        (take loc ?dst @ take (ssize - of_bool left) (drop (of_bool left) (src @ srest)) @
          take (dsize - ?tail) (drop ?tail ?dst) @ drop (?marker + (dsize - ?tail)) ?dst)"
    unfolding rl_replace_move_def D bind_result.simps Let_def
    by (rule mm_mc) (use assms(3,6-9) len in \<open>auto split: if_splits\<close>)
  then show ?thesis unfolding mv' by (auto simp: fix_end)
qed

lemma rl_replace_eq:
  assumes "runs \<noteq> []" and "right \<longleftrightarrow> ntfs_are_rl_mergeable (last runs) q"
    and "left \<longleftrightarrow> pre \<noteq> [] \<and> ntfs_are_rl_mergeable (last pre) (hd runs)"
    and "src = (if right then map_last (\<lambda>e. ntfs_rl_merge e q) runs else runs)"
    and "(if right then post else q # post) = m # post'"
    and "left_pre left pre src @ left_runs left src = xs"
    and "rl_lcn m = LCN_ENOENT \<longrightarrow> rl_vcn m = rle_end (last xs)"
    and "loc = length pre" and "ssize = length runs" and "dsize = length pre + 2 + length post"
  shows "ntfs_rl_replace mem (pre @ h # q # post @ junk) dsize (runs @ srest) ssize loc = Error ENOMEM \<and>
      \<not> alloc_ok mem \<or>
    (\<exists>junk'. ntfs_rl_replace mem (pre @ h # q # post @ junk) dsize (runs @ srest) ssize loc =
      Ok (xs @ m # post' @ junk'))"
proof -
  let ?k = "dsize + ssize - 1 - of_bool left - of_bool right"
  let ?re = "if ssize > 1 + of_bool left + of_bool right
    then ntfs_rl_realloc mem (pre @ h # q # post @ junk) dsize ?k else Ok (pre @ h # q # post @ junk)"
  have "src \<noteq> []" using assms(1,4) by simp
  then obtain s ss where src: "src = s # ss" by (cases src) auto
  have lsrc: "ssize = length src" using assms(1,4,9) by auto
  have "loc + 1 < dsize" using assms(8,10) by simp
  note start = rl_replace_start [OF assms(1-4,8,9) this refl]
  have "?re = Error ENOMEM \<and> \<not> alloc_ok mem \<or> (\<exists>j. ?re = Ok (pre @ h # q # post @ j) \<and> ?k \<le> dsize + length j)"
    using realloc_app [of dsize "pre @ h # q # post" ?k mem junk] assms(10) by auto
  then show ?thesis
  proof (elim disjE exE conjE)
    fix j assume j: "?re = Ok (pre @ h # q # post @ j)" and len: "?k \<le> dsize + length j"
    have "\<exists>j'. rl_replace_move (pre @ h # q # post @ j) dsize (src @ srest) ssize loc left right =
        Ok (xs @ m # post' @ j')"
      by (rule rl_replace_move_eq [OF src _ assms(5-8) lsrc assms(10) len]) (use assms(3) in simp)
    with start [where j = j] j show ?thesis by auto
  next
    assume "?re = Error ENOMEM" "\<not> alloc_ok mem"
    with start show ?thesis by simp
  qed
qed

section \<open>Filling a hole\<close>

text \<open>What lies behind the terminator does not matter.\<close>

lemma rl_chain_junk: "rl_len t = 0 \<Longrightarrow> rl_chain v (ps @ t # j) \<longleftrightarrow> rl_chain v (ps @ t # j')"
  by (induction ps arbitrary: v) auto

lemma rl_map_junk: "rl_len t = 0 \<Longrightarrow> rl_map (ps @ t # j) x = rl_map (ps @ t # j') x"
  by (induction ps) auto

text \<open>
  The run \<open>h\<close> of \<open>pre @ h # rest\<close>, which covers \<open>a\<close> to \<open>b\<close>, with the vcns from \<open>s0\<close> to \<open>s1\<close>
  given to \<open>runs\<close>.
\<close>

definition hole_head :: "runlist_element \<Rightarrow> int \<Rightarrow> runlist" where
  "hole_head h s0 = (if rl_vcn h < s0 then [h\<lparr>rl_len := s0 - rl_vcn h\<rparr>] else [])"

definition hole_tail :: "runlist_element \<Rightarrow> int \<Rightarrow> runlist" where
  "hole_tail h s1 = (if s1 < rl_vcn h + rl_len h
     then [h\<lparr>rl_vcn := s1, rl_len := rl_vcn h + rl_len h - s1\<rparr>] else [])"

lemma hole_seg:
  assumes "rl_vcn h \<le> s0" and "s1 \<le> rl_vcn h + rl_len h" and "s0 < s1"
    and "rl_lcn h = LCN_HOLE \<or> rl_lcn h = LCN_RL_NOT_MAPPED" and "rl_vcn h + rl_len h < 9223372036854775808"
    and "0 \<le> rl_vcn h"
  shows "rl_seg (rl_vcn h) (hole_head h s0) s0" and "rl_seg s1 (hole_tail h s1) (rl_vcn h + rl_len h)"
  using assms by (auto simp: hole_head_def hole_tail_def)

lemma filled_eq:
  assumes pre: "rl_seg 0 pre (rl_vcn h)" and runs: "rl_seg s0 runs s1" "runs \<noteq> []"
    and h: "rl_vcn h \<le> s0" "s1 \<le> rl_vcn h + rl_len h" "rl_lcn h = LCN_HOLE \<or> rl_lcn h = LCN_RL_NOT_MAPPED"
    and rest: "rl_chain (rl_vcn h + rl_len h) rest"
  shows "rl_seg 0 (pre @ hole_head h s0 @ runs @ hole_tail h s1) (rl_vcn h + rl_len h)"
    and "0 \<le> x \<Longrightarrow> rl_map (pre @ hole_head h s0 @ runs @ hole_tail h s1 @ rest) x =
      (if s0 \<le> x \<and> x < s1 then rl_map runs x else rl_map (pre @ h # rest) x)"
proof -
  have s: "s0 < s1" "0 \<le> rl_vcn h" using rl_seg_lt [OF runs] rl_seg_le [OF pre] by auto
  have b: "rl_vcn h + rl_len h < 9223372036854775808" using rl_chain_ge [OF rest] .
  note hs = hole_seg [OF h(1,2) s(1) h(3) b s(2)]
  show "rl_seg 0 (pre @ hole_head h s0 @ runs @ hole_tail h s1) (rl_vcn h + rl_len h)"
    unfolding rl_seg_append using pre hs runs(1) by blast
  assume x: "0 \<le> x"
  have len: "rl_len h \<noteq> 0" using s h by auto
  have neg: "\<not> 0 \<le> rl_lcn h" using h(3) by auto
  consider "x < rl_vcn h" | "rl_vcn h \<le> x" "x < s0" | "s0 \<le> x" "x < s1"
    | "s1 \<le> x" "x < rl_vcn h + rl_len h" | "rl_vcn h + rl_len h \<le> x" by linarith
  then show "rl_map (pre @ hole_head h s0 @ runs @ hole_tail h s1 @ rest) x =
      (if s0 \<le> x \<and> x < s1 then rl_map runs x else rl_map (pre @ h # rest) x)"
  proof cases
    case 1
    with s h(1) x show ?thesis by (simp add: rl_map_seg [OF pre])
  next
    case 2
    with s h len neg x show ?thesis
      by (auto simp: rl_map_seg [OF pre] rl_map_seg [OF hs(1)]) (auto simp: hole_head_def)
  next
    case 3
    with s h len x show ?thesis by (simp add: rl_map_seg [OF pre] rl_map_seg [OF hs(1)] rl_map_seg [OF runs(1)])
  next
    case 4
    with s h len neg x show ?thesis
      by (auto simp: rl_map_seg [OF pre] rl_map_seg [OF hs(1)] rl_map_seg [OF runs(1)] rl_map_seg [OF hs(2)])
        (auto simp: hole_tail_def)
  next
    case 5
    with s h len x show ?thesis
      by (simp add: rl_map_seg [OF pre] rl_map_seg [OF hs(1)] rl_map_seg [OF runs(1)] rl_map_seg [OF hs(2)])
  qed
qed

text \<open>Merging the ends does not change the content.\<close>

lemma mergeable_merged: "ntfs_are_rl_mergeable p (ntfs_rl_merge r q) = ntfs_are_rl_mergeable p r"
  by (simp add: ntfs_are_rl_mergeable_def ntfs_rl_merge_def)

lemma rl_same_left:
  assumes "rl_seg v pre u" and "rl_seg u src w" and "src \<noteq> []" and "LCN_HOLE \<le> rl_lcn (hd src)"
    and "left \<Longrightarrow> pre \<noteq> [] \<and> ntfs_are_rl_mergeable (last pre) (hd src)" and "0 \<le> v"
    and "w < 9223372036854775808"
  shows "rl_same v w (left_pre left pre src @ left_runs left src) (pre @ src)"
proof (cases left)
  case False
  with assms(1,2) show ?thesis
    by (auto simp: left_pre_def left_runs_def rl_seg_append intro!: rl_same_refl)
next
  case True
  obtain ps p where pre: "pre = ps @ [p]" using assms(5) True by (cases pre rule: rev_cases) auto
  obtain r rs where src: "src = r # rs" using assms(3) by (cases src) auto
  obtain u' u'' where s: "rl_seg v ps u'" "rl_seg u' [p] u" "rl_seg u [r] u''" "rl_seg u'' rs w"
    using assms(1,2) unfolding pre src rl_seg_append by auto
  have "rl_seg u' [p, r] u''" using s by auto
  then have "rl_same u' u'' [ntfs_rl_merge p r] [p, r]"
    using rl_same_merge assms(4-7) True rl_seg_le [OF s(1)] rl_seg_le [OF s(4)]
    by (auto simp: pre src)
  then have "rl_same v w (ps @ [ntfs_rl_merge p r] @ rs) (ps @ [p, r] @ rs)"
    using rl_same_refl s by (blast intro: rl_same_append)
  with True show ?thesis by (simp add: left_pre_def left_runs_def map_last_def pre src)
qed

lemma rl_same_right:
  assumes "rl_seg v runs u" and "rl_seg u [q] w" and "runs \<noteq> []" and "LCN_HOLE \<le> rl_lcn (last runs)"
    and "ntfs_are_rl_mergeable (last runs) q" and "0 \<le> v" and "w < 9223372036854775808"
  shows "rl_same v w (map_last (\<lambda>e. ntfs_rl_merge e q) runs) (runs @ [q])"
proof -
  obtain rs r where runs: "runs = rs @ [r]" using assms(3) by (cases runs rule: rev_cases) auto
  obtain u' where s: "rl_seg v rs u'" "rl_seg u' [r] u" using assms(1) unfolding runs rl_seg_append by auto
  have "rl_same u' w [ntfs_rl_merge r q] [r, q]"
    using rl_same_merge [of u' r q w] s assms(2,4-7) rl_seg_le [OF s(1)] by (auto simp: runs)
  then have "rl_same v w (rs @ [ntfs_rl_merge r q]) (rs @ [r, q])"
    using rl_same_refl [OF s(1)] by (rule rl_same_append [rotated])
  then show ?thesis by (simp add: map_last_def runs)
qed

text \<open>\<open>res\<close> is the destination with \<open>runs\<close> in the hole \<open>h\<close>.\<close>

definition filled :: "runlist \<Rightarrow> runlist_element \<Rightarrow> runlist \<Rightarrow> int \<Rightarrow> runlist \<Rightarrow> int \<Rightarrow> runlist \<Rightarrow> bool" where
  "filled pre h post s0 runs s1 res \<longleftrightarrow>
     (\<exists>c xs q post' j. post = q @ post' \<and> post' \<noteq> [] \<and> res = xs @ post' @ j \<and>
       rl_same 0 c xs (pre @ hole_head h s0 @ runs @ hole_tail h s1 @ q))"

lemma filledI:
  "rl_same 0 c xs (pre @ hole_head h s0 @ runs @ hole_tail h s1 @ q) \<Longrightarrow> post = q @ post' \<Longrightarrow> post' \<noteq> [] \<Longrightarrow>
   filled pre h post s0 runs s1 (xs @ post' @ j)"
  unfolding filled_def by blast

lemma filled_correct:
  assumes f: "filled pre h post s0 runs s1 res" and pre: "rl_seg 0 pre (rl_vcn h)"
    and runs: "rl_seg s0 runs s1" "runs \<noteq> []" and h: "rl_vcn h \<le> s0" "s1 \<le> rl_vcn h + rl_len h"
    "rl_lcn h = LCN_HOLE \<or> rl_lcn h = LCN_RL_NOT_MAPPED"
    and post: "rl_chain (rl_vcn h + rl_len h) (post @ junk)" "post = ps @ [t]" "rl_len t = 0"
  shows "rl_wf res" and "0 \<le> x \<Longrightarrow> rl_map res x =
    (if s0 \<le> x \<and> x < s1 then rl_map runs x else rl_map (pre @ h # post @ junk) x)"
proof -
  let ?ref = "pre @ hole_head h s0 @ runs @ hole_tail h s1"
  obtain c xs q post' j where q: "post = q @ post'" "post' \<noteq> []" "res = xs @ post' @ j"
    and same: "rl_same 0 c xs (?ref @ q)" using f unfolding filled_def by auto
  obtain ps' where post': "post' = ps' @ [t]" using q(1,2) post(2)
    by (cases post' rule: rev_cases) auto
  have seg: "rl_seg 0 xs c" "rl_seg 0 (?ref @ q) c" using same by (simp_all add: rl_same_def)
  have "rl_chain 0 (?ref @ post @ junk)"
    using rl_chain_seg [OF filled_eq(1) [OF pre runs h post(1)]] post(1) by simp
  then have "rl_chain 0 ((?ref @ q) @ post' @ junk)" by (simp add: q)
  then have "rl_chain c (post' @ junk)" using rl_chain_seg [OF seg(2)] by blast
  then have "rl_chain c (post' @ j)"
    using rl_chain_junk [OF post(3), of c ps' junk j] by (simp add: post')
  then show "rl_wf res" using rl_chain_seg [OF seg(1)] by (simp add: rl_wf_def q(3))
  assume x: "0 \<le> x"
  have "rl_map res x = rl_map ((?ref @ q) @ post' @ j) x"
    unfolding q(3) rl_map_seg [OF seg(1) x] rl_map_seg [OF seg(2) x] using same x
    by (auto simp: rl_same_def)
  also have "\<dots> = rl_map (?ref @ post @ junk) x"
    using rl_map_junk [OF post(3), of "?ref @ q @ ps'" j x junk] by (simp add: q(1) post')
  also have "\<dots> = (if s0 \<le> x \<and> x < s1 then rl_map runs x else rl_map (pre @ h # post @ junk) x)"
    using filled_eq(2) [OF pre runs h post(1) x] by simp
  finally show "rl_map res x = (if s0 \<le> x \<and> x < s1 then rl_map runs x else rl_map (pre @ h # post @ junk) x)" .
qed

text \<open>A successful outcome is the filled hole; the only failure is a lack of memory.\<close>

definition fills :: "rl_mem \<Rightarrow> runlist \<Rightarrow> runlist_element \<Rightarrow> runlist \<Rightarrow> int \<Rightarrow> runlist \<Rightarrow> int \<Rightarrow> runlist result \<Rightarrow> bool" where
  "fills mem pre h post s0 runs s1 r \<longleftrightarrow>
     r = Error ENOMEM \<and> \<not> alloc_ok mem \<or> (\<exists>res. r = Ok res \<and> filled pre h post s0 runs s1 res)"

lemma rl_seg_hd: "rl_seg v xs v' \<Longrightarrow> xs \<noteq> [] \<Longrightarrow> rl_vcn (hd xs) = v"
  by (cases xs) auto

lemma rl_seg_last: "rl_seg v xs v' \<Longrightarrow> xs \<noteq> [] \<Longrightarrow> rl_vcn (last xs) + rl_len (last xs) = v'"
  by (induction xs arbitrary: v) (auto split: if_splits)

lemma rle_end_seg: "rl_seg v xs v' \<Longrightarrow> xs \<noteq> [] \<Longrightarrow> 0 \<le> v \<Longrightarrow> v' < 9223372036854775808 \<Longrightarrow> rle_end (last xs) = v'"
  using rl_seg_last [of v xs v'] rl_seg_le [of v xs v'] by (simp add: rle_end_def s64_id)

lemma split_fills:
  assumes pre: "rl_seg 0 pre (rl_vcn h)" and runs: "rl_seg s0 runs s1" "runs \<noteq> []"
    and h: "rl_vcn h < s0" "s1 < rl_vcn h + rl_len h" "rl_lcn h = LCN_HOLE \<or> rl_lcn h = LCN_RL_NOT_MAPPED"
    and post: "rl_chain (rl_vcn h + rl_len h) (post @ junk)" "post \<noteq> []"
    and "loc = length pre" "ssize = length runs" "dsize = length pre + 1 + length post"
  shows "fills mem pre h post s0 runs s1
    (ntfs_rl_split mem (pre @ h # post @ junk) dsize (runs @ srest) ssize loc)"
proof -
  have s: "s0 < s1" "0 \<le> rl_vcn h" using rl_seg_lt [OF runs] rl_seg_le [OF pre] by auto
  have b: "rl_vcn h + rl_len h < 9223372036854775808" using rl_chain_ge [OF post(1)] .
  have e: "rle_end (last runs) = s1" by (rule rle_end_seg [OF runs]) (use s h b in auto)
  have p: "rl_vcn (hd post) = rl_vcn h + rl_len h" using rl_chain_hd [OF post(1)] post(2) by simp
  have "rl_seg 0 (pre @ hole_head h s0 @ runs @ hole_tail h s1) (rl_vcn h + rl_len h)"
    using filled_eq(1) [OF pre runs _ _ h(3) post(1)] h by simp
  then have "rl_same 0 (rl_vcn h + rl_len h) (pre @ h\<lparr>rl_len := s0 - rl_vcn h\<rparr> # runs @
      [h\<lparr>rl_vcn := s1, rl_len := rl_vcn h + rl_len h - s1\<rparr>]) (pre @ hole_head h s0 @ runs @ hole_tail h s1 @ [])"
    using h by (auto simp: hole_head_def hole_tail_def intro: rl_same_refl)
  from filledI [OF this _ post(2)]
  have f: "filled pre h post s0 runs s1 (pre @ h\<lparr>rl_len := s0 - rl_vcn h\<rparr> # runs @
      h\<lparr>rl_vcn := s1, rl_len := rl_vcn h + rl_len h - s1\<rparr> # post @ j)" for j by simp
  have "ntfs_rl_split mem (pre @ h # post @ junk) dsize (runs @ srest) ssize loc = Error ENOMEM \<and> \<not> alloc_ok mem \<or>
    (\<exists>junk'. ntfs_rl_split mem (pre @ h # post @ junk) dsize (runs @ srest) ssize loc =
      Ok (pre @ h\<lparr>rl_len := s0 - rl_vcn h\<rparr> # runs @ h\<lparr>rl_vcn := s1, rl_len := rl_vcn h + rl_len h - s1\<rparr> # post @ junk'))"
    by (rule rl_split_eq [OF runs(2) post(2) _ e _ _ _ assms(9-11)])
      (use p rl_seg_hd [OF runs] s h b in \<open>auto simp: in_s64_def\<close>)
  then show ?thesis using f by (auto simp: fills_def)
qed

lemma insert_fills:
  assumes pre: "rl_seg 0 pre (rl_vcn h)" and runs: "rl_seg s0 runs s1" "runs \<noteq> []"
    and mapped: "LCN_HOLE \<le> rl_lcn (hd runs)"
    and h: "rl_vcn h = s0" "s1 < rl_vcn h + rl_len h" "rl_lcn h = LCN_HOLE \<or> rl_lcn h = LCN_RL_NOT_MAPPED"
    and post: "rl_chain (rl_vcn h + rl_len h) (post @ junk)" "post \<noteq> []"
    and "loc = length pre" "ssize = length runs" "dsize = length pre + 1 + length post"
  shows "fills mem pre h post s0 runs s1
    (ntfs_rl_insert mem (pre @ h # post @ junk) dsize (runs @ srest) ssize loc)"
proof -
  have s: "s0 < s1" "0 \<le> rl_vcn h" using rl_seg_lt [OF runs] rl_seg_le [OF pre] by auto
  have b: "rl_vcn h + rl_len h < 9223372036854775808" using rl_chain_ge [OF post(1)] .
  have p: "rl_vcn (hd post) = rl_vcn h + rl_len h" using rl_chain_hd [OF post(1)] post(2) by simp
  define left where "left \<longleftrightarrow> pre \<noteq> [] \<and> ntfs_are_rl_mergeable (last pre) (hd runs)"
  let ?xs = "left_pre left pre runs @ left_runs left runs"
  have pre': "rl_seg 0 pre s0" using pre h(1) by simp
  have same: "rl_same 0 s1 ?xs (pre @ runs)"
    by (rule rl_same_left [OF pre' runs mapped]) (use left_def h b in auto)
  have ne: "?xs \<noteq> []" using runs(2) by (cases runs) (auto simp: left_pre_def left_runs_def)
  have e: "rle_end (last ?xs) = s1"
    by (rule rle_end_seg [OF _ ne order_refl]) (use same h b in \<open>auto simp: rl_same_def\<close>)
  have "rl_same s1 (rl_vcn h + rl_len h) (hole_tail h s1) (hole_tail h s1)"
    using hole_seg(2) [of h s0 s1] h s b by (auto intro: rl_same_refl)
  from rl_same_append [OF same this]
  have "filled pre h post s0 runs s1 ((?xs @ hole_tail h s1) @ post @ j)" for j
    using h(1) post(2) by (intro filledI [where q = "[]"]) (simp_all add: hole_head_def)
  then have f: "filled pre h post s0 runs s1 (left_pre left pre runs @ left_runs left runs @
      h\<lparr>rl_vcn := s1, rl_len := rl_vcn h + rl_len h - s1\<rparr> # post @ j)" for j
    using h(2) by (simp add: hole_tail_def)
  have disc: "if pre = [] then rl_vcn (hd runs) \<le> 0
      else rl_vcn (hd runs) \<le> s64 (rl_vcn (last pre) +
        (if left then s64 (rl_len (last pre) + rl_len (hd runs)) else rl_len (last pre)))"
  proof (cases "pre = []")
    case True
    then show ?thesis using pre h(1) rl_seg_hd [OF runs] by simp
  next
    case False
    obtain r rs where r: "runs = r # rs" using runs(2) by (cases runs) auto
    have l: "rl_vcn (last pre) + rl_len (last pre) = s0" "0 < rl_len (last pre)"
      "0 \<le> rl_vcn (last pre)"
      using rl_seg_last [OF pre' False] False pre' rl_seg_append [of 0 "butlast pre" "[last pre]" s0]
      by (auto dest: rl_seg_le)
    have "0 < rl_len r" "s0 + rl_len r \<le> s1" using runs(1) rl_seg_le [of "s0 + rl_len r" rs s1] by (auto simp: r)
    then have "s64 (rl_len (last pre) + rl_len r) = rl_len (last pre) + rl_len r"
      "s64 (rl_vcn (last pre) + (rl_len (last pre) + rl_len r)) = s0 + rl_len r"
      "s64 (rl_vcn (last pre) + rl_len (last pre)) = s0"
      using l h(1,2) b s by (simp_all add: s64_id)
    with False rl_seg_hd [OF runs] \<open>0 < rl_len r\<close> show ?thesis by (simp add: r)
  qed
  have "ntfs_rl_insert mem (pre @ h # post @ junk) dsize (runs @ srest) ssize loc = Error ENOMEM \<and> \<not> alloc_ok mem \<or>
    (\<exists>junk'. ntfs_rl_insert mem (pre @ h # post @ junk) dsize (runs @ srest) ssize loc =
      Ok (left_pre left pre runs @ left_runs left runs @
        h\<lparr>rl_vcn := s1, rl_len := rl_vcn h + rl_len h - s1\<rparr> # post @ junk'))"
    by (rule rl_insert_eq [OF runs(2) post(2) left_def disc h(3) e _ _ assms(10-12)])
      (use p s h b in \<open>auto simp: in_s64_def\<close>)
  then show ?thesis using f by (auto simp: fills_def)
qed

text \<open>The right end of the source, possibly merged with the run behind the hole.\<close>

lemma right_end:
  assumes runs: "rl_seg s0 runs s1" "runs \<noteq> []" and mapped: "LCN_HOLE \<le> rl_lcn (last runs)" and "0 \<le> s0"
    and post: "rl_chain s1 (q # post @ junk)" "q # post = ps @ [t]" "rl_len t = 0"
    and right: "right \<longleftrightarrow> ntfs_are_rl_mergeable (last runs) q"
    and src: "src = (if right then map_last (\<lambda>e. ntfs_rl_merge e q) runs else runs)"
  obtains m post' qs c where "(if right then post else q # post) = m # post'"
    and "q # post = qs @ m # post'" and "rl_same s0 c src (runs @ qs)" and "rl_vcn m = c"
    and "c < 9223372036854775808"
proof (cases right)
  case False
  then show thesis
    using that [of q post "[]" s1] rl_same_refl [OF runs(1)] src post(1) by auto
next
  case True
  have "LCN_HOLE \<le> rl_lcn q"
    using True mapped unfolding right by (auto simp: ntfs_are_rl_mergeable_def)
  then have q: "rl_len q \<noteq> 0" using post(1) by auto
  then obtain m post' where m: "post = m # post'" using post(2,3) by (cases post) (auto simp: Cons_eq_append_conv)
  have c: "rl_chain (s1 + rl_len q) (m # post' @ junk)" and seg: "rl_seg s1 [q] (s1 + rl_len q)"
    using post(1) q by (auto simp: m)
  note lt = rl_chain_ge [OF c]
  have "rl_same s0 (s1 + rl_len q) src (runs @ [q])"
    using rl_same_right [OF runs(1) seg runs(2) mapped _ assms(4) lt] True right src by simp
  with True m c lt show thesis using that [of m post' "[q]" "s1 + rl_len q"] by simp
qed

lemma rl_same_trans: "rl_same v w xs ys \<Longrightarrow> rl_same v w ys zs \<Longrightarrow> rl_same v w xs zs"
  unfolding rl_same_def by metis

lemma append_fills:
  assumes pre: "rl_seg 0 pre (rl_vcn h)" and runs: "rl_seg s0 runs s1" "runs \<noteq> []"
    and mapped: "LCN_HOLE \<le> rl_lcn (last runs)"
    and h: "rl_vcn h < s0" "s1 = rl_vcn h + rl_len h" "rl_lcn h = LCN_HOLE \<or> rl_lcn h = LCN_RL_NOT_MAPPED"
    and post: "rl_chain (rl_vcn h + rl_len h) (q # post @ junk)" "q # post = ps @ [t]" "rl_len t = 0"
    and "loc = length pre" "ssize = length runs" "dsize = length pre + 2 + length post"
  shows "fills mem pre h (q # post) s0 runs s1
    (ntfs_rl_append mem (pre @ h # q # post @ junk) dsize (runs @ srest) ssize loc)"
proof -
  have s: "s0 < s1" "0 \<le> rl_vcn h" using rl_seg_lt [OF runs] rl_seg_le [OF pre] by auto
  have b: "rl_vcn h + rl_len h < 9223372036854775808" using rl_chain_ge [OF post(1)] .
  define right where "right \<longleftrightarrow> ntfs_are_rl_mergeable (last runs) q"
  define src where "src = (if right then map_last (\<lambda>e. ntfs_rl_merge e q) runs else runs)"
  have s0: "0 \<le> s0" using s h by simp
  obtain m post' qs c where m: "(if right then post else q # post) = m # post'" "q # post = qs @ m # post'"
    and same: "rl_same s0 c src (runs @ qs)" and c: "rl_vcn m = c" "c < 9223372036854775808"
    using right_end [OF runs mapped s0 post(1) [folded h(2)] post(2,3) right_def src_def] by metis
  have ne: "src \<noteq> []" using runs(2) by (simp add: src_def)
  have e: "rle_end (last src) = c"
    by (rule rle_end_seg [OF _ ne s0 c(2)]) (use same in \<open>simp add: rl_same_def\<close>)
  have "rl_same 0 s0 (pre @ hole_head h s0) (pre @ hole_head h s0)"
    using pre hole_seg(1) [of h s0 s1] h s b by (auto simp: rl_seg_append intro!: rl_same_refl)
  from rl_same_append [OF this same]
  have "filled pre h (q # post) s0 runs s1 (((pre @ hole_head h s0) @ src) @ (m # post') @ j)" for j
    using h(2) m(2) by (intro filledI [where q = qs]) (simp_all add: hole_tail_def)
  then have f: "filled pre h (q # post) s0 runs s1 (pre @ h\<lparr>rl_len := s0 - rl_vcn h\<rparr> # src @ m # post' @ j)" for j
    using h(1) by (simp add: hole_head_def)
  have "ntfs_rl_append mem (pre @ h # q # post @ junk) dsize (runs @ srest) ssize loc = Error ENOMEM \<and>
      \<not> alloc_ok mem \<or>
    (\<exists>junk'. ntfs_rl_append mem (pre @ h # q # post @ junk) dsize (runs @ srest) ssize loc =
      Ok (pre @ h\<lparr>rl_len := s0 - rl_vcn h\<rparr> # src @ m # post' @ junk'))"
    by (rule rl_append_eq [OF runs(2) right_def _ _ assms(11-13) src_def m(1)])
      (use rl_seg_hd [OF runs] s h b c e in \<open>auto simp: in_s64_def\<close>)
  then show ?thesis using f by (auto simp: fills_def)
qed

lemma replace_fills:
  assumes pre: "rl_seg 0 pre (rl_vcn h)" and runs: "rl_seg s0 runs s1" "runs \<noteq> []"
    and mapped: "LCN_HOLE \<le> rl_lcn (hd runs)" "LCN_HOLE \<le> rl_lcn (last runs)"
    and h: "rl_vcn h = s0" "s1 = rl_vcn h + rl_len h"
    and post: "rl_chain (rl_vcn h + rl_len h) (q # post @ junk)" "q # post = ps @ [t]" "rl_len t = 0"
    and "loc = length pre" "ssize = length runs" "dsize = length pre + 2 + length post"
  shows "fills mem pre h (q # post) s0 runs s1
    (ntfs_rl_replace mem (pre @ h # q # post @ junk) dsize (runs @ srest) ssize loc)"
proof -
  have s: "s0 < s1" "0 \<le> s0" using rl_seg_lt [OF runs] rl_seg_le [OF pre] h by auto
  define right where "right \<longleftrightarrow> ntfs_are_rl_mergeable (last runs) q"
  define left where "left \<longleftrightarrow> pre \<noteq> [] \<and> ntfs_are_rl_mergeable (last pre) (hd runs)"
  define src where "src = (if right then map_last (\<lambda>e. ntfs_rl_merge e q) runs else runs)"
  let ?xs = "left_pre left pre src @ left_runs left src"
  obtain m post' qs c where m: "(if right then post else q # post) = m # post'" "q # post = qs @ m # post'"
    and same: "rl_same s0 c src (runs @ qs)" and c: "rl_vcn m = c" "c < 9223372036854775808"
    using right_end [OF runs mapped(2) s(2) post(1) [folded h(2)] post(2,3) right_def src_def] by metis
  have ne: "src \<noteq> []" using runs(2) by (simp add: src_def)
  obtain r rs where r: "runs = r # rs" using runs(2) by (cases runs) auto
  have lcn: "rl_lcn (hd src) = rl_lcn (hd runs)"
    by (cases rs) (simp_all add: r src_def map_last_def ntfs_rl_merge_def)
  have mrg: "ntfs_are_rl_mergeable p (hd src) = ntfs_are_rl_mergeable p (hd runs)" for p
    by (cases rs) (simp_all add: r src_def map_last_def mergeable_merged)
  have pre': "rl_seg 0 pre s0" using pre h(1) by simp
  have seg: "rl_seg s0 src c" using same by (simp add: rl_same_def)
  have "rl_same 0 c ?xs (pre @ src)"
    by (rule rl_same_left [OF pre' seg ne]) (use left_def c(2) lcn mrg mapped in auto)
  moreover have "rl_same 0 c (pre @ src) (pre @ runs @ qs)"
    using rl_same_append [OF rl_same_refl [OF pre'] same] by simp
  ultimately have same': "rl_same 0 c ?xs (pre @ runs @ qs)" by (rule rl_same_trans)
  have ne': "?xs \<noteq> []" using ne by (cases src) (auto simp: left_pre_def left_runs_def)
  have e: "rle_end (last ?xs) = c"
    by (rule rle_end_seg [OF _ ne' order_refl c(2)]) (use same' in \<open>simp add: rl_same_def\<close>)
  have f: "filled pre h (q # post) s0 runs s1 (?xs @ (m # post') @ j)" for j
    using h m(2) same' by (intro filledI [where q = qs]) (simp_all add: hole_tail_def hole_head_def)
  have "ntfs_rl_replace mem (pre @ h # q # post @ junk) dsize (runs @ srest) ssize loc = Error ENOMEM \<and>
      \<not> alloc_ok mem \<or>
    (\<exists>junk'. ntfs_rl_replace mem (pre @ h # q # post @ junk) dsize (runs @ srest) ssize loc =
      Ok (?xs @ m # post' @ junk'))"
    by (rule rl_replace_eq [OF runs(2) right_def left_def src_def m(1) refl _ assms(11-13)])
      (use c e in simp)
  then show ?thesis using f by (auto simp: fills_def)
qed

section \<open>The choice of the merge\<close>

text \<open>
  \<open>srl\<close> maps the vcns from \<open>s0\<close> to \<open>s1\<close> and nothing else, as the runlist of one attribute extent
  or of newly allocated clusters does.
\<close>

definition rl_extent :: "runlist \<Rightarrow> int \<Rightarrow> int \<Rightarrow> bool" where
  "rl_extent srl s0 s1 \<longleftrightarrow>
     (\<exists>us runs t junk. srl = us @ runs @ t # junk \<and> runs \<noteq> [] \<and>
       (\<forall>e\<in>set us. rl_len e \<noteq> 0 \<and> rl_lcn e = LCN_RL_NOT_MAPPED) \<and>
       rl_seg s0 runs s1 \<and> (\<forall>e\<in>set runs. LCN_HOLE \<le> rl_lcn e) \<and>
       rl_seg 0 us s0 \<and> rl_len t = 0 \<and> rl_lcn t = LCN_RL_NOT_MAPPED)"

text \<open>Element \<open>i\<close> of the runlist is a hole or not mapped and covers \<open>s0\<close> to \<open>s1\<close>.\<close>

definition rl_gap :: "runlist \<Rightarrow> nat \<Rightarrow> int \<Rightarrow> int \<Rightarrow> bool" where
  "rl_gap drl i s0 s1 \<longleftrightarrow>
     i < length drl \<and> (\<forall>k\<le>i. rl_len (drl ! k) \<noteq> 0) \<and>
     (rl_lcn (drl ! i) = LCN_HOLE \<or> rl_lcn (drl ! i) = LCN_RL_NOT_MAPPED) \<and>
     rl_vcn (drl ! i) \<le> s0 \<and> s1 \<le> rl_vcn (drl ! i) + rl_len (drl ! i)"

lemma skip_unmapped_eq:
  "\<forall>e\<in>set us. rl_len e \<noteq> 0 \<and> rl_lcn e = LCN_RL_NOT_MAPPED \<Longrightarrow> LCN_HOLE \<le> rl_lcn e \<Longrightarrow>
   skip_unmapped (us @ e # rest) = Ok (length us)"
  by (induction us) auto

lemma scan_end_eq:
  "\<forall>e\<in>set xs. rl_len e \<noteq> 0 \<Longrightarrow> rl_len t = 0 \<Longrightarrow> scan_end (xs @ t # rest) = Ok (length xs)"
  by (induction xs) auto

lemma scan_final_eq:
  assumes "LCN_HOLE \<le> rl_lcn e" and "rl_lcn t < LCN_HOLE"
  shows "scan_final (xs @ e # t # rest) (Suc (length xs)) = int (length xs)"
  using assms by (cases "length xs") (auto simp: nth_append)

lemma find_ins_eq:
  assumes "rl_seg v pre (rl_vcn h)" and "rl_vcn h \<le> s0" and "s0 < rl_vcn h + rl_len h" and "0 \<le> v"
    and "rl_vcn h + rl_len h < 9223372036854775808"
  shows "find_ins (pre @ h # rest) s0 = Ok (length pre)"
  using assms
proof (induction pre arbitrary: v)
  case Nil
  then show ?case by (simp add: rle_end_def s64_id)
next
  case (Cons e pre)
  have "v + rl_len e \<le> rl_vcn h" using Cons.prems(1) rl_seg_le [of "v + rl_len e" pre "rl_vcn h"] by simp
  moreover have "find_ins (pre @ h # rest) s0 = Ok (length pre)"
    using Cons.IH [of "v + rl_len e"] Cons.prems by simp
  ultimately show ?case using Cons.prems by (simp add: rle_end_def s64_id)
qed

lemma rl_seg_len: "rl_seg v xs v' \<Longrightarrow> \<forall>e\<in>set xs. rl_len e \<noteq> 0"
  by (induction xs arbitrary: v) auto

lemma rl_chain_terminated:
  "rl_chain v rl \<Longrightarrow> \<exists>ps t junk. rl = ps @ t # junk \<and> rl_len t = 0 \<and> (\<forall>e\<in>set ps. rl_len e \<noteq> 0)"
proof (induction rl arbitrary: v)
  case (Cons e rl)
  show ?case
  proof (cases "rl_len e = 0")
    case True
    then show ?thesis by (intro exI [of _ "[]"]) auto
  next
    case False
    with Cons.prems have "rl_chain (v + rl_len e) rl" by simp
    from Cons.IH [OF this] obtain ps t junk where "rl = ps @ t # junk" "rl_len t = 0"
      "\<forall>e\<in>set ps. rl_len e \<noteq> 0" by blast
    with False show ?thesis by (intro exI [of _ "e # ps"]) auto
  qed
qed simp

lemma merge_choice:
  assumes "rl_seg 0 pre (rl_vcn h)" and "rl_seg s0 runs s1" "runs \<noteq> []" "\<forall>e\<in>set runs. LCN_HOLE \<le> rl_lcn e"
    and "\<forall>e\<in>set us. rl_len e \<noteq> 0 \<and> rl_lcn e = LCN_RL_NOT_MAPPED"
    and "rl_vcn h \<le> s0" "s1 \<le> rl_vcn h + rl_len h" "rl_lcn h = LCN_HOLE \<or> rl_lcn h = LCN_RL_NOT_MAPPED"
    and "rl_vcn h + rl_len h < 9223372036854775808"
    and "rl_len t = 0" "rl_lcn t = LCN_RL_NOT_MAPPED"
    and "\<forall>e\<in>set ps. rl_len e \<noteq> 0" "rl_len t' = 0"
  shows "ntfs_runlists_merge mem (Some (pre @ h # ps @ t' # junk)) (Some (us @ runs @ t # sjunk)) =
    bind_result
      ((if rl_vcn h = s0
        then (if rl_vcn h + rl_len h \<le> s1 then ntfs_rl_replace else ntfs_rl_insert)
        else (if rl_vcn h + rl_len h \<le> s1 then ntfs_rl_append else ntfs_rl_split))
         mem (pre @ h # ps @ t' # junk) (length pre + 1 + length (ps @ [t'])) (runs @ t # sjunk)
         (length runs) (length pre)) (\<lambda>rl. Ok (Some rl))"
proof -
  have s: "s0 < s1" "0 \<le> rl_vcn h" using rl_seg_lt [OF assms(2,3)] rl_seg_le [OF assms(1)] by auto
  obtain r rs where r: "runs = r # rs" using assms(3) by (cases runs) auto
  obtain ls l where l: "runs = ls @ [l]" using assms(3) by (cases runs rule: rev_cases) auto
  have vr: "rl_vcn r = s0" "rl_len r \<noteq> 0" "LCN_HOLE \<le> rl_lcn r" using assms(2,4) by (auto simp: r)
  have el: "rle_end l = s1" using rle_end_seg [OF assms(2,3)] s assms(6,7,9) by (simp add: l)
  have 1: "skip_unmapped (us @ runs @ t # sjunk) = Ok (length us)"
    using skip_unmapped_eq [OF assms(5), of r "rs @ t # sjunk"] vr by (simp add: r)
  have 2: "rd (us @ runs @ t # sjunk) (length us) = Ok r" by (simp add: r rd_app rd_Cons del: rd_in)
  have 3: "find_ins (pre @ h # ps @ t' # junk) s0 = Ok (length pre)"
    by (rule find_ins_eq [OF assms(1,6) _ order_refl assms(9)]) (use s assms(7) in simp)
  have 4: "rd (pre @ h # ps @ t' # junk) (length pre) = Ok h" by (simp add: rd_app rd_Cons del: rd_in)
  have 5: "scan_end (runs @ t # sjunk) = Ok (length runs)"
    by (rule scan_end_eq [OF rl_seg_len [OF assms(2)] assms(10)])
  have "rl_len h \<noteq> 0" using s assms(6,7) by auto
  have 6: "scan_end (ps @ t' # junk) = Ok (length ps)"
    by (rule scan_end_eq [OF assms(12,13)])
  have 7: "rd (us @ runs @ t # sjunk) (length us + length runs) = Ok t"
    by (simp add: rd_app rd_Cons del: rd_in)
  have 8: "rd_prev (us @ runs @ t # sjunk) (length us + length runs) = Ok l"
    by (simp add: l rd_prev_def rd_app rd_Cons del: rd_in)
  have 9: "scan_final (us @ runs @ t # sjunk) (length us + length runs) = int (length us + length ls)"
    using scan_final_eq [of l t "us @ ls" sjunk] assms(4,11) by (simp add: l)
  have n: "nat (int (length ls) + 1) = length runs" by (simp add: l)
  have eh: "rle_end h = rl_vcn h + rl_len h" using s assms(6,7,9) by (simp add: rle_end_def s64_id)
  show ?thesis
    using vr assms(8,11) \<open>rl_len h \<noteq> 0\<close>
    by (auto simp: ntfs_runlists_merge_def 1 2 3 4 5 6 7 8 9 n eh el Let_def simp del: rd_in)
qed

lemma chosen_fills:
  assumes pre: "rl_seg 0 pre (rl_vcn h)" and runs: "rl_seg s0 runs s1" "runs \<noteq> []" "\<forall>e\<in>set runs. LCN_HOLE \<le> rl_lcn e"
    and h: "rl_vcn h \<le> s0" "s1 \<le> rl_vcn h + rl_len h" "rl_lcn h = LCN_HOLE \<or> rl_lcn h = LCN_RL_NOT_MAPPED"
    and rest: "rl_chain (rl_vcn h + rl_len h) ((ps @ [t]) @ junk)" "rl_len t = 0"
  shows "fills mem pre h (ps @ [t]) s0 runs s1
    ((if rl_vcn h = s0
        then (if rl_vcn h + rl_len h \<le> s1 then ntfs_rl_replace else ntfs_rl_insert)
        else (if rl_vcn h + rl_len h \<le> s1 then ntfs_rl_append else ntfs_rl_split))
      mem (pre @ h # (ps @ [t]) @ junk) (length pre + 1 + length (ps @ [t])) (runs @ srest)
      (length runs) (length pre))"
proof -
  obtain q qs where q: "ps @ [t] = q # qs" by (cases ps) auto
  have restq: "rl_chain (rl_vcn h + rl_len h) (q # qs @ junk)" using rest(1) q by simp
  have len: "length pre + 1 + length (ps @ [t]) = length pre + 2 + length qs" using q by simp
  have eq: "pre @ h # (ps @ [t]) @ junk = pre @ h # q # qs @ junk" using q by simp
  have ends: "LCN_HOLE \<le> rl_lcn (hd runs)" "LCN_HOLE \<le> rl_lcn (last runs)" using runs(2,3) by auto
  consider (split) "rl_vcn h < s0" "s1 < rl_vcn h + rl_len h" | (ins) "rl_vcn h = s0" "s1 < rl_vcn h + rl_len h"
    | (app) "rl_vcn h < s0" "s1 = rl_vcn h + rl_len h" | (rep) "rl_vcn h = s0" "s1 = rl_vcn h + rl_len h"
    using h(1,2) by linarith
  then show ?thesis
  proof cases
    case split
    with split_fills [OF pre runs(1,2) split h(3) rest(1) _ refl refl refl, of mem srest] show ?thesis by simp
  next
    case ins
    with insert_fills [OF pre runs(1,2) ends(1) ins h(3) rest(1) _ refl refl refl, of mem srest] show ?thesis by simp
  next
    case app
    from append_fills [OF pre runs(1,2) ends(2) app h(3) restq q [symmetric] rest(2) refl refl refl, of mem srest]
    show ?thesis unfolding len eq q using app by simp
  next
    case rep
    from replace_fills [OF pre runs(1,2) ends rep restq q [symmetric] rest(2) refl refl refl, of mem srest]
    show ?thesis unfolding len eq q using rep by simp
  qed
qed

lemma merge_extent:
  assumes "rl_wf drl" and "rl_extent srl s0 s1" and "rl_gap drl i s0 s1"
  shows "ntfs_runlists_merge mem (Some drl) (Some srl) = Error ENOMEM \<and> \<not> alloc_ok mem \<or>
    (\<exists>rl. ntfs_runlists_merge mem (Some drl) (Some srl) = Ok (Some rl) \<and> rl_wf rl \<and>
      (\<forall>x\<ge>0. rl_map rl x = (if s0 \<le> x \<and> x < s1 then rl_map srl x else rl_map drl x)))"
proof -
  obtain us runs t sj where srl: "srl = us @ runs @ t # sj" "runs \<noteq> []"
      "\<forall>e\<in>set us. rl_len e \<noteq> 0 \<and> rl_lcn e = LCN_RL_NOT_MAPPED" "rl_seg s0 runs s1"
      "\<forall>e\<in>set runs. LCN_HOLE \<le> rl_lcn e" "rl_seg 0 us s0" "rl_len t = 0" "rl_lcn t = LCN_RL_NOT_MAPPED"
    using assms(2) unfolding rl_extent_def by blast
  define h where "h = drl ! i"
  have i: "i < length drl" and lcn: "rl_lcn h = LCN_HOLE \<or> rl_lcn h = LCN_RL_NOT_MAPPED"
    and h: "rl_vcn h \<le> s0" "s1 \<le> rl_vcn h + rl_len h" "rl_len h \<noteq> 0"
    using assms(3) by (auto simp: rl_gap_def h_def)
  have drl: "drl = take i drl @ h # drop (Suc i) drl" using i by (simp add: h_def id_take_nth_drop)
  moreover have "\<forall>e\<in>set (take i drl). rl_len e \<noteq> 0"
    using assms(3) by (fastforce simp: rl_gap_def in_set_conv_nth)
  ultimately obtain v where pre: "rl_seg 0 (take i drl) v" "rl_chain v (h # drop (Suc i) drl)"
    using assms(1) rl_chain_split [of 0 "take i drl" "h # drop (Suc i) drl"] by (auto simp: rl_wf_def)
  then have v: "v = rl_vcn h" and rest: "rl_chain (rl_vcn h + rl_len h) (drop (Suc i) drl)" using h(3) by auto
  obtain ps t' junk where post: "drop (Suc i) drl = ps @ t' # junk" "rl_len t' = 0" "\<forall>e\<in>set ps. rl_len e \<noteq> 0"
    using rl_chain_terminated [OF rest] by blast
  define pre' where "pre' = take i drl"
  have drl': "drl = pre' @ h # (ps @ [t']) @ junk" using drl post(1) by (simp add: pre'_def)
  note pre1 = pre(1) [unfolded v, folded pre'_def]
  have rest': "rl_chain (rl_vcn h + rl_len h) ((ps @ [t']) @ junk)" using rest post(1) by simp
  have b: "rl_vcn h + rl_len h < 9223372036854775808" using rl_chain_ge [OF rest] .
  note f = chosen_fills [OF pre1 srl(4,2,5) h(1,2) lcn rest' post(2), of mem "t # sj"]
  have m: "rl_map srl x = rl_map runs x" if "s0 \<le> x" "x < s1" for x
    unfolding srl(1) using that rl_seg_le [OF srl(6)] rl_map_seg [OF srl(6)] rl_map_seg [OF srl(4)] by simp
  let ?r = "(if rl_vcn h = s0
        then (if rl_vcn h + rl_len h \<le> s1 then ntfs_rl_replace else ntfs_rl_insert)
        else (if rl_vcn h + rl_len h \<le> s1 then ntfs_rl_append else ntfs_rl_split))
      mem drl (length pre' + 1 + length (ps @ [t'])) (runs @ t # sj) (length runs) (length pre')"
  have merge: "ntfs_runlists_merge mem (Some drl) (Some srl) = bind_result ?r (\<lambda>rl. Ok (Some rl))"
    using merge_choice [OF pre1 srl(4,2,5,3) h(1,2) lcn b srl(7,8) post(3,2), of mem junk sj] drl' srl(1)
    by simp
  have "fills mem pre' h (ps @ [t']) s0 runs s1 ?r"
    using chosen_fills [OF pre1 srl(4,2,5) h(1,2) lcn rest' post(2), of mem "t # sj"]
    unfolding drl' [symmetric] .
  then consider "?r = Error ENOMEM" "\<not> alloc_ok mem"
    | rl where "?r = Ok rl" "filled pre' h (ps @ [t']) s0 runs s1 rl"
    unfolding fills_def by blast
  then show ?thesis
  proof cases
    case 1
    with merge show ?thesis by simp
  next
    case (2 rl)
    note c = filled_correct [OF 2(2) pre1 srl(4,2) h(1,2) lcn rest' refl post(2), folded drl']
    show ?thesis using merge 2(1) c m by auto
  qed
qed

text \<open>
  C5. Merging an extent. If the source maps exactly the vcns from \<open>s0\<close> to \<open>s1\<close> and these lie
  in one hole or unmapped run of a well-formed destination, the merge returns a well-formed
  runlist that maps these vcns as the source does and every other vcn as the destination did,
  whichever of the four merges is chosen and whether or not the ends are joined with the
  neighbouring runs. It can only fail with \<^verbatim>\<open>-ENOMEM\<close>, and only when an allocation fails.
\<close>

theorem runlists_merge_correct:
  assumes "rl_wf drl" and "rl_extent srl s0 s1" and "rl_gap drl i s0 s1"
  shows "ntfs_runlists_merge mem (Some drl) (Some srl) = Error ENOMEM \<and> \<not> alloc_ok mem \<or>
    (\<exists>rl. ntfs_runlists_merge mem (Some drl) (Some srl) = Ok (Some rl) \<and> rl_wf rl \<and>
      (\<forall>x\<ge>0. rl_map rl x = (if s0 \<le> x \<and> x < s1 then rl_map srl x else rl_map drl x)))"
  by (rule merge_extent [OF assms])

definition merge_dst :: runlist where
  "merge_dst = [mk_rle 0 100 8, mk_rle 8 LCN_RL_NOT_MAPPED 24, mk_rle 32 LCN_ENOENT 0]"

definition merge_src :: runlist where
  "merge_src = [mk_rle 0 LCN_RL_NOT_MAPPED 8, mk_rle 8 108 8, mk_rle 16 LCN_RL_NOT_MAPPED 0]"

definition merge_mem :: rl_mem where
  "merge_mem = \<lparr>alloc_ok = True, fresh_elem = (\<lambda>i. mk_rle 0 0 0)\<rparr>"

theorem runlists_merge_correct_witness:
  "\<exists>rl. ntfs_runlists_merge merge_mem (Some merge_dst) (Some merge_src) = Ok (Some rl) \<and> rl_wf rl \<and>
    rl_map rl 5 = 105 \<and> rl_map rl 12 = 112 \<and> rl_map rl 20 = LCN_RL_NOT_MAPPED"
proof -
  have "rl_wf merge_dst" by (simp add: merge_dst_def rl_wf_def)
  moreover have "rl_extent merge_src 8 16"
    unfolding rl_extent_def
    by (intro exI [of _ "[mk_rle 0 LCN_RL_NOT_MAPPED 8]"] exI [of _ "[mk_rle 8 108 8]"]
        exI [of _ "mk_rle 16 LCN_RL_NOT_MAPPED 0"] exI [of _ "[]"]) (simp add: merge_src_def)
  moreover have "rl_gap merge_dst 1 8 16"
    by (auto simp: rl_gap_def merge_dst_def le_Suc_eq)
  ultimately show ?thesis
    using runlists_merge_correct [of merge_dst merge_src 8 16 1 merge_mem]
    by (auto simp: merge_mem_def) (simp_all add: merge_dst_def merge_src_def)
qed

end
