(* ===== verification/Ntfs_Signed_Bytes.thy ===== *)
theory Ntfs_Signed_Bytes
  imports Ntfs_Prelude
begin

text \<open>
  The variable-length signed integers of a mapping pairs array: the decoding loops of
  \<^verbatim>\<open>ntfs_mapping_pairs_decompress\<close>, \<^verbatim>\<open>ntfs_get_nr_significant_bytes\<close> and
  \<^verbatim>\<open>ntfs_write_significant_bytes\<close> of \<^verbatim>\<open>ntfs/runlist.c\<close>. Numbers are \<open>s64\<close> values (\<open>int\<close>); an
  arithmetic shift right by 8 is \<open>div 256\<close>.
\<close>

section \<open>Decoding\<close>

text \<open>The bytes stand in memory order, lowest first; the highest is sign extended.\<close>

fun mp_decode :: "u8 list \<Rightarrow> int" where
  "mp_decode [] = 0"
| "mp_decode [b] = sint b"
| "mp_decode (b # bs) = s64 (mp_decode bs * 256 + uint b)"

section \<open>Encoding\<close>

text \<open>\<^verbatim>\<open>(s8)\<close> of a number.\<close>

definition s8 :: "int \<Rightarrow> int" where
  "s8 x = (x + 128) mod 256 - 128"

lemma shift_terminates: "(l::int) div 256 \<noteq> 0 \<Longrightarrow> l div 256 \<noteq> - 1 \<Longrightarrow> nat \<bar>l div 256\<bar> < nat \<bar>l\<bar>"
  by linarith

text \<open>The \<^verbatim>\<open>do ... while\<close> loop that counts bytes.\<close>

function nr_bytes_loop :: "int \<Rightarrow> nat \<Rightarrow> nat" where
  "nr_bytes_loop l i =
     (let l' = l div 256 in
      if l' \<noteq> 0 \<and> l' \<noteq> - 1 then nr_bytes_loop l' (Suc i) else Suc i)"
  by pat_completeness auto
termination
  by (relation "measure (\<lambda>(l, i). nat \<bar>l\<bar>)") (auto simp: shift_terminates)

declare nr_bytes_loop.simps [simp del]

definition ntfs_get_nr_significant_bytes :: "int \<Rightarrow> nat" where
  "ntfs_get_nr_significant_bytes n =
     (let i = nr_bytes_loop n 0; j = s8 (n div 256 ^ (i - 1)) in
      if (n < 0 \<and> j \<ge> 0) \<or> (n > 0 \<and> j < 0) then Suc i else i)"

text \<open>
  Writing: \<open>pos\<close> is \<^verbatim>\<open>dst\<close> and \<open>mx\<close> is \<^verbatim>\<open>dst_max\<close>, both as indices into the destination
  buffer. The result is the buffer, with the number of bytes written, or \<open>None\<close> for
  \<^verbatim>\<open>-ENOSPC\<close>; bytes written before the space ran out stay in the buffer.
\<close>

function write_bytes_loop ::
  "u8 list \<Rightarrow> nat \<Rightarrow> nat \<Rightarrow> int \<Rightarrow> nat \<Rightarrow> (u8 list \<times> nat option) result" where
  "write_bytes_loop buf pos mx l i =
     (if pos > mx then Ok (buf, None)
      else if length buf \<le> pos then Oob
      else let buf' = buf[pos := word_of_int l]; l' = l div 256 in
        if l' \<noteq> 0 \<and> l' \<noteq> - 1 then write_bytes_loop buf' (Suc pos) mx l' (Suc i)
        else Ok (buf', Some (Suc i)))"
  by pat_completeness auto
termination
  by (relation "measure (\<lambda>(buf, pos, mx, l, i). nat \<bar>l\<bar>)") (auto simp: shift_terminates)

declare write_bytes_loop.simps [simp del]

definition ntfs_write_significant_bytes ::
  "u8 list \<Rightarrow> nat \<Rightarrow> nat \<Rightarrow> int \<Rightarrow> (u8 list \<times> nat option) result" where
  "ntfs_write_significant_bytes buf pos mx n =
     bind_result (write_bytes_loop buf pos mx n 0) (\<lambda>(buf, r).
       case r of
         None \<Rightarrow> Ok (buf, None)
       | Some i \<Rightarrow>
           (let j = s8 (n div 256 ^ (i - 1)); pos = pos + i in
            if n < 0 \<and> j \<ge> 0 then
              (if pos > mx then Ok (buf, None)
               else bind_result (wr buf pos (- 1)) (\<lambda>buf. Ok (buf, Some (Suc i))))
            else if n > 0 \<and> j < 0 then
              (if pos > mx then Ok (buf, None)
               else bind_result (wr buf pos 0) (\<lambda>buf. Ok (buf, Some (Suc i))))
            else Ok (buf, Some i)))"

section \<open>The bytes of a number\<close>

text \<open>The reference encoding: the shortest sequence of bytes that stands for \<open>n\<close>.\<close>

function low_bytes :: "int \<Rightarrow> u8 list" where
  "low_bytes l =
     word_of_int l # (if l div 256 = 0 \<or> l div 256 = - 1 then [] else low_bytes (l div 256))"
  by pat_completeness auto
termination
  by (relation "measure (\<lambda>l. nat \<bar>l\<bar>)") (auto simp: shift_terminates)

declare low_bytes.simps [simp del]

definition sig_bytes :: "int \<Rightarrow> u8 list" where
  "sig_bytes n =
     (let bs = low_bytes n; j = sint (last bs) in
      bs @ (if n < 0 \<and> j \<ge> 0 then [- 1] else if n > 0 \<and> j < 0 then [0] else []))"

lemma low_bytes_nonempty [simp]: "low_bytes l \<noteq> []"
  by (subst low_bytes.simps) simp

lemma nr_bytes_loop_eq: "nr_bytes_loop l i = i + length (low_bytes l)"
proof (induction l i rule: nr_bytes_loop.induct)
  case (1 l i)
  show ?case
    by (subst nr_bytes_loop.simps, subst low_bytes.simps) (auto simp: Let_def 1)
qed

lemma sint_word_of_int8: "sint (word_of_int x :: u8) = s8 x"
  by (simp add: s8_def sint_word_ariths signed_take_bit_eq_take_bit_shift take_bit_eq_mod
      signed_of_int)

lemma last_low_bytes: "sint (last (low_bytes n)) = s8 (n div 256 ^ (length (low_bytes n) - 1))"
proof (induction n rule: low_bytes.induct)
  case (1 l)
  show ?case
  proof (cases "l div 256 = 0 \<or> l div 256 = - 1")
    case True
    then show ?thesis by (subst (1 2) low_bytes.simps) (simp add: sint_word_of_int8)
  next
    case False
    have e: "low_bytes l = word_of_int l # low_bytes (l div 256)"
      using False by (subst low_bytes.simps) simp
    have "l div 256 div 256 ^ (length (low_bytes (l div 256)) - 1) =
        l div 256 ^ length (low_bytes (l div 256))"
      using low_bytes_nonempty [of "l div 256"]
      by (cases "length (low_bytes (l div 256))") (simp_all add: zdiv_zmult2_eq)
    then show ?thesis using 1 [OF False] by (simp add: e)
  qed
qed

text \<open>The number of significant bytes is the length of the encoding.\<close>

lemma nr_significant_bytes_eq: "ntfs_get_nr_significant_bytes n = length (sig_bytes n)"
  by (simp add: ntfs_get_nr_significant_bytes_def sig_bytes_def Let_def nr_bytes_loop_eq
      last_low_bytes)

section \<open>Decoding what was encoded\<close>

lemma mp_decode_Cons: "bs \<noteq> [] \<Longrightarrow> mp_decode (b # bs) = s64 (mp_decode bs * 256 + uint b)"
  by (cases bs) simp_all

lemma uint_byte: "uint (word_of_int l :: u8) = l mod 256"
  by (simp add: uint_word_of_int)

lemma in_s64_div: "in_s64 l \<Longrightarrow> in_s64 (l div 256)"
  unfolding in_s64_def by linarith

text \<open>
  Adding to the low bytes of \<open>n\<close> a suffix that decodes, after the final shift, to the
  remaining quotient gives back \<open>n\<close>.
\<close>

lemma decode_low_bytes:
  assumes "in_s64 n" and "last (low_bytes n) = w"
    and "mp_decode (w # suf) = n div 256 ^ (length (low_bytes n) - 1)"
  shows "mp_decode (low_bytes n @ suf) = n"
  using assms
proof (induction n rule: low_bytes.induct)
  case (1 l)
  show ?case
  proof (cases "l div 256 = 0 \<or> l div 256 = - 1")
    case True
    then have "low_bytes l = [word_of_int l]" by (subst low_bytes.simps) simp
    with "1.prems" show ?thesis by simp
  next
    case False
    have e: "low_bytes l = word_of_int l # low_bytes (l div 256)"
      using False by (subst low_bytes.simps) simp
    have d: "l div 256 div 256 ^ (length (low_bytes (l div 256)) - 1) =
        l div 256 ^ length (low_bytes (l div 256))"
      using low_bytes_nonempty [of "l div 256"]
      by (cases "length (low_bytes (l div 256))") (simp_all add: zdiv_zmult2_eq)
    have "mp_decode (low_bytes (l div 256) @ suf) = l div 256"
      using "1.IH" [OF False in_s64_div [OF "1.prems"(1)]] "1.prems"(2,3)
      by (simp add: e d [simplified])
    then have "mp_decode (low_bytes l @ suf) = s64 (l div 256 * 256 + l mod 256)"
      by (simp add: e mp_decode_Cons uint_byte)
    then show ?thesis using "1.prems"(1) by (simp add: s64_in)
  qed
qed

lemma low_bytes_quotient:
  "n div 256 ^ length (low_bytes n) = (if n < 0 then - 1 else 0)"
proof (induction n rule: low_bytes.induct)
  case (1 l)
  show ?case
  proof (cases "l div 256 = 0 \<or> l div 256 = - 1")
    case True
    then have "low_bytes l = [word_of_int l]" by (subst low_bytes.simps) simp
    with True show ?thesis by auto
  next
    case False
    have e: "low_bytes l = word_of_int l # low_bytes (l div 256)"
      using False by (subst low_bytes.simps) simp
    have "l div 256 < 0 \<longleftrightarrow> l < 0" by linarith
    then show ?thesis using 1 [OF False] by (simp add: e zdiv_zmult2_eq)
  qed
qed

lemma low_bytes_top:
  fixes n :: int
  defines "t \<equiv> n div 256 ^ (length (low_bytes n) - 1)"
  shows "t div 256 = (if n < 0 then - 1 else 0)"
proof -
  obtain k where "length (low_bytes n) = Suc k"
    using low_bytes_nonempty [of n] by (cases "length (low_bytes n)") auto
  then have "t div 256 = n div 256 ^ length (low_bytes n)"
    by (simp only: t_def power_Suc2 zdiv_zmult2_eq) simp
  then show ?thesis by (simp add: low_bytes_quotient)
qed

lemma sig_bytes_decode:
  assumes "in_s64 n"
  shows "mp_decode (sig_bytes n) = n"
proof -
  define t where "t = n div 256 ^ (length (low_bytes n) - 1)"
  define w where "w = last (low_bytes n)"
  have t: "t div 256 = (if n < 0 then - 1 else 0)"
    unfolding t_def by (rule low_bytes_top)
  have w: "sint w = s8 t" by (simp add: w_def t_def last_low_bytes)
  have u: "uint w = t mod 256"
  proof -
    have "uint w = sint w mod 256" by (simp add: uint_sint take_bit_eq_mod)
    also have "\<dots> = t mod 256" by (simp add: w s8_def mod_diff_left_eq)
    finally show ?thesis .
  qed
  let ?suf = "if n < 0 \<and> sint w \<ge> 0 then [- 1] else if n > 0 \<and> sint w < 0 then [0] else []"
  have "mp_decode (w # ?suf) = t"
  proof (cases "n < 0")
    case True
    then have "t = t mod 256 - 256" using t div_mult_mod_eq [of t 256] by simp
    moreover have "0 \<le> t mod 256" and "t mod 256 < 256" by simp_all
    ultimately have "- 256 \<le> t" and "t < 0" by linarith+
    then have "(t + 128) mod 256 = (if t + 128 < 0 then t + 384 else t + 128)"
      using mod_add_self2 [of "t + 128" 256] mod_pos_pos_trivial [of "t + 384" 256]
      by (simp add: add.commute)
    with \<open>t = t mod 256 - 256\<close> show ?thesis
      using True w u by (auto simp: s64_def s8_def split: if_splits)
  next
    case False
    then have "t = t mod 256" using t div_mult_mod_eq [of t 256] by simp
    moreover have "0 \<le> t mod 256" and "t mod 256 < 256" by simp_all
    ultimately have "0 \<le> t" and "t < 256" by linarith+
    then have "(t + 128) mod 256 = (if t + 128 < 256 then t + 128 else t - 128)"
      using mod_add_self2 [of "t - 128" 256] mod_pos_pos_trivial [of "t - 128" 256]
      by (cases "t < 128") (simp_all add: add.commute)
    moreover have "n = 0 \<longrightarrow> t = 0" by (simp add: t_def)
    ultimately show ?thesis
      using False w u \<open>0 \<le> t\<close> \<open>t < 256\<close> by (auto simp: s64_def s8_def split: if_splits)
  qed
  then have "mp_decode (low_bytes n @ ?suf) = n"
    using assms by (intro decode_low_bytes) (simp_all add: w_def t_def)
  then show ?thesis unfolding sig_bytes_def Let_def w_def .
qed

section \<open>The encoding is the shortest one\<close>

text \<open>\<open>fits k n\<close>: \<open>n\<close> is a signed number of \<open>k\<close> bytes.\<close>

definition fits :: "nat \<Rightarrow> int \<Rightarrow> bool" where
  "fits k n \<longleftrightarrow> - (128 * 256 ^ (k - 1)) \<le> n \<and> n < 128 * 256 ^ (k - 1)"

lemma fits_Suc:
  assumes "0 < k"
  shows "fits (Suc k) n \<longleftrightarrow> fits k (n div 256)"
proof -
  obtain j where k: "k = Suc j" using assms by (cases k) auto
  define A :: int where "A = 128 * 256 ^ j"
  have "n < 256 * A \<longleftrightarrow> n div 256 < A" and "- (256 * A) \<le> n \<longleftrightarrow> - A \<le> n div 256"
    by linarith+
  then show ?thesis by (simp add: fits_def k A_def)
qed

lemma fits_mono: "fits k n \<Longrightarrow> k \<le> m \<Longrightarrow> fits m n"
proof -
  assume "fits k n" and "k \<le> m"
  moreover have "(256::int) ^ (k - 1) \<le> 256 ^ (m - 1)"
    using \<open>k \<le> m\<close> by (intro power_increasing) auto
  ultimately show ?thesis unfolding fits_def by linarith
qed

lemma sig_bytes_step:
  assumes "l div 256 \<noteq> 0" and "l div 256 \<noteq> - 1"
  shows "sig_bytes l = word_of_int l # sig_bytes (l div 256)"
proof -
  have e: "low_bytes l = word_of_int l # low_bytes (l div 256)"
    using assms by (subst low_bytes.simps) simp
  have "l < 0 \<longleftrightarrow> l div 256 < 0" and "0 < l \<longleftrightarrow> 0 < l div 256"
    using assms by linarith+
  then show ?thesis by (simp add: sig_bytes_def e Let_def)
qed

lemma sig_bytes_base:
  assumes "l div 256 = 0 \<or> l div 256 = - 1"
  shows "length (sig_bytes l) = (if fits 1 l then 1 else 2)"
proof -
  have e: "low_bytes l = [word_of_int l]" using assms by (subst low_bytes.simps) simp
  have b: "- 256 \<le> l" "l < 256" using assms by linarith+
  have "s8 l = (if l < - 128 then l + 256 else if l < 128 then l else l - 256)"
    using b mod_pos_pos_trivial [of "l + 384" 256] mod_pos_pos_trivial [of "l - 128" 256]
      mod_add_self2 [of "l + 128" 256] mod_add_self2 [of "l - 128" 256]
    by (auto simp: s8_def add.commute)
  then show ?thesis
    using b by (auto simp: sig_bytes_def e Let_def sint_word_of_int8 fits_def)
qed

lemma sig_bytes_minimal:
  assumes "0 < k"
  shows "length (sig_bytes n) \<le> k \<longleftrightarrow> fits k n"
  using assms
proof (induction n arbitrary: k rule: low_bytes.induct)
  case (1 l)
  show ?case
  proof (cases "l div 256 = 0 \<or> l div 256 = - 1")
    case True
    have "fits k l" if "2 \<le> k"
    proof -
      have "fits 2 l" using True by (auto simp: fits_def)
      then show ?thesis using that by (rule fits_mono)
    qed
    moreover have "k = 1 \<or> 2 \<le> k" using "1.prems" by linarith
    ultimately show ?thesis using sig_bytes_base [OF True] by auto
  next
    case False
    then have e: "sig_bytes l = word_of_int l # sig_bytes (l div 256)"
      by (intro sig_bytes_step) auto
    show ?thesis
    proof (cases k)
      case (Suc j)
      show ?thesis
      proof (cases "0 < j")
        case True
        then show ?thesis using "1.IH" [OF False True] fits_Suc [OF True] by (simp add: e Suc)
      next
        case j: False
        have "\<not> fits 1 l" using False by (auto simp: fits_def)
        moreover have "sig_bytes (l div 256) \<noteq> []" by (simp add: sig_bytes_def Let_def)
        ultimately show ?thesis using j by (simp add: e Suc)
      qed
    qed (use "1.prems" in simp)
  qed
qed

text \<open>
  Number of significant bytes. \<^verbatim>\<open>ntfs_get_nr_significant_bytes\<close> returns the least number of
  bytes in which its argument can be stored as a signed number; for every \<^verbatim>\<open>s64\<close> this is
  between 1 and 8, so it fits the four bits the mapping pair header has for it.
\<close>

lemma nr_significant_bytes_least:
  assumes "in_s64 n"
  shows "1 \<le> ntfs_get_nr_significant_bytes n \<and> ntfs_get_nr_significant_bytes n \<le> 8 \<and>
    (\<forall>k>0. ntfs_get_nr_significant_bytes n \<le> k \<longleftrightarrow> fits k n)"
proof -
  have "fits 8 n" using assms by (simp add: in_s64_def fits_def)
  then have "length (sig_bytes n) \<le> 8" by (simp add: sig_bytes_minimal)
  moreover have "1 \<le> length (sig_bytes n)"
    by (simp add: sig_bytes_def Let_def Suc_le_eq)
  ultimately show ?thesis by (simp add: nr_significant_bytes_eq sig_bytes_minimal)
qed

lemma sig_bytes_length:
  assumes "in_s64 n"
  shows "1 \<le> length (sig_bytes n)" and "length (sig_bytes n) \<le> 8"
proof -
  have "fits 8 n" using assms by (simp add: in_s64_def fits_def)
  then show "length (sig_bytes n) \<le> 8" by (simp add: sig_bytes_minimal)
  show "1 \<le> length (sig_bytes n)" by (simp add: sig_bytes_def Let_def Suc_le_eq)
qed

section \<open>Writing into a buffer\<close>

definition put :: "'a list \<Rightarrow> nat \<Rightarrow> 'a list \<Rightarrow> 'a list" where
  "put buf pos bs = take pos buf @ bs @ drop (pos + length bs) buf"

lemma length_put [simp]: "pos + length bs \<le> length buf \<Longrightarrow> length (put buf pos bs) = length buf"
  by (simp add: put_def)

lemma put_Nil [simp]: "put buf pos [] = buf"
  by (simp add: put_def)

lemma put_Cons:
  assumes "pos < length buf"
  shows "put (buf[pos := b]) (Suc pos) bs = put buf pos (b # bs)"
  using assms by (simp add: put_def take_Suc_conv_app_nth take_update_cancel)

lemma put_snoc:
  assumes "pos + length bs < length buf"
  shows "(put buf pos bs)[pos + length bs := b] = put buf pos (bs @ [b])"
  using assms by (simp add: put_def list_update_append Cons_nth_drop_Suc [symmetric])

lemma take_put [simp]: "p \<le> pos \<Longrightarrow> pos \<le> length buf \<Longrightarrow> take p (put buf pos bs) = take p buf"
  by (simp add: put_def)

text \<open>\<open>kept buf pos mx buf'\<close>: outside the window from \<open>pos\<close> to \<open>mx\<close> the buffer is unchanged.\<close>

definition kept :: "'a list \<Rightarrow> nat \<Rightarrow> nat \<Rightarrow> 'a list \<Rightarrow> bool" where
  "kept buf pos mx buf' \<longleftrightarrow>
     length buf' = length buf \<and> take pos buf' = take pos buf \<and>
     drop (Suc mx) buf' = drop (Suc mx) buf"

lemma kept_refl [simp]: "kept buf pos mx buf"
  by (simp add: kept_def)

lemma kept_upd:
  assumes "kept (buf[pos := b]) (Suc pos) mx buf'" and "pos \<le> mx" and "mx < length buf"
  shows "kept buf pos mx buf'"
proof -
  have "take pos buf' = take pos (take (Suc pos) buf')" by simp
  also have "\<dots> = take pos (take (Suc pos) (buf[pos := b]))"
    using assms(1) by (simp add: kept_def)
  also have "\<dots> = take pos buf" by (simp add: take_update_cancel)
  finally have "take pos buf' = take pos buf" .
  then show ?thesis using assms by (simp add: kept_def drop_update_cancel)
qed

lemma write_bytes_loop_fits:
  assumes "pos + length (low_bytes l) \<le> Suc mx" and "mx < length buf"
  shows "write_bytes_loop buf pos mx l i =
    Ok (put buf pos (low_bytes l), Some (i + length (low_bytes l)))"
  using assms
proof (induction l arbitrary: buf pos i rule: low_bytes.induct)
  case (1 l)
  have p: "pos \<le> mx" using "1.prems"(1) low_bytes_nonempty [of l]
    by (cases "low_bytes l") auto
  show ?case
  proof (cases "l div 256 = 0 \<or> l div 256 = - 1")
    case True
    have e: "low_bytes l = [word_of_int l]" using True by (subst low_bytes.simps) simp
    then show ?thesis
      using True p "1.prems"(2) put_Cons [of pos buf "word_of_int l" "[]"]
      by (subst write_bytes_loop.simps) (auto simp: Let_def)
  next
    case False
    have e: "low_bytes l = word_of_int l # low_bytes (l div 256)"
      using False by (subst low_bytes.simps) simp
    then have "write_bytes_loop (buf[pos := word_of_int l]) (Suc pos) mx (l div 256) (Suc i) =
        Ok (put (buf[pos := word_of_int l]) (Suc pos) (low_bytes (l div 256)),
          Some (Suc i + length (low_bytes (l div 256))))"
      using "1.IH" [OF False] "1.prems" by simp
    then show ?thesis
      using False p "1.prems"(2)
      by (subst write_bytes_loop.simps) (simp add: Let_def e put_Cons)
  qed
qed

lemma write_bytes_loop_nospace:
  assumes "Suc mx < pos + length (low_bytes l)" and "mx < length buf"
  shows "\<exists>buf'. write_bytes_loop buf pos mx l i = Ok (buf', None) \<and> kept buf pos mx buf'"
  using assms
proof (induction l arbitrary: buf pos i rule: low_bytes.induct)
  case (1 l)
  show ?case
  proof (cases "pos > mx")
    case True
    then show ?thesis by (subst write_bytes_loop.simps) simp
  next
    case p: False
    have f: "\<not> (l div 256 = 0 \<or> l div 256 = - 1)"
    proof
      assume "l div 256 = 0 \<or> l div 256 = - 1"
      then have "low_bytes l = [word_of_int l]" by (subst low_bytes.simps) simp
      then show False using "1.prems"(1) p by simp
    qed
    have e: "low_bytes l = word_of_int l # low_bytes (l div 256)"
      using f by (subst low_bytes.simps) simp
    then obtain buf' where
      "write_bytes_loop (buf[pos := word_of_int l]) (Suc pos) mx (l div 256) (Suc i) = Ok (buf', None)"
      and k: "kept (buf[pos := word_of_int l]) (Suc pos) mx buf'"
      using "1.IH" [OF f, of "Suc pos" "buf[pos := word_of_int l]" "Suc i"] "1.prems" by auto
    moreover have "kept buf pos mx buf'"
      using kept_upd [OF k] p "1.prems"(2) by simp
    ultimately show ?thesis
      using f p "1.prems"(2) by (subst write_bytes_loop.simps) (auto simp: Let_def)
  qed
qed

lemma sig_bytes_alt:
  "sig_bytes n = low_bytes n @
     (let j = s8 (n div 256 ^ (length (low_bytes n) - 1)) in
      if n < 0 \<and> j \<ge> 0 then [- 1] else if n > 0 \<and> j < 0 then [0] else [])"
  by (simp add: sig_bytes_def Let_def last_low_bytes)

lemma write_significant_bytes_fits:
  assumes "pos + length (sig_bytes n) \<le> Suc mx" and "mx < length buf"
  shows "ntfs_write_significant_bytes buf pos mx n =
    Ok (put buf pos (sig_bytes n), Some (length (sig_bytes n)))"
proof -
  let ?j = "s8 (n div 256 ^ (length (low_bytes n) - 1))"
  have "length (low_bytes n) \<le> length (sig_bytes n)" by (simp add: sig_bytes_alt)
  then have w: "write_bytes_loop buf pos mx n 0 =
      Ok (put buf pos (low_bytes n), Some (length (low_bytes n)))"
    using write_bytes_loop_fits [of pos n mx buf 0] assms by simp
  show ?thesis
  proof (cases "(n < 0 \<and> ?j \<ge> 0) \<or> (n > 0 \<and> ?j < 0)")
    case True
    define b :: u8 where "b = (if n < 0 then - 1 else 0)"
    have s: "sig_bytes n = low_bytes n @ [b]"
      using True by (auto simp: sig_bytes_alt Let_def b_def)
    have le: "pos + length (low_bytes n) \<le> mx" using assms(1) by (simp add: s)
    have "wr (put buf pos (low_bytes n)) (pos + length (low_bytes n)) b =
        Ok (put buf pos (sig_bytes n))"
      using le assms(2) by (simp add: s put_snoc)
    then show ?thesis
      using True le by (auto simp: ntfs_write_significant_bytes_def w Let_def b_def s)
  next
    case False
    then have "sig_bytes n = low_bytes n" by (auto simp: sig_bytes_alt Let_def)
    then show ?thesis
      using False by (auto simp: ntfs_write_significant_bytes_def w Let_def)
  qed
qed

lemma kept_put:
  assumes "pos + length bs \<le> Suc mx" and "mx < length buf"
  shows "kept buf pos mx (put buf pos bs)"
  using assms by (simp add: kept_def put_def)

lemma write_significant_bytes_nospace:
  assumes "Suc mx < pos + length (sig_bytes n)" and "mx < length buf"
  shows "\<exists>buf'. ntfs_write_significant_bytes buf pos mx n = Ok (buf', None) \<and> kept buf pos mx buf'"
proof (cases "Suc mx < pos + length (low_bytes n)")
  case True
  then show ?thesis
    using write_bytes_loop_nospace [OF True assms(2), of 0]
    by (auto simp: ntfs_write_significant_bytes_def)
next
  case False
  let ?j = "s8 (n div 256 ^ (length (low_bytes n) - 1))"
  have w: "write_bytes_loop buf pos mx n 0 =
      Ok (put buf pos (low_bytes n), Some (length (low_bytes n)))"
    using write_bytes_loop_fits [of pos n mx buf 0] False assms(2) by simp
  have "(n < 0 \<and> ?j \<ge> 0) \<or> (n > 0 \<and> ?j < 0)" and "pos + length (low_bytes n) > mx"
    using assms(1) False by (auto simp: sig_bytes_alt Let_def split: if_splits)
  then show ?thesis
    using False assms(2) kept_put [of pos "low_bytes n" mx buf]
    by (auto simp: ntfs_write_significant_bytes_def w Let_def)
qed

text \<open>
  C24. Writing a signed number. \<^verbatim>\<open>ntfs_write_significant_bytes\<close> never writes outside the window
  from \<^verbatim>\<open>dst\<close> to \<^verbatim>\<open>dst_max\<close>. It succeeds exactly when the
  \<^verbatim>\<open>ntfs_get_nr_significant_bytes\<close> bytes of the number fit there; then it returns that count
  and the decoding loop reads the number back from the bytes written.
\<close>

theorem write_significant_bytes_correct:
  assumes "in_s64 n" and "mx < length buf" and "pos \<le> Suc mx"
  shows "\<exists>buf' r. ntfs_write_significant_bytes buf pos mx n = Ok (buf', r) \<and>
    kept buf pos mx buf' \<and>
    (case r of
       None \<Rightarrow> Suc mx < pos + ntfs_get_nr_significant_bytes n
     | Some c \<Rightarrow> c = ntfs_get_nr_significant_bytes n \<and> pos + c \<le> Suc mx \<and>
         mp_decode (take c (drop pos buf')) = n)"
proof (cases "pos + length (sig_bytes n) \<le> Suc mx")
  case True
  have "take (length (sig_bytes n)) (drop pos (put buf pos (sig_bytes n))) = sig_bytes n"
    using True assms(2) by (simp add: put_def)
  then show ?thesis
    using write_significant_bytes_fits [OF True assms(2)] True assms kept_put [OF True assms(2)]
    by (simp add: nr_significant_bytes_eq sig_bytes_decode)
next
  case False
  then have "Suc mx < pos + length (sig_bytes n)" by simp
  from write_significant_bytes_nospace [OF this assms(2)] this show ?thesis
    by (auto simp: nr_significant_bytes_eq)
qed

theorem write_significant_bytes_correct_witness:
  "\<exists>buf' r. ntfs_write_significant_bytes [0, 0, 0, 0] 1 3 300 = Ok (buf', r) \<and>
    kept [0, 0, 0, 0] 1 3 buf' \<and> r \<noteq> None"
proof -
  have "in_s64 300" by (simp add: in_s64_def)
  moreover have "ntfs_get_nr_significant_bytes 300 \<le> 2"
    by (simp add: nr_significant_bytes_eq sig_bytes_minimal fits_def)
  ultimately show ?thesis
    using write_significant_bytes_correct [of 300 3 "[0, 0, 0, 0]" 1] by (auto split: option.splits)
qed

section \<open>The contract of the number encoding\<close>

text \<open>
  What the mapping pairs code relies on: every number of the domain has an encoding of one to
  eight bytes, which decodes to the number.
\<close>

locale signed_codec =
  fixes enc :: "int \<Rightarrow> u8 list" and dec :: "u8 list \<Rightarrow> int" and dm :: "int \<Rightarrow> bool"
  assumes dec_enc: "dm n \<Longrightarrow> dec (enc n) = n"
    and enc_min: "dm n \<Longrightarrow> 1 \<le> length (enc n)"
    and enc_max: "dm n \<Longrightarrow> length (enc n) \<le> 8"
begin

lemma enc_inj: "dm n \<Longrightarrow> dm m \<Longrightarrow> enc n = enc m \<Longrightarrow> n = m"
  using dec_enc by metis

lemma enc_nonempty: "dm n \<Longrightarrow> enc n \<noteq> []"
  using enc_min by fastforce

lemma enc_nibble: "dm n \<Longrightarrow> 0 < length (enc n) \<and> length (enc n) < 16"
  using enc_min enc_max by (fastforce simp: Suc_le_eq)

text \<open>A number is read back from the front of any buffer its encoding starts.\<close>

lemma dec_front: "dm n \<Longrightarrow> dec (take (length (enc n)) (enc n @ rest)) = n"
  by (simp add: dec_enc)

lemma dec_second:
  "dm n \<Longrightarrow> dm m \<Longrightarrow>
    dec (take (length (enc m)) (drop (length (enc n)) (enc n @ enc m @ rest))) = m"
  by (simp add: dec_enc)

end

interpretation sb: signed_codec sig_bytes mp_decode in_s64
  by unfold_locales (simp_all add: sig_bytes_decode sig_bytes_length [simplified])

end
