(* ===== verification/Ntfs_Volume.thy ===== *)
theory Ntfs_Volume
  imports Ntfs_Prelude
begin

text \<open>
  The in-memory super block (\<^verbatim>\<open>ntfs_volume\<close> of \<^verbatim>\<open>ntfs/volume.h\<close>): device and mount settings,
  the geometry from the boot sector, the tables loaded from the system files and the
  positions of the allocators. Unsigned fields are \<open>nat\<close>, signed ones \<open>int\<close>; the pointers to
  inodes, locks and the NLS table are not part of the record. \<open>sb_blocksize\<close> and
  \<open>sb_blocksize_bits\<close> are the two fields of the VFS super block the driver reads.
\<close>

datatype nv_flag =
    NV_Errors | NV_ShowSystemFiles | NV_CaseSensitive | NV_LogFileEmpty
  | NV_QuotaOutOfDate | NV_UsnJrnlStamped | NV_SparseEnabled

text \<open>An entry of the attribute definition table (\<^verbatim>\<open>ATTR_DEF\<close> of \<^verbatim>\<open>layout.h\<close>).\<close>

record attr_def =
  ad_type :: nat
  ad_flags :: nat
  ad_min_size :: int
  ad_max_size :: int

record ntfs_volume =
  sb_blocksize :: nat
  sb_blocksize_bits :: nat
  nr_blocks :: int
  vol_nv_flags :: "nv_flag list"
  uid :: nat
  gid :: nat
  fmask :: nat
  dmask :: nat
  mft_zone_multiplier :: nat
  on_errors :: nat
  sector_size :: nat
  sector_size_bits :: nat
  cluster_size :: nat
  cluster_size_mask :: nat
  cluster_size_bits :: nat
  mft_record_size :: nat
  mft_record_size_mask :: nat
  mft_record_size_bits :: nat
  index_record_size :: nat
  index_record_size_mask :: nat
  index_record_size_bits :: nat
  nr_clusters :: int
  mft_lcn :: int
  mftmirr_lcn :: int
  serial_no :: nat
  upcase :: "u16 list"
  attrdef :: "attr_def list"
  mft_data_pos :: int
  mft_zone_start :: int
  mft_zone_end :: int
  mft_zone_pos :: int
  data1_zone_pos :: int
  data2_zone_pos :: int
  mftmirr_size :: nat
  vol_flags :: nat
  major_ver :: nat
  minor_ver :: nat

text \<open>The generated accessors \<^verbatim>\<open>NVolFoo\<close>, \<^verbatim>\<open>NVolSetFoo\<close> and \<^verbatim>\<open>NVolClearFoo\<close>.\<close>

definition NVol :: "nv_flag \<Rightarrow> ntfs_volume \<Rightarrow> bool" where
  "NVol f vol \<longleftrightarrow> f \<in> set (vol_nv_flags vol)"

definition NVolSet :: "nv_flag \<Rightarrow> ntfs_volume \<Rightarrow> ntfs_volume" where
  "NVolSet f vol = vol\<lparr>vol_nv_flags := List.insert f (vol_nv_flags vol)\<rparr>"

definition NVolClear :: "nv_flag \<Rightarrow> ntfs_volume \<Rightarrow> ntfs_volume" where
  "NVolClear f vol = vol\<lparr>vol_nv_flags := removeAll f (vol_nv_flags vol)\<rparr>"

lemma NVol_set [simp]: "NVol f (NVolSet g vol) \<longleftrightarrow> f = g \<or> NVol f vol"
  by (auto simp: NVol_def NVolSet_def)

lemma NVol_clear [simp]: "NVol f (NVolClear g vol) \<longleftrightarrow> f \<noteq> g \<and> NVol f vol"
  by (auto simp: NVol_def NVolClear_def)

text \<open>A volume as it is just after allocation, all fields zero.\<close>

definition zero_volume :: ntfs_volume where
  "zero_volume =
     \<lparr>sb_blocksize = 512, sb_blocksize_bits = 9, nr_blocks = 0, vol_nv_flags = [], uid = 0,
      gid = 0, fmask = 0, dmask = 0, mft_zone_multiplier = 0, on_errors = 0, sector_size = 0,
      sector_size_bits = 0, cluster_size = 0, cluster_size_mask = 0, cluster_size_bits = 0,
      mft_record_size = 0, mft_record_size_mask = 0, mft_record_size_bits = 0,
      index_record_size = 0, index_record_size_mask = 0, index_record_size_bits = 0,
      nr_clusters = 0, mft_lcn = 0, mftmirr_lcn = 0, serial_no = 0, upcase = [], attrdef = [],
      mft_data_pos = 0, mft_zone_start = 0, mft_zone_end = 0, mft_zone_pos = 0,
      data1_zone_pos = 0, data2_zone_pos = 0, mftmirr_size = 0, vol_flags = 0, major_ver = 0,
      minor_ver = 0\<rparr>"

end
