(* ===== verification/Ntfs_Mapping_Pairs.thy ===== *)
theory Ntfs_Mapping_Pairs
  imports Ntfs_Runlist_Merge Ntfs_Signed_Bytes Ntfs_Volume
begin

text \<open>
  The on-disk form of a runlist, the mapping pairs array (\<^verbatim>\<open>ntfs/runlist.c\<close>): the size
  calculation, the builder and the decompressor. Each run is a header byte (low nibble: number of length bytes,
  high nibble: number of bytes of the change in lcn), the length and the change in lcn.
\<close>

section \<open>Positioning and capping\<close>

text \<open>Skip to the element that contains \<open>v\<close>.\<close>

fun rl_skip :: "runlist \<Rightarrow> int \<Rightarrow> runlist result" where
  "rl_skip [] v = Oob"
| "rl_skip (e # rest) v =
     (if rl_len e \<noteq> 0 then
        (case rest of
           [] \<Rightarrow> Oob
         | e1 # _ \<Rightarrow> if v \<ge> rl_vcn e1 then rl_skip rest v else Ok (e # rest))
      else Ok (e # rest))"

text \<open>
  The length of a run capped at \<^verbatim>\<open>last_vcn\<close>, and whether this is the last run. The following
  element is read only when a last vcn is given.
\<close>

definition cap_run :: "runlist_element \<Rightarrow> runlist \<Rightarrow> int \<Rightarrow> (int \<times> bool) result" where
  "cap_run e rest last_vcn =
     (if last_vcn \<ge> 0 then
        bind_result (rd rest 0) (\<lambda>e1.
          if rl_vcn e1 > last_vcn then
            (let s1 = s64 (last_vcn + 1) in
             if rl_vcn e1 > s1 then Ok (s64 (s1 - rl_vcn e), True) else Ok (rl_len e, True))
          else Ok (rl_len e, False))
      else Ok (rl_len e, False))"

definition bad_run :: "runlist_element \<Rightarrow> bool" where
  "bad_run e \<longleftrightarrow> rl_len e < 0 \<or> rl_lcn e < LCN_HOLE"

definition bad_run_errno :: "runlist_element \<Rightarrow> errno" where
  "bad_run_errno e = (if rl_lcn e = LCN_RL_NOT_MAPPED then EINVAL else EIO)"

section \<open>Size of the array\<close>

fun mp_size_loop :: "bool \<Rightarrow> runlist \<Rightarrow> int \<Rightarrow> bool \<Rightarrow> int \<Rightarrow> nat \<Rightarrow> nat result" where
  "mp_size_loop old [] last_vcn the_end prev_lcn rls = Oob"
| "mp_size_loop old (e # rest) last_vcn the_end prev_lcn rls =
     (if rl_len e = 0 \<or> the_end then Ok rls
      else if bad_run e then Error (bad_run_errno e)
      else bind_result (cap_run e rest last_vcn) (\<lambda>(len, the_end).
        let rls = rls + 1 + ntfs_get_nr_significant_bytes len in
        if rl_lcn e \<ge> 0 \<or> old then
          mp_size_loop old rest last_vcn the_end (rl_lcn e)
            (rls + ntfs_get_nr_significant_bytes (s64 (rl_lcn e - prev_lcn)))
        else mp_size_loop old rest last_vcn the_end prev_lcn rls))"

definition ntfs_get_size_for_mapping_pairs ::
  "ntfs_volume \<Rightarrow> runlist option \<Rightarrow> int \<Rightarrow> int \<Rightarrow> nat result" where
  "ntfs_get_size_for_mapping_pairs vol rlo first_vcn last_vcn =
     (let old = major_ver vol < 3 in
      if first_vcn < 0 \<or> last_vcn < - 1 \<or> (last_vcn \<ge> 0 \<and> first_vcn > last_vcn) then Bug
      else case rlo of
        None \<Rightarrow> if first_vcn \<noteq> 0 \<or> last_vcn > 0 then Bug else Ok 1
      | Some rl \<Rightarrow>
          bind_result (rl_skip rl first_vcn) (\<lambda>rl.
          bind_result (rd rl 0) (\<lambda>e.
          if (rl_len e = 0 \<and> first_vcn > rl_vcn e) \<or> first_vcn < rl_vcn e then Error EINVAL
          else if first_vcn > rl_vcn e then
            (if bad_run e then Error (bad_run_errno e)
             else bind_result (cap_run e (tl rl) last_vcn) (\<lambda>(len, the_end).
               let delta = s64 (first_vcn - rl_vcn e);
                   rls = 1 + 1 + ntfs_get_nr_significant_bytes (s64 (len - delta)) in
               if rl_lcn e \<ge> 0 \<or> old then
                 (let prev_lcn = (if rl_lcn e \<ge> 0 then s64 (rl_lcn e + delta) else rl_lcn e) in
                  mp_size_loop old (tl rl) last_vcn the_end prev_lcn
                    (rls + ntfs_get_nr_significant_bytes prev_lcn))
               else mp_size_loop old (tl rl) last_vcn the_end 0 rls))
          else mp_size_loop old rl last_vcn False 0 1)))"

section \<open>Building the array\<close>

definition mp_header :: "nat \<Rightarrow> nat \<Rightarrow> u8" where
  "mp_header lcn_len len_len = push_bit 4 (of_nat lcn_len) OR of_nat len_len"

text \<open>
  Write one run at \<open>pos\<close>: the length, the change in lcn unless it is left out, and last the
  header byte. The result is the position of the next run, or \<open>None\<close> when the run does not
  fit in front of a terminator byte.
\<close>

definition mp_put_run ::
  "u8 list \<Rightarrow> nat \<Rightarrow> nat \<Rightarrow> int \<Rightarrow> int option \<Rightarrow> (u8 list \<times> nat option) result" where
  "mp_put_run buf pos mx len dlcn =
     bind_result (ntfs_write_significant_bytes buf (pos + 1) mx len) (\<lambda>(buf, r1).
       case r1 of
         None \<Rightarrow> Ok (buf, None)
       | Some len_len \<Rightarrow>
           bind_result
             (case dlcn of
                None \<Rightarrow> Ok (buf, Some 0)
              | Some d \<Rightarrow> ntfs_write_significant_bytes buf (pos + 1 + len_len) mx d)
             (\<lambda>(buf, r2).
               case r2 of
                 None \<Rightarrow> Ok (buf, None)
               | Some lcn_len \<Rightarrow>
                   (let dst_next = pos + len_len + lcn_len + 1 in
                    if dst_next > mx then Ok (buf, None)
                    else bind_result (wr buf pos (mp_header lcn_len len_len))
                           (\<lambda>buf. Ok (buf, Some dst_next)))))"

text \<open>
  The loop over the full runs. The result holds the buffer, the position of the terminator
  byte, the vcn of the element the loop stopped at and the error number.
\<close>

fun mp_build_loop ::
  "bool \<Rightarrow> u8 list \<Rightarrow> nat \<Rightarrow> nat \<Rightarrow> runlist \<Rightarrow> int \<Rightarrow> bool \<Rightarrow> int \<Rightarrow>
   (u8 list \<times> nat \<times> int \<times> errno option) result" where
  "mp_build_loop old buf pos mx [] last_vcn the_end prev_lcn = Oob"
| "mp_build_loop old buf pos mx (e # rest) last_vcn the_end prev_lcn =
     (if rl_len e = 0 \<or> the_end then Ok (buf, pos, rl_vcn e, None)
      else if bad_run e then Error (bad_run_errno e)
      else bind_result (cap_run e rest last_vcn) (\<lambda>(len, the_end).
        let store = (rl_lcn e \<ge> 0 \<or> old) in
        bind_result (mp_put_run buf pos mx len
            (if store then Some (s64 (rl_lcn e - prev_lcn)) else None)) (\<lambda>(buf, r).
          case r of
            None \<Rightarrow> Ok (buf, pos, rl_vcn e, Some ENOSPC)
          | Some dst_next \<Rightarrow>
              mp_build_loop old buf dst_next mx rest last_vcn the_end
                (if store then rl_lcn e else prev_lcn))))"

text \<open>The end of the builder: set the stop vcn and add the terminator byte.\<close>

definition mp_finish ::
  "u8 list \<times> nat \<times> int \<times> errno option \<Rightarrow> (u8 list \<times> int \<times> errno option) result" where
  "mp_finish = (\<lambda>(buf, pos, stop, err). bind_result (wr buf pos 0) (\<lambda>buf. Ok (buf, stop, err)))"

definition ntfs_mapping_pairs_build ::
  "ntfs_volume \<Rightarrow> u8 list \<Rightarrow> nat \<Rightarrow> runlist option \<Rightarrow> int \<Rightarrow> int \<Rightarrow>
   (u8 list \<times> int \<times> errno option) result" where
  "ntfs_mapping_pairs_build vol buf dst_len rlo first_vcn last_vcn =
     (let old = major_ver vol < 3 in
      if first_vcn < 0 \<or> last_vcn < - 1 \<or> (last_vcn \<ge> 0 \<and> first_vcn > last_vcn) \<or> dst_len < 1
      then Bug
      else case rlo of
        None \<Rightarrow>
          if first_vcn \<noteq> 0 \<or> last_vcn > 0 then Bug
          else bind_result (wr buf 0 0) (\<lambda>buf. Ok (buf, 0, None))
      | Some rl \<Rightarrow>
          bind_result (rl_skip rl first_vcn) (\<lambda>rl.
          bind_result (rd rl 0) (\<lambda>e.
          if (rl_len e = 0 \<and> first_vcn > rl_vcn e) \<or> first_vcn < rl_vcn e then Error EINVAL
          else let mx = dst_len - 1 in
          if first_vcn > rl_vcn e then
            (if bad_run e then Error (bad_run_errno e)
             else bind_result (cap_run e (tl rl) last_vcn) (\<lambda>(len, the_end).
               let delta = s64 (first_vcn - rl_vcn e);
                   store = (rl_lcn e \<ge> 0 \<or> old);
                   lcn = (if rl_lcn e \<ge> 0 then s64 (rl_lcn e + delta) else rl_lcn e) in
               bind_result (mp_put_run buf 0 mx (s64 (len - delta))
                   (if store then Some lcn else None)) (\<lambda>(buf, r).
                 case r of
                   None \<Rightarrow> mp_finish (buf, 0, rl_vcn e, Some ENOSPC)
                 | Some dst_next \<Rightarrow>
                     bind_result (mp_build_loop old buf dst_next mx (tl rl) last_vcn the_end
                         (if store then lcn else 0)) mp_finish)))
          else bind_result (mp_build_loop old buf 0 mx rl last_vcn False 0) mp_finish)))"

section \<open>Decompressing the array\<close>

text \<open>
  A non-resident attribute record: its bytes from the start of the record to the end of the
  memory it lies in, and the header fields the decompressor uses.
\<close>

record nr_attr =
  na_mem :: "u8 list"
  na_length :: nat
  na_mp_offset :: nat
  na_lowest_vcn :: int
  na_highest_vcn :: int
  na_allocated_size :: int

text \<open>Grow the runlist buffer by one page when three more elements would not fit.\<close>

definition mp_grow :: "(nat \<Rightarrow> bool) \<Rightarrow> nat \<Rightarrow> nat \<Rightarrow> nat result" where
  "mp_grow malloc_ok rlpos rlsize =
     (if (rlpos + 3) * 24 > rlsize then
        (if malloc_ok (rlsize + PAGE_SIZE) then Ok (rlsize + PAGE_SIZE) else Error ENOMEM)
      else Ok rlsize)"

text \<open>The length and the lcn of the run whose header byte \<open>h\<close> is at \<open>pos\<close>.\<close>

definition mp_run_length :: "u8 list \<Rightarrow> nat \<Rightarrow> nat \<Rightarrow> u8 \<Rightarrow> int result" where
  "mp_run_length mem aend pos h =
     (let b = unat (h AND 15) in
      if b = 0 then Error EIO
      else if pos + b > aend then Error EIO
      else bind_result (rd_bytes mem (pos + 1) b) (\<lambda>bs.
        if mp_decode bs < 0 then Error EIO else Ok (mp_decode bs)))"

definition mp_run_lcn :: "u8 list \<Rightarrow> nat \<Rightarrow> nat \<Rightarrow> u8 \<Rightarrow> int \<Rightarrow> (int \<times> int) result" where
  "mp_run_lcn mem aend pos h lcn =
     (let b2 = unat (h AND 15); l = unat (drop_bit 4 h AND 15) in
      if l = 0 then Ok (LCN_HOLE, lcn)
      else if pos + b2 + l > aend then Error EIO
      else bind_result (rd_bytes mem (pos + b2 + 1) l) (\<lambda>bs.
        let lcn = s64 (lcn + mp_decode bs) in
        if lcn < - 1 then Error EIO else Ok (lcn, lcn)))"

function mp_loop ::
  "(nat \<Rightarrow> bool) \<Rightarrow> u8 list \<Rightarrow> nat \<Rightarrow> nat \<Rightarrow> int \<Rightarrow> int \<Rightarrow> runlist \<Rightarrow> nat \<Rightarrow>
   (nat \<times> int \<times> runlist) result" where
  "mp_loop malloc_ok mem aend pos vcn lcn rl rlsize =
     (if pos \<ge> aend then Ok (pos, vcn, rl)
      else bind_result (rd mem pos) (\<lambda>h.
        if h = 0 then Ok (pos, vcn, rl)
        else bind_result (mp_grow malloc_ok (length rl) rlsize) (\<lambda>rlsize.
          bind_result (mp_run_length mem aend pos h) (\<lambda>len.
          bind_result (mp_run_lcn mem aend pos h lcn) (\<lambda>(run_lcn, lcn).
            if length rl \<ge> 65535 then Oob
            else mp_loop malloc_ok mem aend
              (pos + unat (h AND 15) + unat (drop_bit 4 h AND 15) + 1)
              (s64 (vcn + len)) lcn (rl @ [mk_rle vcn run_lcn len]) rlsize)))))"
  by pat_completeness auto
termination
  by (relation "measure (\<lambda>(malloc_ok, mem, aend, pos, vcn, lcn, rl, rlsize). aend - pos)") auto

declare mp_loop.simps [simp del]

text \<open>
  The checks behind the loop and the last elements: the not yet mapped rest of the attribute
  when more extents follow, and the terminator.
\<close>

definition mp_terminate :: "ntfs_volume \<Rightarrow> nr_attr \<Rightarrow> int \<Rightarrow> runlist \<Rightarrow> runlist result" where
  "mp_terminate vol a vcn rl =
     (let high = na_highest_vcn a in
      if high \<noteq> 0 \<and> s64 (vcn - 1) \<noteq> high then Error EIO
      else if na_lowest_vcn a = 0 then
        (let max_cluster =
               s64 (s64 (na_allocated_size a + int (cluster_size vol) - 1) div
                 2 ^ cluster_size_bits vol - 1) in
         if high \<noteq> 0 \<and> high < max_cluster then
           (let n = s64 (max_cluster - high) in
            Ok (rl @ [mk_rle vcn LCN_RL_NOT_MAPPED n, mk_rle (s64 (vcn + n)) LCN_ENOENT 0]))
         else if high \<noteq> 0 \<and> high > max_cluster then Error EIO
         else Ok (rl @ [mk_rle vcn LCN_ENOENT 0]))
      else Ok (rl @ [mk_rle vcn LCN_RL_NOT_MAPPED 0]))"

text \<open>
  The decompressor without the merge: \<open>Ok None\<close> when the array is valid but empty (the caller
  keeps its old runlist), otherwise the new runlist.
\<close>

definition mp_decompress :: "(nat \<Rightarrow> bool) \<Rightarrow> ntfs_volume \<Rightarrow> nr_attr \<Rightarrow> runlist option result" where
  "mp_decompress malloc_ok vol a =
     (let vcn = na_lowest_vcn a; pos = na_mp_offset a; aend = na_length a; mem = na_mem a in
      if pos > aend then Error EIO
      else bind_result (if vcn = 0 then bind_result (rd mem pos) (\<lambda>h. Ok (h = 0)) else Ok False) (\<lambda>empty.
        if empty then Ok None
        else if \<not> malloc_ok PAGE_SIZE then Error ENOMEM
        else let rl = (if vcn \<noteq> 0 then [mk_rle 0 LCN_RL_NOT_MAPPED vcn] else []) in
          bind_result (mp_loop malloc_ok mem aend pos vcn 0 rl PAGE_SIZE) (\<lambda>(pos, vcn, rl).
            if pos \<ge> aend then Error EIO
            else bind_result (mp_terminate vol a vcn rl) (\<lambda>rl. Ok (Some rl)))))"

text \<open>The decompressor: a new runlist is merged into the old one, if there is one.\<close>

definition ntfs_mapping_pairs_decompress ::
  "(nat \<Rightarrow> bool) \<Rightarrow> rl_mem \<Rightarrow> ntfs_volume \<Rightarrow> nr_attr \<Rightarrow> runlist option \<Rightarrow> runlist option result" where
  "ntfs_mapping_pairs_decompress malloc_ok mem vol a old_rl =
     bind_result (mp_decompress malloc_ok vol a) (\<lambda>rlo.
       case rlo of
         None \<Rightarrow> Ok old_rl
       | Some rl \<Rightarrow>
           (case old_rl of
              None \<Rightarrow> Ok (Some rl)
            | Some old \<Rightarrow> ntfs_runlists_merge mem (Some old) (Some rl)))"

section \<open>The byte string of a list of runs\<close>

text \<open>
  What the array is meant to hold: for each run its length and its lcn, relative to the
  previous one; a hole has no lcn on NTFS 3.0 and later.
\<close>

definition run_bytes :: "bool \<Rightarrow> int \<Rightarrow> int \<Rightarrow> int \<Rightarrow> u8 list" where
  "run_bytes old prev len lcn =
     (if lcn \<ge> 0 \<or> old then
        mp_header (length (sig_bytes (lcn - prev))) (length (sig_bytes len)) #
          sig_bytes len @ sig_bytes (lcn - prev)
      else mp_header 0 (length (sig_bytes len)) # sig_bytes len)"

fun mp_enc :: "bool \<Rightarrow> int \<Rightarrow> (int \<times> int) list \<Rightarrow> u8 list" where
  "mp_enc old prev [] = []"
| "mp_enc old prev ((len, lcn) # rs) =
     run_bytes old prev len lcn @ mp_enc old (if lcn \<ge> 0 \<or> old then lcn else prev) rs"

text \<open>The runs of a runlist between two vcns, the first and the last one trimmed.\<close>

fun rl_runs :: "int \<Rightarrow> int \<Rightarrow> runlist \<Rightarrow> (int \<times> int) list" where
  "rl_runs f l [] = []"
| "rl_runs f l (e # rest) =
     (if rl_len e = 0 then []
      else let a = max f (rl_vcn e);
               b = (if l \<ge> 0 then min (l + 1) (rl_vcn e + rl_len e) else rl_vcn e + rl_len e);
               lcn = (if rl_lcn e \<ge> 0 then rl_lcn e + (a - rl_vcn e) else rl_lcn e)
           in (if a < b then [(b - a, lcn)] else []) @ rl_runs f l rest)"

text \<open>The elements of a list of runs that starts at \<open>v\<close>.\<close>

fun runs_rl :: "int \<Rightarrow> (int \<times> int) list \<Rightarrow> runlist" where
  "runs_rl v [] = []"
| "runs_rl v ((len, lcn) # rs) = mk_rle v lcn len # runs_rl (v + len) rs"

fun rl_mapped :: "runlist \<Rightarrow> bool" where
  "rl_mapped [] \<longleftrightarrow> True"
| "rl_mapped (e # rest) \<longleftrightarrow> rl_len e = 0 \<or> (LCN_HOLE \<le> rl_lcn e \<and> rl_mapped rest)"

lemma rl_runs_start:
  "rl_chain v rl \<Longrightarrow> f \<le> v \<Longrightarrow> rl_runs f l rl = rl_runs v l rl"
proof (induction rl arbitrary: v f)
  case (Cons e rest)
  show ?case
  proof (cases "rl_len e = 0")
    case False
    with Cons.prems have c: "rl_chain (v + rl_len e) rest" and e: "rl_vcn e = v" "0 < rl_len e"
      by auto
    have "rl_runs f l rest = rl_runs (v + rl_len e) l rest"
      and "rl_runs v l rest = rl_runs (v + rl_len e) l rest"
      using Cons.IH [OF c, of f] Cons.IH [OF c, of v] Cons.prems(2) e(2) by simp_all
    with e Cons.prems(2) show ?thesis by (simp add: Let_def)
  qed simp
qed simp

lemma rl_runs_beyond:
  "rl_chain v rl \<Longrightarrow> 0 \<le> l \<Longrightarrow> l < v \<Longrightarrow> rl_runs f l rl = []"
proof (induction rl arbitrary: v)
  case (Cons e rest)
  show ?case
  proof (cases "rl_len e = 0")
    case False
    with Cons.prems have "rl_chain (v + rl_len e) rest" and "rl_vcn e = v" "0 < rl_len e"
      by auto
    with Cons.IH Cons.prems show ?thesis by (auto simp: Let_def)
  qed simp
qed simp

lemma rl_runs_step:
  assumes "rl_chain v (e # rest)" and "rl_len e \<noteq> 0" and "l < 0 \<or> v \<le> l"
  shows "rl_runs v l (e # rest) =
    (if l \<ge> 0 \<and> v + rl_len e > l then [(l + 1 - v, rl_lcn e)]
     else (rl_len e, rl_lcn e) # rl_runs (v + rl_len e) l rest)"
proof -
  have c: "rl_chain (v + rl_len e) rest" and e: "rl_vcn e = v" "0 < rl_len e"
    using assms by auto
  have "rl_runs v l rest = rl_runs (v + rl_len e) l rest"
    using rl_runs_start [OF c, of v] e by simp
  moreover have "l \<ge> 0 \<and> v + rl_len e > l \<Longrightarrow> rl_runs (v + rl_len e) l rest = []"
    using rl_runs_beyond [OF c] by simp
  ultimately show ?thesis using e assms(2,3) by (auto simp: Let_def)
qed

section \<open>Size and builder agree\<close>

lemma cap_run_eq:
  assumes "rl_chain v (e # rest)" and "rl_len e \<noteq> 0" and "0 \<le> v" and "l < 0 \<or> v \<le> l"
  shows "cap_run e rest l =
    Ok (if l \<ge> 0 \<and> v + rl_len e > l then (l + 1 - v, True) else (rl_len e, False))"
proof -
  have c: "rl_chain (v + rl_len e) rest" and e: "rl_vcn e = v" "0 < rl_len e"
    using assms by auto
  obtain e1 r where r: "rest = e1 # r" and e1: "rl_vcn e1 = v + rl_len e"
    "v + rl_len e < 9223372036854775808" using c by (cases rest) auto
  show ?thesis
  proof (cases "l \<ge> 0 \<and> v + rl_len e > l")
    case True
    then have "s64 (l + 1) = l + 1" "s64 (l + 1 - v) = l + 1 - v"
      using e1(2) assms(3,4) by (auto intro!: s64_id)
    with True r e1(1) e(1) show ?thesis by (auto simp: cap_run_def Let_def)
  next
    case False
    with r e1(1) show ?thesis by (auto simp: cap_run_def)
  qed
qed

lemma mapped_not_bad:
  "rl_chain v (e # rest) \<Longrightarrow> rl_mapped (e # rest) \<Longrightarrow> rl_len e \<noteq> 0 \<Longrightarrow> \<not> bad_run e"
  by (auto simp: bad_run_def)

lemma length_run_bytes:
  "length (run_bytes old prev len lcn) =
     1 + length (sig_bytes len) + (if lcn \<ge> 0 \<or> old then length (sig_bytes (lcn - prev)) else 0)"
  by (simp add: run_bytes_def)

lemma s64_lcn_delta:
  "- 1 \<le> lcn \<Longrightarrow> lcn < 9223372036854775807 \<Longrightarrow> - 1 \<le> prev \<Longrightarrow> prev < 9223372036854775807 \<Longrightarrow>
   s64 (lcn - prev) = lcn - prev"
  by (rule s64_id) auto

lemma mp_size_loop_eq:
  assumes "rl_chain v rl" and "rl_mapped rl" and "0 \<le> v" and "\<not> te \<Longrightarrow> l < 0 \<or> v \<le> l"
    and "- 1 \<le> prev" and "prev < 9223372036854775807"
  shows "mp_size_loop old rl l te prev n =
    Ok (n + length (mp_enc old prev (if te then [] else rl_runs v l rl)))"
  using assms
proof (induction rl arbitrary: v te prev n)
  case (Cons e rest)
  show ?case
  proof (cases "rl_len e = 0 \<or> te")
    case False
    then have len: "rl_len e \<noteq> 0" and te: "\<not> te" by auto
    with Cons.prems have c: "rl_chain (v + rl_len e) rest" and e: "rl_vcn e = v" "0 < rl_len e"
      and lcn: "- 1 \<le> rl_lcn e" "rl_lcn e < 9223372036854775807" and m: "rl_mapped rest" by auto
    have cap: "l < 0 \<or> v \<le> l" using Cons.prems(4) te by simp
    define te' where "te' \<longleftrightarrow> l \<ge> 0 \<and> v + rl_len e > l"
    define prev' where "prev' = (if rl_lcn e \<ge> 0 \<or> old then rl_lcn e else prev)"
    have IH: "mp_size_loop old rest l te' prev' k =
      Ok (k + length (mp_enc old prev' (if te' then [] else rl_runs (v + rl_len e) l rest)))" for k
      using c m e Cons.prems(3,5,6) cap lcn by (intro Cons.IH) (auto simp: te'_def prev'_def)
    show ?thesis
      using len te IH lcn Cons.prems(5,6) mapped_not_bad [OF Cons.prems(1,2) len]
      by (cases te'; cases "rl_lcn e \<ge> 0 \<or> old")
        (simp_all add: rl_runs_step [OF Cons.prems(1) len cap]
          cap_run_eq [OF Cons.prems(1) len Cons.prems(3) cap] length_run_bytes
          nr_significant_bytes_eq s64_lcn_delta Let_def te'_def [symmetric] prev'_def
          del: rl_runs.simps)
  qed auto
qed simp

text \<open>Where the search for the first vcn ends.\<close>

lemma rl_skip_eq:
  assumes "rl_chain v rl" and "v \<le> f" and "f \<le> rl_end rl" and "rl_mapped rl"
  shows "\<exists>e rest. rl_skip rl f = Ok (e # rest) \<and> rl_chain (rl_vcn e) (e # rest) \<and>
    v \<le> rl_vcn e \<and> rl_vcn e \<le> f \<and> (if rl_len e = 0 then f = rl_vcn e else f < rl_vcn e + rl_len e) \<and>
    rl_mapped (e # rest) \<and> (\<forall>l. rl_runs f l rl = rl_runs f l (e # rest)) \<and>
    rl_end (e # rest) = rl_end rl"
  using assms
proof (induction rl arbitrary: v)
  case (Cons e rest)
  show ?case
  proof (cases "rl_len e = 0")
    case True
    with Cons.prems show ?thesis by auto
  next
    case False
    with Cons.prems have c: "rl_chain (v + rl_len e) rest" and e: "rl_vcn e = v" "0 < rl_len e"
      by auto
    obtain e1 r where r: "rest = e1 # r" and e1: "rl_vcn e1 = v + rl_len e"
      using c by (cases rest) auto
    show ?thesis
    proof (cases "v + rl_len e \<le> f")
      case True
      have "rl_runs f l (e # rest) = rl_runs f l rest" for l
        using True e False by (simp add: Let_def)
      moreover have "rl_skip (e # rest) f = rl_skip rest f" using r e1 True False by simp
      ultimately show ?thesis
        using Cons.IH [OF c True] Cons.prems(3,4) False e(2) by fastforce
    next
      case ge: False
      then have "rl_skip (e # rest) f = Ok (e # rest)" using r e1 False by simp
      with ge e Cons.prems show ?thesis by auto
    qed
  qed
qed simp

text \<open>The first element trimmed to start at \<open>f\<close>.\<close>

definition rl_trim :: "int \<Rightarrow> runlist_element \<Rightarrow> runlist_element" where
  "rl_trim f e = mk_rle f (if rl_lcn e \<ge> 0 then rl_lcn e + (f - rl_vcn e) else rl_lcn e)
     (rl_vcn e + rl_len e - f)"

lemma rl_trim_simps [simp]:
  "rl_vcn (rl_trim f e) = f" "rl_len (rl_trim f e) = rl_vcn e + rl_len e - f"
  by (simp_all add: rl_trim_def)

lemma rl_trim_lcn:
  "rl_vcn e \<le> f \<Longrightarrow> rl_lcn (rl_trim f e) \<ge> 0 \<longleftrightarrow> rl_lcn e \<ge> 0"
  "rl_lcn (rl_trim f e) = (if rl_lcn e \<ge> 0 then rl_lcn e + (f - rl_vcn e) else rl_lcn e)"
  by (simp_all add: rl_trim_def)

lemma rl_trim_chain:
  assumes "rl_chain (rl_vcn e) (e # rest)" and "rl_vcn e \<le> f" and "f < rl_vcn e + rl_len e"
    and "rl_len e \<noteq> 0"
  shows "rl_chain f (rl_trim f e # rest)"
proof -
  have "rl_chain (rl_vcn e + rl_len e) rest" "rl_lcn e + rl_len e < 9223372036854775808"
    "- 2 \<le> rl_lcn e" using assms(1,4) by simp_all
  moreover from this have "rl_vcn e + rl_len e < 9223372036854775808" by (cases rest) simp_all
  ultimately show ?thesis using assms(2,3) by (simp add: rl_trim_lcn(2))
qed

lemma rl_trim_runs:
  assumes "rl_vcn e \<le> f" and "f < rl_vcn e + rl_len e" and "rl_len e \<noteq> 0"
  shows "rl_runs f l (rl_trim f e # rest) = rl_runs f l (e # rest)"
  using assms by (simp add: rl_trim_lcn(2) Let_def max_absorb1)

lemma rl_trim_mapped: "rl_vcn e \<le> f \<Longrightarrow> rl_len e \<noteq> 0 \<Longrightarrow>
  rl_mapped (e # rest) \<Longrightarrow> rl_mapped (rl_trim f e # rest)"
  by (simp add: rl_trim_lcn(2))

text \<open>
  The first, partial run is handled as the trimmed element would be in the loop over the full
  runs.
\<close>

lemma cap_run_trim:
  assumes "rl_chain (rl_vcn e) (e # rest)" and "0 \<le> rl_vcn e" and "rl_vcn e \<le> f"
    and "f < rl_vcn e + rl_len e" and "rl_len e \<noteq> 0" and "l < 0 \<or> f \<le> l"
  shows "\<exists>len te. cap_run e rest l = Ok (len, te) \<and>
    cap_run (rl_trim f e) rest l = Ok (s64 (len - s64 (f - rl_vcn e)), te)"
proof -
  have c: "rl_chain (rl_vcn e + rl_len e) rest" using assms(1,5) by simp
  then have v: "rl_vcn e + rl_len e < 9223372036854775808" by (cases rest) simp_all
  have l: "l < 0 \<or> rl_vcn e \<le> l" using assms(3,6) by auto
  have len: "rl_len (rl_trim f e) \<noteq> 0" and sum: "f + rl_len (rl_trim f e) = rl_vcn e + rl_len e"
    using assms(4) by simp_all
  have s: "s64 (x - s64 (f - rl_vcn e)) = x - (f - rl_vcn e)"
    if "f \<le> x + rl_vcn e" "x \<le> rl_len e" for x
    using that assms(2-4) v by (simp add: s64_id)
  let ?te = "l \<ge> 0 \<and> rl_vcn e + rl_len e > l"
  have 1: "cap_run e rest l =
      Ok (if ?te then (l + 1 - rl_vcn e, True) else (rl_len e, False))"
    by (rule cap_run_eq [OF assms(1,5,2) l])
  have "cap_run (rl_trim f e) rest l =
      Ok (if ?te then (l + 1 - f, True) else (rl_len (rl_trim f e), False))"
    using cap_run_eq [OF rl_trim_chain [OF assms(1,3,4,5)] len order_trans [OF assms(2,3)] assms(6)]
    unfolding sum .
  then have "cap_run (rl_trim f e) rest l =
      Ok (s64 ((if ?te then l + 1 - rl_vcn e else rl_len e) - s64 (f - rl_vcn e)), ?te)"
    using s [of "l + 1 - rl_vcn e"] s [of "rl_len e"] assms(4,6) by (cases ?te) auto
  with 1 show ?thesis by (cases ?te) auto
qed

lemma rl_trim_lcn_s64:
  assumes "rl_chain (rl_vcn e) (e # rest)" and "0 \<le> rl_vcn e" and "rl_vcn e \<le> f"
    and "f < rl_vcn e + rl_len e" and "rl_len e \<noteq> 0"
  shows "rl_lcn e \<ge> 0 \<Longrightarrow> s64 (rl_lcn e + s64 (f - rl_vcn e)) = rl_lcn (rl_trim f e)"
    and "\<not> rl_lcn e \<ge> 0 \<Longrightarrow> rl_lcn (rl_trim f e) = rl_lcn e"
    and "s64 (rl_lcn (rl_trim f e)) = rl_lcn (rl_trim f e)"
proof -
  have c: "rl_chain (rl_vcn e + rl_len e) rest" "rl_lcn e + rl_len e < 9223372036854775808"
    "- 2 \<le> rl_lcn e" using assms(1,5) by simp_all
  then have v: "rl_vcn e + rl_len e < 9223372036854775808" by (cases rest) simp_all
  have "s64 (f - rl_vcn e) = f - rl_vcn e"
    by (rule s64_id) (use assms v in simp_all)
  moreover have "rl_lcn e \<ge> 0 \<Longrightarrow> s64 (rl_lcn e + (f - rl_vcn e)) = rl_lcn e + (f - rl_vcn e)"
    by (rule s64_id) (use assms c in simp_all)
  moreover have "\<not> rl_lcn e \<ge> 0 \<Longrightarrow> s64 (rl_lcn e) = rl_lcn e"
    by (rule s64_id) (use c in simp_all)
  ultimately show "rl_lcn e \<ge> 0 \<Longrightarrow> s64 (rl_lcn e + s64 (f - rl_vcn e)) = rl_lcn (rl_trim f e)"
    "\<not> rl_lcn e \<ge> 0 \<Longrightarrow> rl_lcn (rl_trim f e) = rl_lcn e"
    "s64 (rl_lcn (rl_trim f e)) = rl_lcn (rl_trim f e)"
    by (simp_all add: rl_trim_lcn(2))
qed

declare mp_size_loop.simps [simp del]
declare mp_build_loop.simps [simp del]
declare rl_runs.simps [simp del]

lemma get_size_eq:
  assumes "rl_wf rl" and "rl_mapped rl" and "0 \<le> f" and "f \<le> rl_end rl" and "l = - 1 \<or> f \<le> l"
  shows "ntfs_get_size_for_mapping_pairs vol (Some rl) f l =
    Ok (1 + length (mp_enc (major_ver vol < 3) 0 (rl_runs f l rl)))"
proof -
  have l: "l < 0 \<or> f \<le> l" using assms(5) by auto
  let ?old = "major_ver vol < 3"
  obtain e rest where sk: "rl_skip rl f = Ok (e # rest)" and c: "rl_chain (rl_vcn e) (e # rest)"
    and v: "0 \<le> rl_vcn e" "rl_vcn e \<le> f"
    and fin: "if rl_len e = 0 then f = rl_vcn e else f < rl_vcn e + rl_len e"
    and m: "rl_mapped (e # rest)" and runs: "\<And>l. rl_runs f l rl = rl_runs f l (e # rest)"
    using rl_skip_eq [OF assms(1) [unfolded rl_wf_def] assms(3,4,2)] by metis
  have start: "ntfs_get_size_for_mapping_pairs vol (Some rl) f l =
      mp_size_loop ?old ((if f = rl_vcn e then e else rl_trim f e) # rest) l False 0 1"
  proof (cases "f = rl_vcn e")
    case True
    with assms(3,5) sk show ?thesis by (auto simp: ntfs_get_size_for_mapping_pairs_def Let_def)
  next
    case False
    then have lt: "rl_vcn e < f" "rl_len e \<noteq> 0" "f < rl_vcn e + rl_len e"
      using fin v by (auto split: if_splits)
    obtain len te where cap: "cap_run e rest l = Ok (len, te)"
      "cap_run (rl_trim f e) rest l = Ok (s64 (len - s64 (f - rl_vcn e)), te)"
      using cap_run_trim [OF c v lt(3,2) l] by blast
    have "\<not> bad_run e" "\<not> bad_run (rl_trim f e)"
      using mapped_not_bad [OF c m lt(2)] lt(3) v(2) by (auto simp: bad_run_def rl_trim_lcn(2))
    with assms(3,5) sk lt cap show ?thesis
      by (auto simp: ntfs_get_size_for_mapping_pairs_def mp_size_loop.simps(2) Let_def
          rl_trim_lcn(1) rl_trim_lcn_s64 [OF c v lt(3,2)] split: if_splits)
  qed
  also have "\<dots> = Ok (1 + length (mp_enc ?old 0 (rl_runs f l rl)))"
  proof (cases "f = rl_vcn e")
    case True
    with mp_size_loop_eq [OF c m v(1), of False l 0] l runs show ?thesis by simp
  next
    case False
    then have lt: "rl_len e \<noteq> 0" "f < rl_vcn e + rl_len e" using fin by (auto split: if_splits)
    note t = rl_trim_chain [OF c v(2) lt(2,1)] rl_trim_mapped [OF v(2) lt(1) m]
    from mp_size_loop_eq [OF t assms(3), of False l 0] False l runs
    show ?thesis by (simp add: rl_trim_runs [OF v(2) lt(2,1)])
  qed
  finally show ?thesis .
qed

text \<open>One run in the buffer.\<close>

lemma put_put:
  assumes "pos + length as \<le> length buf"
  shows "put (put buf pos as) (pos + length as) bs = put buf pos (as @ bs)"
  using assms by (auto simp: put_def add_ac)

lemma put_header:
  assumes "pos + 1 + length bs \<le> length buf"
  shows "(put buf (pos + 1) bs)[pos := h] = put buf pos (h # bs)"
  using assms by (simp add: put_def list_update_append take_Suc_conv_app_nth upd_conv_take_nth_drop)

lemma mp_put_run_fits:
  assumes "pos + length (run_bytes old prev len lcn) \<le> mx" and "mx < length buf"
  shows "mp_put_run buf pos mx len (if lcn \<ge> 0 \<or> old then Some (lcn - prev) else None) =
    Ok (put buf pos (run_bytes old prev len lcn),
        Some (pos + length (run_bytes old prev len lcn)))"
proof (cases "lcn \<ge> 0 \<or> old")
  case True
  let ?l = "sig_bytes len" and ?d = "sig_bytes (lcn - prev)"
  have n: "pos + 1 + length ?l + length ?d \<le> mx"
    using assms(1) True by (auto simp: length_run_bytes)
  have "ntfs_write_significant_bytes buf (pos + 1) mx len =
      Ok (put buf (pos + 1) ?l, Some (length ?l))"
    using n assms(2) by (intro write_significant_bytes_fits) auto
  moreover have "ntfs_write_significant_bytes (put buf (pos + 1) ?l) (pos + 1 + length ?l) mx
      (lcn - prev) = Ok (put buf (pos + 1) (?l @ ?d), Some (length ?d))"
    using n assms(2) put_put [of "pos + 1" ?l buf ?d]
    by (subst write_significant_bytes_fits) auto
  ultimately show ?thesis
    using True n assms(2)
    by (simp add: mp_put_run_def run_bytes_def put_header [simplified] length_put)
next
  case False
  let ?l = "sig_bytes len"
  have n: "pos + 1 + length ?l \<le> mx"
    using assms(1) False by (auto simp: length_run_bytes)
  have "ntfs_write_significant_bytes buf (pos + 1) mx len =
      Ok (put buf (pos + 1) ?l, Some (length ?l))"
    using n assms(2) by (intro write_significant_bytes_fits) auto
  with False n assms(2) show ?thesis
    by (simp add: mp_put_run_def run_bytes_def put_header [simplified])
qed

lemma kept_length: "kept buf pos mx buf' \<Longrightarrow> length buf' = length buf"
  by (simp add: kept_def)

lemma kept_mono: "kept buf pos' mx buf' \<Longrightarrow> pos \<le> pos' \<Longrightarrow> kept buf pos mx buf'"
  unfolding kept_def by (metis min_absorb1 take_take)

lemma kept_trans: "kept a pos mx b \<Longrightarrow> kept b pos mx c \<Longrightarrow> kept a pos mx c"
  by (simp add: kept_def)

lemma mp_put_run_nospace:
  assumes "mx < pos + length (run_bytes old prev len lcn)" and "mx < length buf"
  shows "\<exists>buf'. mp_put_run buf pos mx len (if lcn \<ge> 0 \<or> old then Some (lcn - prev) else None) =
    Ok (buf', None) \<and> kept buf pos mx buf'"
proof (cases "Suc mx < pos + 1 + length (sig_bytes len)")
  case True
  then obtain buf' where "ntfs_write_significant_bytes buf (pos + 1) mx len = Ok (buf', None)"
    and "kept buf (pos + 1) mx buf'"
    using write_significant_bytes_nospace assms(2) by blast
  then show ?thesis using kept_mono [of buf "pos + 1" mx buf' pos] by (simp add: mp_put_run_def)
next
  case False
  let ?b = "put buf (pos + 1) (sig_bytes len)" and ?d = "sig_bytes (lcn - prev)"
  have w: "ntfs_write_significant_bytes buf (pos + 1) mx len = Ok (?b, Some (length (sig_bytes len)))"
    using False assms(2) by (intro write_significant_bytes_fits) auto
  have k: "kept buf pos mx ?b" and len: "length ?b = length buf"
    using False assms(2) kept_put [of "pos + 1" "sig_bytes len" mx buf]
    by (auto intro: kept_mono [of buf "pos + 1"])
  show ?thesis
  proof (cases "lcn \<ge> 0 \<or> old")
    case hole: False
    with assms(1) w k show ?thesis by (auto simp: mp_put_run_def length_run_bytes)
  next
    case store: True
    let ?p = "pos + 1 + length (sig_bytes len)"
    consider (no) "Suc mx < ?p + length ?d" | (yes) "?p + length ?d \<le> Suc mx" by linarith
    then show ?thesis
    proof cases
      case no
      then obtain buf' where w2: "ntfs_write_significant_bytes ?b ?p mx (lcn - prev) = Ok (buf', None)"
        and "kept ?b ?p mx buf'"
        using write_significant_bytes_nospace [of mx ?p _ ?b] assms(2) len by auto
      then have "kept buf pos mx buf'"
        using kept_trans [OF k] kept_mono [of ?b ?p mx buf' pos] by simp
      with w w2 store show ?thesis by (auto simp: mp_put_run_def)
    next
      case yes
      then have w2: "ntfs_write_significant_bytes ?b ?p mx (lcn - prev) =
          Ok (put ?b ?p ?d, Some (length ?d))"
        using assms(2) len by (intro write_significant_bytes_fits) auto
      have "kept ?b ?p mx (put ?b ?p ?d)" using yes assms(2) len by (intro kept_put) auto
      then have "kept buf pos mx (put ?b ?p ?d)"
        using kept_trans [OF k] kept_mono [of ?b ?p mx "put ?b ?p ?d" pos] by simp
      with w w2 store assms(1) show ?thesis by (auto simp: mp_put_run_def length_run_bytes)
    qed
  qed
qed

text \<open>One step of the loops over the full runs.\<close>

lemma full_run_step:
  assumes c: "rl_chain v (e # rest)" and m: "rl_mapped (e # rest)" and v: "0 \<le> v"
    and cap: "l < 0 \<or> v \<le> l" and len: "rl_len e \<noteq> 0"
  obtains n te rs where "rl_runs v l (e # rest) = (n, rl_lcn e) # rs"
    and "cap_run e rest l = Ok (n, te)" and "rs = (if te then [] else rl_runs (v + rl_len e) l rest)"
    and "rs \<noteq> [] \<Longrightarrow> n = rl_len e" and "l < 0 \<Longrightarrow> \<not> te" and "\<not> te \<Longrightarrow> l < 0 \<or> v + rl_len e \<le> l"
    and "rl_chain (v + rl_len e) rest" and "rl_mapped rest" and "0 \<le> v + rl_len e"
    and "\<not> bad_run e" and "- 1 \<le> rl_lcn e" and "rl_lcn e < 9223372036854775807"
proof -
  define te where "te \<longleftrightarrow> l \<ge> 0 \<and> v + rl_len e > l"
  define n where "n = (if te then l + 1 - v else rl_len e)"
  define rs where "rs = (if te then [] else rl_runs (v + rl_len e) l rest)"
  have "rl_runs v l (e # rest) = (n, rl_lcn e) # rs"
    unfolding rl_runs_step [OF c len cap] by (simp add: te_def n_def rs_def)
  moreover have "cap_run e rest l = Ok (n, te)"
    unfolding cap_run_eq [OF c len v cap] by (simp add: te_def n_def)
  moreover have "rs \<noteq> [] \<Longrightarrow> n = rl_len e" by (auto simp: rs_def n_def)
  moreover have "l < 0 \<Longrightarrow> \<not> te" "\<not> te \<Longrightarrow> l < 0 \<or> v + rl_len e \<le> l" by (auto simp: te_def)
  moreover have "rl_chain (v + rl_len e) rest" "rl_mapped rest" "0 \<le> v + rl_len e"
    "- 1 \<le> rl_lcn e" "rl_lcn e < 9223372036854775807" using c m v len by auto
  ultimately show thesis using that rs_def mapped_not_bad [OF c m len] by blast
qed

definition dlcn :: "bool \<Rightarrow> int \<Rightarrow> int \<Rightarrow> int option" where
  "dlcn old prev lcn = (if lcn \<ge> 0 \<or> old then Some (s64 (lcn - prev)) else None)"

lemma mp_build_loop_step:
  assumes "rl_len e \<noteq> 0" and "\<not> te" and "\<not> bad_run e" and "cap_run e rest l = Ok (n, te')"
    and "mp_put_run buf pos mx n (dlcn old prev (rl_lcn e)) = Ok (buf', r)"
  shows "mp_build_loop old buf pos mx (e # rest) l te prev =
    (case r of
       None \<Rightarrow> Ok (buf', pos, rl_vcn e, Some ENOSPC)
     | Some p \<Rightarrow> mp_build_loop old buf' p mx rest l te' (if rl_lcn e \<ge> 0 \<or> old then rl_lcn e else prev))"
  using assms by (simp add: mp_build_loop.simps(2) dlcn_def)

lemma mp_build_loop_fits:
  assumes "rl_chain v rl" and "rl_mapped rl" and "0 \<le> v" and "\<not> te \<Longrightarrow> l < 0 \<or> v \<le> l"
    and "- 1 \<le> prev" and "prev < 9223372036854775807" and "mx < length buf"
    and "pos + length (mp_enc old prev (if te then [] else rl_runs v l rl)) \<le> mx"
  shows "\<exists>stop. mp_build_loop old buf pos mx rl l te prev =
      Ok (put buf pos (mp_enc old prev (if te then [] else rl_runs v l rl)),
          pos + length (mp_enc old prev (if te then [] else rl_runs v l rl)), stop, None) \<and>
      (l < 0 \<and> \<not> te \<longrightarrow> stop = rl_end rl)"
  using assms
proof (induction rl arbitrary: v te prev buf pos)
  case (Cons e rest)
  show ?case
  proof (cases "rl_len e = 0 \<or> te")
    case True
    then show ?thesis by (auto simp: mp_build_loop.simps rl_runs.simps)
  next
    case False
    then have len: "rl_len e \<noteq> 0" and te: "\<not> te" by auto
    from full_run_step [OF Cons.prems(1-3) Cons.prems(4) [OF te] len]
    obtain n te' rs where runs: "rl_runs v l (e # rest) = (n, rl_lcn e) # rs"
      and cap: "cap_run e rest l = Ok (n, te')" and nb: "\<not> bad_run e"
      and rs: "rs = (if te' then [] else rl_runs (v + rl_len e) l rest)" and "l < 0 \<Longrightarrow> \<not> te'"
      and nxt: "rl_chain (v + rl_len e) rest" "rl_mapped rest" "0 \<le> v + rl_len e"
        "\<not> te' \<Longrightarrow> l < 0 \<or> v + rl_len e \<le> l"
      and lcn: "- 1 \<le> rl_lcn e" "rl_lcn e < 9223372036854775807" by metis
    define prev' where "prev' = (if rl_lcn e \<ge> 0 \<or> old then rl_lcn e else prev)"
    define bs where "bs = run_bytes old prev n (rl_lcn e)"
    have enc: "mp_enc old prev (rl_runs v l (e # rest)) = bs @ mp_enc old prev' rs"
      by (simp add: runs bs_def prev'_def)
    have put: "mp_put_run buf pos mx n (dlcn old prev (rl_lcn e)) =
        Ok (put buf pos bs, Some (pos + length bs))"
      unfolding dlcn_def s64_lcn_delta [OF lcn Cons.prems(5,6)] bs_def
      by (rule mp_put_run_fits) (use Cons.prems(7,8) enc te bs_def in auto)
    have "\<exists>stop. mp_build_loop old (put buf pos bs) (pos + length bs) mx rest l te' prev' =
        Ok (put (put buf pos bs) (pos + length bs) (mp_enc old prev' rs),
            pos + length bs + length (mp_enc old prev' rs), stop, None) \<and>
        (l < 0 \<and> \<not> te' \<longrightarrow> stop = rl_end rest)"
      unfolding rs
      by (rule Cons.IH [OF nxt]) (use Cons.prems(5-8) lcn enc te rs in \<open>auto simp: prev'_def\<close>)
    with mp_build_loop_step [OF len te nb cap put] te len \<open>l < 0 \<Longrightarrow> \<not> te'\<close> Cons.prems(7,8)
    show ?thesis by (auto simp: enc put_put prev'_def)
  qed
qed simp

lemma mp_build_loop_nospace:
  assumes "rl_chain v rl" and "rl_mapped rl" and "0 \<le> v" and "\<not> te \<Longrightarrow> l < 0 \<or> v \<le> l"
    and "- 1 \<le> prev" and "prev < 9223372036854775807" and "mx < length buf" and "pos \<le> mx"
    and "mx < pos + length (mp_enc old prev (if te then [] else rl_runs v l rl))"
  shows "\<exists>rs1 rs2 buf'. (if te then [] else rl_runs v l rl) = rs1 @ rs2 \<and> rs2 \<noteq> [] \<and>
    pos + length (mp_enc old prev rs1) \<le> mx \<and>
    mp_build_loop old buf pos mx rl l te prev =
      Ok (buf', pos + length (mp_enc old prev rs1), v + sum_list (map fst rs1), Some ENOSPC) \<and>
    kept (put buf pos (mp_enc old prev rs1)) (pos + length (mp_enc old prev rs1)) mx buf'"
  using assms
proof (induction rl arbitrary: v te prev buf pos)
  case (Cons e rest)
  have te: "\<not> te" using Cons.prems(8,9) by auto
  have len: "rl_len e \<noteq> 0"
  proof
    assume "rl_len e = 0"
    with Cons.prems(8,9) te show False by (simp add: rl_runs.simps)
  qed
  from full_run_step [OF Cons.prems(1-3) Cons.prems(4) [OF te] len]
  obtain n te' rs where runs: "rl_runs v l (e # rest) = (n, rl_lcn e) # rs"
    and cap: "cap_run e rest l = Ok (n, te')" and nb: "\<not> bad_run e"
    and rs: "rs = (if te' then [] else rl_runs (v + rl_len e) l rest)"
    and n: "rs \<noteq> [] \<Longrightarrow> n = rl_len e"
    and nxt: "rl_chain (v + rl_len e) rest" "rl_mapped rest" "0 \<le> v + rl_len e"
      "\<not> te' \<Longrightarrow> l < 0 \<or> v + rl_len e \<le> l"
    and lcn: "- 1 \<le> rl_lcn e" "rl_lcn e < 9223372036854775807" by metis
  define prev' where "prev' = (if rl_lcn e \<ge> 0 \<or> old then rl_lcn e else prev)"
  define bs where "bs = run_bytes old prev n (rl_lcn e)"
  have enc: "mp_enc old prev (rl_runs v l (e # rest)) = bs @ mp_enc old prev' rs"
    by (simp add: runs bs_def prev'_def)
  have vcn: "rl_vcn e = v" using Cons.prems(1) by simp
  note delta = dlcn_def s64_lcn_delta [OF lcn Cons.prems(5,6)]
  show ?case
  proof (cases "pos + length bs \<le> mx")
    case False
    then obtain buf' where p: "mp_put_run buf pos mx n (dlcn old prev (rl_lcn e)) = Ok (buf', None)"
      and "kept buf pos mx buf'"
      unfolding delta using mp_put_run_nospace [of mx pos old prev n "rl_lcn e" buf] Cons.prems(7)
      by (auto simp: bs_def [symmetric])
    with mp_build_loop_step [OF len te nb cap p] te vcn Cons.prems(8) runs show ?thesis
      by (intro exI [of _ "[]"] exI [of _ "(n, rl_lcn e) # rs"] exI [of _ buf']) simp
  next
    case True
    then have p: "mp_put_run buf pos mx n (dlcn old prev (rl_lcn e)) =
        Ok (put buf pos bs, Some (pos + length bs))"
      unfolding delta bs_def by (rule mp_put_run_fits) (rule Cons.prems(7))
    have "\<exists>rs1 rs2 buf'. rs = rs1 @ rs2 \<and> rs2 \<noteq> [] \<and>
        pos + length bs + length (mp_enc old prev' rs1) \<le> mx \<and>
        mp_build_loop old (put buf pos bs) (pos + length bs) mx rest l te' prev' =
          Ok (buf', pos + length bs + length (mp_enc old prev' rs1),
            v + rl_len e + sum_list (map fst rs1), Some ENOSPC) \<and>
        kept (put (put buf pos bs) (pos + length bs) (mp_enc old prev' rs1))
          (pos + length bs + length (mp_enc old prev' rs1)) mx buf'"
      unfolding rs
      by (rule Cons.IH [OF nxt]) (use Cons.prems(5-9) lcn enc te rs True in \<open>auto simp: prev'_def\<close>)
    then obtain rs1 rs2 buf' where IH: "rs = rs1 @ rs2" "rs2 \<noteq> []"
        "pos + length bs + length (mp_enc old prev' rs1) \<le> mx"
        "mp_build_loop old (put buf pos bs) (pos + length bs) mx rest l te' prev' =
          Ok (buf', pos + length bs + length (mp_enc old prev' rs1),
            v + rl_len e + sum_list (map fst rs1), Some ENOSPC)"
        "kept (put (put buf pos bs) (pos + length bs) (mp_enc old prev' rs1))
          (pos + length bs + length (mp_enc old prev' rs1)) mx buf'" by blast
    then have "mp_enc old prev ((n, rl_lcn e) # rs1) = bs @ mp_enc old prev' rs1" "n = rl_len e"
      using n by (auto simp: bs_def prev'_def)
    with IH mp_build_loop_step [OF len te nb cap p] te runs True Cons.prems(7) show ?thesis
      by (intro exI [of _ "(n, rl_lcn e) # rs1"] exI [of _ rs2] exI [of _ buf'])
        (simp add: put_put prev'_def [symmetric] add_ac)
  qed
qed simp

text \<open>
  The builder is the loop over the full runs on the runlist whose first element is trimmed,
  except for the vcn it stops at when already the first, partial run does not fit.
\<close>

lemma build_start:
  assumes wf: "rl_wf rl" and m: "rl_mapped rl" and f: "0 \<le> f" "f \<le> rl_end rl"
    and l: "l = - 1 \<or> f \<le> l" and n: "1 \<le> dst_len"
  obtains rl' where "rl_chain f rl'" and "rl_mapped rl'" and "rl_runs f l rl' = rl_runs f l rl"
    and "rl_end rl' = rl_end rl"
    and "\<And>b p s r. mp_build_loop (major_ver vol < 3) buf 0 (dst_len - 1) rl' l False 0 = Ok (b, p, s, r) \<Longrightarrow>
      \<exists>s'. ntfs_mapping_pairs_build vol buf dst_len (Some rl) f l = mp_finish (b, p, s', r) \<and>
        (s' = s \<or> r = Some ENOSPC \<and> p = 0)"
proof -
  have l': "l < 0 \<or> f \<le> l" using l by auto
  obtain e rest where sk: "rl_skip rl f = Ok (e # rest)" and c: "rl_chain (rl_vcn e) (e # rest)"
    and v: "0 \<le> rl_vcn e" "rl_vcn e \<le> f"
    and fin: "if rl_len e = 0 then f = rl_vcn e else f < rl_vcn e + rl_len e"
    and me: "rl_mapped (e # rest)" and runs: "\<And>l. rl_runs f l rl = rl_runs f l (e # rest)"
    and ends: "rl_end (e # rest) = rl_end rl"
    using rl_skip_eq [OF wf [unfolded rl_wf_def] f m] by metis
  show thesis
  proof (cases "f = rl_vcn e")
    case True
    with sk f l n have "ntfs_mapping_pairs_build vol buf dst_len (Some rl) f l =
        bind_result (mp_build_loop (major_ver vol < 3) buf 0 (dst_len - 1) (e # rest) l False 0) mp_finish"
      by (auto simp: ntfs_mapping_pairs_build_def Let_def)
    with that [of "e # rest"] c me runs ends True show thesis by auto
  next
    case False
    then have lt: "rl_vcn e < f" "rl_len e \<noteq> 0" "f < rl_vcn e + rl_len e"
      using fin v by (auto split: if_splits)
    obtain len te where cap: "cap_run e rest l = Ok (len, te)"
      "cap_run (rl_trim f e) rest l = Ok (s64 (len - s64 (f - rl_vcn e)), te)"
      using cap_run_trim [OF c v lt(3,2) l'] by blast
    have nb: "\<not> bad_run e" "\<not> bad_run (rl_trim f e)"
      using mapped_not_bad [OF c me lt(2)] lt(3) v(2) by (auto simp: bad_run_def rl_trim_lcn(2))
    have trim: "rl_len (rl_trim f e) \<noteq> 0" using lt by simp
    have "s64 (rl_lcn e) = rl_lcn e" by (rule s64_id) (use c lt in auto)
    note lcn = this rl_trim_lcn(1) [OF v(2)] rl_trim_lcn_s64 [OF c v lt(3,2)]
    have "\<exists>s'. ntfs_mapping_pairs_build vol buf dst_len (Some rl) f l = mp_finish (b, p, s', r) \<and>
        (s' = s \<or> r = Some ENOSPC \<and> p = 0)"
      if loop: "mp_build_loop (major_ver vol < 3) buf 0 (dst_len - 1) (rl_trim f e # rest) l False 0 =
        Ok (b, p, s, r)" for b p s r
      using loop f(1) l n sk lt cap nb(1)
      by (cases "rl_lcn e \<ge> 0"; cases "major_ver vol < 3")
        (auto simp: ntfs_mapping_pairs_build_def Let_def mp_build_loop.simps(2) trim nb(2) lcn
          outcome_simps split: option.splits)
    with that [of "rl_trim f e # rest"] rl_trim_chain [OF c v(2) lt(3,2)]
      rl_trim_mapped [OF v(2) lt(2) me] rl_trim_runs [OF v(2) lt(3,2)] runs ends lt
    show thesis by simp
  qed
qed

lemma build_fits:
  assumes "rl_wf rl" and "rl_mapped rl" and "0 \<le> f" and "f \<le> rl_end rl"
    and "l = - 1 \<or> f \<le> l" and "dst_len \<le> length buf"
    and "length (mp_enc (major_ver vol < 3) 0 (rl_runs f l rl)) < dst_len"
  shows "\<exists>stop. ntfs_mapping_pairs_build vol buf dst_len (Some rl) f l =
      Ok (put buf 0 (mp_enc (major_ver vol < 3) 0 (rl_runs f l rl) @ [0]), stop, None) \<and>
      (l = - 1 \<longrightarrow> stop = rl_end rl)"
proof -
  let ?enc = "mp_enc (major_ver vol < 3) 0 (rl_runs f l rl)"
  have n: "1 \<le> dst_len" using assms(7) by simp
  obtain rl' where c: "rl_chain f rl'" "rl_mapped rl'" and runs: "rl_runs f l rl' = rl_runs f l rl"
    and ends: "rl_end rl' = rl_end rl"
    and b: "\<And>b p s r. mp_build_loop (major_ver vol < 3) buf 0 (dst_len - 1) rl' l False 0 = Ok (b, p, s, r) \<Longrightarrow>
      \<exists>s'. ntfs_mapping_pairs_build vol buf dst_len (Some rl) f l = mp_finish (b, p, s', r) \<and>
        (s' = s \<or> r = Some ENOSPC \<and> p = 0)"
    using build_start [OF assms(1-5) n, of vol buf] by metis
  have "\<exists>stop. mp_build_loop (major_ver vol < 3) buf 0 (dst_len - 1) rl' l False 0 =
      Ok (put buf 0 ?enc, length ?enc, stop, None) \<and> (l < 0 \<longrightarrow> stop = rl_end rl)"
    using mp_build_loop_fits [OF c assms(3), of False l 0 "dst_len - 1" buf 0] assms(5-7) runs ends n
    by auto
  then obtain stop where loop: "mp_build_loop (major_ver vol < 3) buf 0 (dst_len - 1) rl' l False 0 =
      Ok (put buf 0 ?enc, length ?enc, stop, None)" and "l < 0 \<longrightarrow> stop = rl_end rl" by blast
  moreover have "(put buf 0 ?enc)[length ?enc := 0] = put buf 0 (?enc @ [0])"
    using assms(6,7) put_snoc [of 0 ?enc buf 0] by simp
  ultimately show ?thesis
    using b [OF loop] assms(6,7) by (auto simp: mp_finish_def)
qed

lemma build_nospace:
  assumes "rl_wf rl" and "rl_mapped rl" and "0 \<le> f" and "f \<le> rl_end rl"
    and "l = - 1 \<or> f \<le> l" and "1 \<le> dst_len" and "dst_len \<le> length buf"
    and "dst_len \<le> length (mp_enc (major_ver vol < 3) 0 (rl_runs f l rl))"
  shows "\<exists>rs1 rs2 buf' stop. rl_runs f l rl = rs1 @ rs2 \<and> rs2 \<noteq> [] \<and>
    ntfs_mapping_pairs_build vol buf dst_len (Some rl) f l = Ok (buf', stop, Some ENOSPC) \<and>
    length (mp_enc (major_ver vol < 3) 0 rs1) < dst_len \<and>
    take (length (mp_enc (major_ver vol < 3) 0 rs1) + 1) buf' =
      mp_enc (major_ver vol < 3) 0 rs1 @ [0] \<and>
    length buf' = length buf \<and> drop dst_len buf' = drop dst_len buf \<and>
    (rs1 \<noteq> [] \<longrightarrow> stop = f + sum_list (map fst rs1))"
proof -
  let ?old = "major_ver vol < 3"
  obtain rl' where c: "rl_chain f rl'" "rl_mapped rl'" and runs: "rl_runs f l rl' = rl_runs f l rl"
    and b: "\<And>b p s r. mp_build_loop ?old buf 0 (dst_len - 1) rl' l False 0 = Ok (b, p, s, r) \<Longrightarrow>
      \<exists>s'. ntfs_mapping_pairs_build vol buf dst_len (Some rl) f l = mp_finish (b, p, s', r) \<and>
        (s' = s \<or> r = Some ENOSPC \<and> p = 0)"
    using build_start [OF assms(1-6), of vol buf] by metis
  have "\<exists>rs1 rs2 buf'. rl_runs f l rl = rs1 @ rs2 \<and> rs2 \<noteq> [] \<and>
      length (mp_enc ?old 0 rs1) \<le> dst_len - 1 \<and>
      mp_build_loop ?old buf 0 (dst_len - 1) rl' l False 0 =
        Ok (buf', length (mp_enc ?old 0 rs1), f + sum_list (map fst rs1), Some ENOSPC) \<and>
      kept (put buf 0 (mp_enc ?old 0 rs1)) (length (mp_enc ?old 0 rs1)) (dst_len - 1) buf'"
    using mp_build_loop_nospace [OF c assms(3), of False l 0 "dst_len - 1" buf 0] assms(5-8) runs
    by auto
  then obtain rs1 rs2 buf' where rs: "rl_runs f l rl = rs1 @ rs2" "rs2 \<noteq> []"
    and len: "length (mp_enc ?old 0 rs1) \<le> dst_len - 1"
    and loop: "mp_build_loop ?old buf 0 (dst_len - 1) rl' l False 0 =
        Ok (buf', length (mp_enc ?old 0 rs1), f + sum_list (map fst rs1), Some ENOSPC)"
    and k: "kept (put buf 0 (mp_enc ?old 0 rs1)) (length (mp_enc ?old 0 rs1)) (dst_len - 1) buf'"
    by blast
  let ?enc = "mp_enc ?old 0 rs1"
  have lb: "length buf' = length buf" "take (length ?enc) buf' = ?enc" "drop dst_len buf' = drop dst_len buf"
    using k len assms(6,7) by (auto simp: kept_def put_def)
  have "rs1 \<noteq> [] \<Longrightarrow> length ?enc \<noteq> 0" by (cases rs1) (auto simp: run_bytes_def split: if_splits)
  moreover have "take (length ?enc + 1) (buf'[length ?enc := 0]) = ?enc @ [0]"
    using lb len assms(6,7) by (simp add: take_Suc_conv_app_nth)
  ultimately show ?thesis
    using b [OF loop] rs len lb assms(6,7)
    by (intro exI [of _ rs1] exI [of _ rs2] exI [of _ "buf'[length ?enc := 0]"])
      (auto simp: mp_finish_def)
qed

section \<open>The decompressor reads what the builder writes\<close>

lemma mp_header_nat:
  assumes "a < 16" and "b < 16"
  shows "unat (mp_header a b) = 16 * a + b"
proof -
  have "(of_nat b :: u8) = take_bit 4 (of_nat b)"
    using assms(2) by (simp add: of_nat_take_bit [symmetric] take_bit_nat_eq_self)
  then have "push_bit 4 (of_nat a :: u8) AND of_nat b = 0"
    by (metis (no_types, lifting) bit_eq_iff bit_and_iff bit_push_bit_iff bit_take_bit_iff bit_0_eq
        not_le bot_apply bot_bool_def)
  then have "mp_header a b = push_bit 4 (of_nat a) + of_nat b"
    by (simp add: mp_header_def disjunctive_add_eq_or)
  also have "\<dots> = of_nat (16 * a + b)" by (simp add: push_bit_eq_mult)
  finally show ?thesis
    using assms by (simp add: unsigned_of_nat take_bit_nat_eq_self del: of_nat_add of_nat_mult)
qed

lemma mp_header_nibbles:
  assumes "a < 16" and "b < 16"
  shows "unat (mp_header a b AND 15) = b" and "unat (drop_bit 4 (mp_header a b) AND 15) = a"
proof -
  have m: "x AND 15 = take_bit 4 x" for x :: u8
    by (simp add: take_bit_eq_mask mask_eq_exp_minus_1)
  show "unat (mp_header a b AND 15) = b" "unat (drop_bit 4 (mp_header a b) AND 15) = a"
    using mp_header_nat [OF assms] assms
    by (simp_all add: m unat_mod unat_div take_bit_eq_mod drop_bit_eq_div)
qed

fun run_ok :: "int \<times> int \<Rightarrow> bool" where
  "run_ok (len, lcn) \<longleftrightarrow>
     0 < len \<and> len < 9223372036854775808 \<and> - 1 \<le> lcn \<and> lcn + len < 9223372036854775808"

lemma decode_run:
  assumes mem: "mem = pre @ run_bytes old prev len lcn @ post" and run: "run_ok (len, lcn)"
    and prev: "- 1 \<le> prev" "prev < 9223372036854775807"
    and aend: "length pre + length (run_bytes old prev len lcn) < aend"
  shows "\<exists>h. rd mem (length pre) = Ok h \<and> h \<noteq> 0 \<and> mp_run_length mem aend (length pre) h = Ok len \<and>
    mp_run_lcn mem aend (length pre) h prev = Ok (lcn, if lcn \<ge> 0 \<or> old then lcn else prev) \<and>
    length pre + unat (h AND 15) + unat (drop_bit 4 h AND 15) + 1 =
      length pre + length (run_bytes old prev len lcn)"
proof -
  let ?l = "sig_bytes len" and ?d = "sig_bytes (lcn - prev)"
  have in_len: "in_s64 len" and in_d: "in_s64 (lcn - prev)"
    using run prev by (auto simp: in_s64_def)
  define k where "k = (if lcn \<ge> 0 \<or> old then length ?d else 0)"
  define h where "h = mp_header k (length ?l)"
  define ds where "ds = (if lcn \<ge> 0 \<or> old then ?d else [])"
  have rb: "run_bytes old prev len lcn = h # ?l @ ds" by (simp add: run_bytes_def h_def k_def ds_def)
  have k: "k < 16" "length ?l < 16" "length ds = k" "0 < length ?l"
    using sb.enc_nibble [OF in_len] sb.enc_nibble [OF in_d] by (auto simp: k_def ds_def)
  have nib: "unat (h AND 15) = length ?l" "unat (drop_bit 4 h AND 15) = k"
    using mp_header_nibbles [OF k(1,2)] by (simp_all add: h_def)
  have "h \<noteq> 0" using nib(1) k(4) by auto
  moreover have mem': "mem = (pre @ [h]) @ ?l @ ds @ post" "mem = (pre @ h # ?l) @ ds @ post"
    using mem by (simp_all add: rb)
  have "mp_run_length mem aend (length pre) h = Ok len"
  proof -
    have "rd_bytes mem (length pre + 1) (length ?l) = Ok ?l"
      using rd_bytes_append [of "pre @ [h]" ?l "ds @ post"] by (simp add: mem')
    with nib k aend run sig_bytes_decode [OF in_len] show ?thesis
      by (simp add: mp_run_length_def rb)
  qed
  moreover have "mp_run_lcn mem aend (length pre) h prev =
      Ok (lcn, if lcn \<ge> 0 \<or> old then lcn else prev)"
  proof (cases "lcn \<ge> 0 \<or> old")
    case False
    with run nib show ?thesis by (simp add: mp_run_lcn_def k_def)
  next
    case True
    have "rd_bytes mem (length pre + length ?l + 1) k = Ok ds"
      using rd_bytes_append [of "pre @ h # ?l" ds post] k(3) by (simp add: mem'(2))
    moreover have "s64 (prev + (lcn - prev)) = lcn" using run by (simp add: s64_id)
    ultimately show ?thesis
      using True nib k aend run sig_bytes_decode [OF in_d] sb.enc_nibble [OF in_d]
      by (auto simp: mp_run_lcn_def rb ds_def k_def Let_def)
  qed
  moreover have "rd mem (length pre) = Ok h" by (simp add: mem rb)
  ultimately show ?thesis using nib k(3) by (auto simp: rb)
qed

lemma mp_loop_enc:
  assumes "mem = pre @ mp_enc old prev rs @ 0 # post" and "list_all run_ok rs"
    and "- 1 \<le> prev" and "prev < 9223372036854775807" and "0 \<le> v"
    and "v + sum_list (map fst rs) < 9223372036854775808"
    and "length pre + length (mp_enc old prev rs) < aend" and "\<And>n. malloc_ok n"
    and "length acc + length rs \<le> 65535"
  shows "mp_loop malloc_ok mem aend (length pre) v prev acc rlsize =
    Ok (length pre + length (mp_enc old prev rs), v + sum_list (map fst rs), acc @ runs_rl v rs)"
  using assms
proof (induction rs arbitrary: pre v prev acc rlsize)
  case Nil
  then show ?case by (subst mp_loop.simps) simp
next
  case (Cons r rs)
  obtain len lcn where r: "r = (len, lcn)" by (cases r)
  let ?bs = "run_bytes old prev len lcn" and ?prev = "if lcn \<ge> 0 \<or> old then lcn else prev"
  have mem: "mem = pre @ ?bs @ mp_enc old ?prev rs @ 0 # post"
    and mem': "mem = (pre @ ?bs) @ mp_enc old ?prev rs @ 0 # post" using Cons.prems(1) r by simp_all
  have run: "run_ok (len, lcn)" "list_all run_ok rs" using Cons.prems(2) r by simp_all
  have sum: "0 \<le> sum_list (map fst rs)"
    using run(2) by (intro sum_list_nonneg) (auto simp: list_all_iff)
  obtain h where h: "rd mem (length pre) = Ok h" "h \<noteq> 0"
    "mp_run_length mem aend (length pre) h = Ok len"
    "mp_run_lcn mem aend (length pre) h prev = Ok (lcn, ?prev)"
    "length pre + unat (h AND 15) + unat (drop_bit 4 h AND 15) + 1 = length (pre @ ?bs)"
    using decode_run [OF mem run(1) Cons.prems(3,4), of aend] Cons.prems(7) r by auto
  obtain sz where grow: "mp_grow malloc_ok (length acc) rlsize = Ok sz"
    using Cons.prems(8) by (metis mp_grow_def)
  have s: "s64 (v + len) = v + len" using Cons.prems(5,6) sum run(1) r by (intro s64_id) auto
  have "mp_loop malloc_ok mem aend (length pre) v prev acc rlsize =
      mp_loop malloc_ok mem aend (length (pre @ ?bs)) (v + len) ?prev (acc @ [mk_rle v lcn len]) sz"
    unfolding h(5) [symmetric]
    by (subst mp_loop.simps) (use h(1-4) grow s Cons.prems(7,9) r in simp)
  also have "\<dots> = Ok (length (pre @ ?bs) + length (mp_enc old ?prev rs),
      v + len + sum_list (map fst rs), (acc @ [mk_rle v lcn len]) @ runs_rl (v + len) rs)"
    by (rule Cons.IH [OF mem' run(2)]) (use Cons.prems(3-9) run(1) r in auto)
  finally show ?case by (simp add: r add_ac)
qed

text \<open>Facts about the runs of a well-formed, mapped runlist.\<close>

lemma rl_runs_ok:
  assumes "rl_chain v rl" and "rl_mapped rl" and "0 \<le> v" and "l < 0 \<or> v \<le> l"
  shows "list_all run_ok (rl_runs v l rl)" and "length (rl_runs v l rl) < length rl"
    and "v + sum_list (map fst (rl_runs v l rl)) =
      (if l < 0 then rl_end rl else min (l + 1) (rl_end rl))"
proof -
  have "list_all run_ok (rl_runs v l rl) \<and> length (rl_runs v l rl) < length rl \<and>
    v + sum_list (map fst (rl_runs v l rl)) = (if l < 0 then rl_end rl else min (l + 1) (rl_end rl))"
    using assms
  proof (induction rl arbitrary: v)
    case (Cons e rest)
    show ?case
    proof (cases "rl_len e = 0")
      case True
      with Cons.prems show ?thesis by (auto simp: rl_runs.simps)
    next
      case False
      have c: "rl_chain (v + rl_len e) rest" using Cons.prems(1) False by simp
      have v: "v + rl_len e < 9223372036854775808" "v + rl_len e \<le> rl_end rest"
        using rl_chain_end [OF c] by auto
      have e: "0 < rl_len e" "- 1 \<le> rl_lcn e" "rl_lcn e + rl_len e < 9223372036854775808"
        using Cons.prems False by auto
      show ?thesis
      proof (cases "l \<ge> 0 \<and> v + rl_len e > l")
        case True
        with False v e Cons.prems(3,4) c show ?thesis
          unfolding rl_runs_step [OF Cons.prems(1) False Cons.prems(4)]
          by (cases rest) (auto simp: min_def)
      next
        case more: False
        then have "l < 0 \<or> v + rl_len e \<le> l" by auto
        with Cons.IH [OF c] Cons.prems(2,3) False e more v show ?thesis
          unfolding rl_runs_step [OF Cons.prems(1) False Cons.prems(4)] by auto
      qed
    qed
  qed simp
  then show "list_all run_ok (rl_runs v l rl)" "length (rl_runs v l rl) < length rl"
    "v + sum_list (map fst (rl_runs v l rl)) = (if l < 0 then rl_end rl else min (l + 1) (rl_end rl))"
    by auto
qed

lemma rl_map_runs:
  assumes "rl_chain v rl" and "rl_mapped rl" and "0 \<le> v" and "l < 0 \<or> v \<le> l" and "v \<le> x"
  shows "rl_map (runs_rl v (rl_runs v l rl) @ t) x =
    (if x < v + sum_list (map fst (rl_runs v l rl)) then rl_map rl x else rl_map t x)"
  using assms
proof (induction rl arbitrary: v)
  case (Cons e rest)
  show ?case
  proof (cases "rl_len e = 0")
    case True
    with Cons.prems show ?thesis by (auto simp: rl_runs.simps)
  next
    case False
    have c: "rl_chain (v + rl_len e) rest" and vcn: "rl_vcn e = v" and e: "0 < rl_len e"
      using Cons.prems(1) False by auto
    show ?thesis
    proof (cases "l \<ge> 0 \<and> v + rl_len e > l")
      case True
      with False vcn e Cons.prems(3,4,5) show ?thesis
        unfolding rl_runs_step [OF Cons.prems(1) False Cons.prems(4)] by auto
    next
      case more: False
      then have l: "l < 0 \<or> v + rl_len e \<le> l" by auto
      have "0 \<le> sum_list (map fst (rl_runs (v + rl_len e) l rest))"
        using rl_runs_ok(1) [OF c _ _ l] Cons.prems(2,3) False e
        by (intro sum_list_nonneg) (auto simp: list_all_iff)
      moreover have "v + rl_len e \<le> x \<Longrightarrow> rl_map (runs_rl (v + rl_len e) (rl_runs (v + rl_len e) l rest) @ t) x =
        (if x < v + rl_len e + sum_list (map fst (rl_runs (v + rl_len e) l rest)) then rl_map rest x else rl_map t x)"
        using Cons.IH [OF c _ _ l] Cons.prems(2,3) False e by simp
      ultimately show ?thesis
        unfolding rl_runs_step [OF Cons.prems(1) False Cons.prems(4)]
        using more False vcn e Cons.prems(5) by (auto simp: add_ac)
    qed
  qed
qed simp

lemma rl_from:
  assumes "rl_chain v rl" and "v \<le> f" and "f \<le> rl_end rl" and "rl_mapped rl"
  shows "\<exists>rl'. rl_chain f rl' \<and> rl_mapped rl' \<and> (\<forall>l. rl_runs f l rl = rl_runs f l rl') \<and>
    (\<forall>x\<ge>f. rl_map rl x = rl_map rl' x) \<and> length rl' \<le> length rl \<and> rl_end rl' = rl_end rl"
  using assms
proof (induction rl arbitrary: v)
  case (Cons e rest)
  show ?case
  proof (cases "rl_len e = 0 \<or> f = v")
    case True
    with Cons.prems show ?thesis by (intro exI [of _ "e # rest"]) auto
  next
    case False
    then have len: "rl_len e \<noteq> 0" and vf: "v \<le> f" using Cons.prems(2) by auto
    have c: "rl_chain (v + rl_len e) rest" and e: "rl_vcn e = v" "0 < rl_len e"
      using Cons.prems(1) len by auto
    show ?thesis
    proof (cases "v + rl_len e \<le> f")
      case True
      have "rl_runs f l (e # rest) = rl_runs f l rest" for l
        using True e len by (simp add: rl_runs.simps Let_def)
      moreover have "rl_map (e # rest) x = rl_map rest x" if "x \<ge> f" for x
        using that True e len by simp
      ultimately show ?thesis using Cons.IH [OF c True] Cons.prems(3,4) len by fastforce
    next
      case lt: False
      have "rl_map (e # rest) x = rl_map (rl_trim f e # rest) x" if "x \<ge> f" for x
        using that lt e vf by (simp add: rl_trim_lcn(2))
      then show ?thesis
        using Cons.prems(1,4) e vf lt len rl_trim_chain [of e rest f] rl_trim_mapped [of e f rest]
          rl_trim_runs [of e f]
        by (intro exI [of _ "rl_trim f e # rest"]) auto
    qed
  qed
qed simp

lemma rl_chain_runs_rl:
  assumes "list_all run_ok rs" and "0 \<le> v" and "v + sum_list (map fst rs) < 9223372036854775808"
    and "rl_chain (v + sum_list (map fst rs)) t"
  shows "rl_chain v (runs_rl v rs @ t)"
  using assms
proof (induction v rs rule: runs_rl.induct)
  case (2 v len lcn rs)
  have "0 \<le> sum_list (map fst rs)"
    using 2(2) by (intro sum_list_nonneg) (auto simp: list_all_iff)
  with 2 show ?case by (auto simp: add_ac)
qed simp

lemma mp_enc_hd:
  assumes "list_all run_ok rs" and "rs \<noteq> []"
  shows "\<exists>h bs. mp_enc old prev rs = h # bs \<and> (prev = 0 \<longrightarrow> h \<noteq> 0)"
proof -
  obtain len lcn rs' where rs: "rs = (len, lcn) # rs'" using assms(2) by (cases rs) auto
  let ?h = "mp_header (if lcn \<ge> 0 \<or> old then length (sig_bytes (lcn - prev)) else 0) (length (sig_bytes len))"
  have len: "in_s64 len" and lcn: "prev = 0 \<Longrightarrow> in_s64 (lcn - prev)"
    using assms(1) by (auto simp: rs in_s64_def)
  have "?h \<noteq> 0" if "prev = 0"
    using mp_header_nibbles(1) [of "if lcn \<ge> 0 \<or> old then length (sig_bytes (lcn - prev)) else 0"
        "length (sig_bytes len)"]
      sb.enc_nibble [OF len] sb.enc_nibble [OF lcn [OF that]] by auto
  then show ?thesis by (auto simp: rs run_bytes_def)
qed

lemma mp_terminate_eq:
  assumes "na_highest_vcn a = e - 1" and "0 < e" and "e \<le> tot" and "na_lowest_vcn a = f" and "0 \<le> f"
    and "cluster_size vol = 2 ^ cluster_size_bits vol"
    and "na_allocated_size a = tot * int (cluster_size vol)"
    and "(tot + 1) * int (cluster_size vol) < 9223372036854775808"
    and "f = 0 \<Longrightarrow> e = 1 \<Longrightarrow> tot = 1"
  shows "mp_terminate vol a e rl = Ok (rl @
    (if f \<noteq> 0 then [mk_rle e LCN_RL_NOT_MAPPED 0]
     else if e < tot then [mk_rle e LCN_RL_NOT_MAPPED (tot - e), mk_rle tot LCN_ENOENT 0]
     else [mk_rle e LCN_ENOENT 0]))"
proof -
  let ?c = "int (cluster_size vol)"
  have c: "0 < ?c" "?c = 2 ^ cluster_size_bits vol" using assms(6) by simp_all
  have "tot * 1 \<le> tot * ?c" using c(1) assms(2,3) by (intro mult_left_mono) linarith+
  then have t: "tot < 9223372036854775808" "tot * ?c + ?c < 9223372036854775808"
    using assms(8) c(1) by (simp_all add: distrib_right del: of_nat_power)
  have "s64 (tot * ?c + ?c - 1) = tot * ?c + ?c - 1"
    by (rule s64_id) (use t c(1) \<open>tot * 1 \<le> tot * ?c\<close> assms(2,3) in linarith)+
  moreover have "(tot * ?c + ?c - 1) div 2 ^ cluster_size_bits vol = tot"
    unfolding c(2) [symmetric] using c(1) by (simp add: div_pos_pos_trivial add_diff_eq [symmetric])
  moreover have "s64 (tot - 1) = tot - 1" "s64 (e - 1) = e - 1"
    "s64 (tot - e) = tot - e" "s64 tot = tot"
    by (rule s64_id; use t assms(2,3) in auto)+
  ultimately show ?thesis
    using assms(1-5,7,9) by (auto simp: mp_terminate_def Let_def)
qed

definition extent_attr ::
  "ntfs_volume \<Rightarrow> runlist \<Rightarrow> int \<Rightarrow> int \<Rightarrow> u8 list \<Rightarrow> nr_attr \<Rightarrow> bool" where
  "extent_attr vol rl f e mp a \<longleftrightarrow>
     take (length mp) (drop (na_mp_offset a) (na_mem a)) = mp \<and>
     na_length a = na_mp_offset a + length mp \<and> na_lowest_vcn a = f \<and> na_highest_vcn a = e - 1 \<and>
     na_allocated_size a = rl_end rl * int (cluster_size vol) \<and>
     (rl_end rl + 1) * int (cluster_size vol) < 9223372036854775808 \<and>
     cluster_size vol = 2 ^ cluster_size_bits vol \<and> (f = 0 \<and> e = 1 \<longrightarrow> rl_end rl = 1)"

lemma roundtrip_runs:
  assumes "list_all run_ok rs" and "rs \<noteq> []" and "length rs < 65535" and "\<And>n. malloc_ok n"
    and "0 \<le> f" and "e = f + sum_list (map fst rs)" and "e \<le> rl_end rl"
    and "mp = mp_enc old 0 rs @ 0 # junk" and "extent_attr vol rl f e mp a"
  shows "mp_decompress malloc_ok vol a = Ok (Some
    ((if f \<noteq> 0 then [mk_rle 0 LCN_RL_NOT_MAPPED f] else []) @ runs_rl f rs @
     (if f \<noteq> 0 then [mk_rle e LCN_RL_NOT_MAPPED 0]
      else if e < rl_end rl
        then [mk_rle e LCN_RL_NOT_MAPPED (rl_end rl - e), mk_rle (rl_end rl) LCN_ENOENT 0]
      else [mk_rle e LCN_ENOENT 0])))"
proof -
  let ?pre = "take (na_mp_offset a) (na_mem a)"
  note x = assms(9) [unfolded extent_attr_def]
  have mp: "take (length mp) (drop (na_mp_offset a) (na_mem a)) = mp" using x by blast
  moreover have "mp \<noteq> []" by (simp add: assms(8))
  ultimately have off: "na_mp_offset a \<le> length (na_mem a)" by (cases "na_mp_offset a \<le> length (na_mem a)") auto
  obtain post where post: "na_mem a = ?pre @ mp @ post"
    using mp by (metis append_take_drop_id)
  then have mem: "na_mem a = ?pre @ mp_enc old 0 rs @ 0 # (junk @ post)" by (simp add: assms(8))
  have pre: "length ?pre = na_mp_offset a" using off by simp
  obtain h bs where h: "mp_enc old 0 rs = h # bs" "h \<noteq> 0" using mp_enc_hd [OF assms(1,2), of old 0] by auto
  have rd: "rd (na_mem a) (na_mp_offset a) = Ok h"
  proof -
    have "rd (p @ h # q) (length p) = Ok h" for p q by simp
    from this [of ?pre "bs @ 0 # junk @ post"] show ?thesis unfolding pre using mem h(1) by simp
  qed
  have "0 < e"
  proof -
    obtain r rs' where rs: "rs = r # rs'" using assms(2) by (cases rs) auto
    have "0 \<le> sum_list (map fst rs')"
      using assms(1) by (intro sum_list_nonneg) (auto simp: list_all_iff rs)
    then show ?thesis using assms(1,5,6) by (cases r) (auto simp: rs)
  qed
  have "rl_end rl * 1 \<le> rl_end rl * int (cluster_size vol)"
    using x assms(7) \<open>0 < e\<close> by (intro mult_left_mono) auto
  moreover have "(rl_end rl + 1) * int (cluster_size vol) < 9223372036854775808" using x by blast
  ultimately have "e < 9223372036854775808"
    using assms(7) of_nat_0_le_iff [of "cluster_size vol"] unfolding distrib_right by linarith
  then have loop: "mp_loop malloc_ok (na_mem a) (na_length a) (na_mp_offset a) f 0 acc PAGE_SIZE =
      Ok (na_mp_offset a + length (mp_enc old 0 rs), e, acc @ runs_rl f rs)"
    if "length acc \<le> 1" for acc
    using mp_loop_enc [OF mem assms(1), of f "na_length a" malloc_ok acc PAGE_SIZE]
      assms(3-6) x that unfolding pre by (auto simp: assms(8))
  show ?thesis
    using loop [of "[]"] loop [of "[mk_rle 0 LCN_RL_NOT_MAPPED f]"] rd h(2) x assms(4) \<open>0 < e\<close>
      mp_terminate_eq [of a e "rl_end rl" f vol] assms(5,7)
    by (auto simp: mp_decompress_def Let_def assms(8))
qed

definition mp_volume :: ntfs_volume where
  "mp_volume = zero_volume\<lparr>cluster_size := 4096, cluster_size_bits := 12, major_ver := 3\<rparr>"

definition mp_runlist :: runlist where
  "mp_runlist = [mk_rle 0 100 8, mk_rle 8 LCN_HOLE 8, mk_rle 16 50 4, mk_rle 20 LCN_ENOENT 0]"

lemma mp_runlist_facts:
  "rl_wf mp_runlist" "rl_mapped mp_runlist" "rl_end mp_runlist = 20"
  by (simp_all add: mp_runlist_def rl_wf_def)

definition mp_bytes_example :: "u8 list" where
  "mp_bytes_example = [0x11, 8, 100, 1, 8, 0x11, 4, 0xce, 0]"

lemma mp_enc_example: "mp_enc False 0 (rl_runs 0 (- 1) mp_runlist) @ [0] = mp_bytes_example"
  by (simp add: mp_runlist_def rl_runs.simps run_bytes_def sig_bytes_def low_bytes.simps s8_def
      mp_header_def mp_bytes_example_def)

lemma mp_example_facts:
  "major_ver mp_volume = 3" "length mp_bytes_example = 9"
  "length (mp_enc False 0 (rl_runs 0 (- 1) mp_runlist)) = 8"
  using arg_cong [OF mp_enc_example, of length] by (simp_all add: mp_volume_def mp_bytes_example_def)

lemma mp_build_example:
  "ntfs_mapping_pairs_build mp_volume (replicate 9 0) (length (replicate 9 (0::u8))) (Some mp_runlist)
    0 (- 1) = Ok (mp_bytes_example, 20, None)"
  using build_fits [OF mp_runlist_facts(1,2), of 0 "- 1" 9 "replicate 9 0" mp_volume]
  by (auto simp: mp_runlist_facts(3) mp_example_facts put_def mp_enc_example [simplified])

text \<open>
  C19. Exact size. For a well-formed, fully mapped runlist and any range of vcns
  \<^verbatim>\<open>ntfs_get_size_for_mapping_pairs\<close> returns a size \<open>n\<close> such that \<^verbatim>\<open>ntfs_mapping_pairs_build\<close> on
  the same range succeeds in every buffer of at least \<open>n\<close> bytes and runs out of space in every
  smaller one; in no case does it write outside the buffer.
\<close>

theorem mapping_pairs_size_exact:
  assumes "rl_wf rl" and "rl_mapped rl" and "0 \<le> f" and "f \<le> rl_end rl" and "l = - 1 \<or> f \<le> l"
  shows "\<exists>n. ntfs_get_size_for_mapping_pairs vol (Some rl) f l = Ok n \<and>
    (\<forall>buf dst_len. 1 \<le> dst_len \<longrightarrow> dst_len \<le> length buf \<longrightarrow>
      (\<exists>buf' stop. ntfs_mapping_pairs_build vol buf dst_len (Some rl) f l =
        Ok (buf', stop, if n \<le> dst_len then None else Some ENOSPC)))"
proof -
  let ?n = "1 + length (mp_enc (major_ver vol < 3) 0 (rl_runs f l rl))"
  have "\<exists>buf' stop. ntfs_mapping_pairs_build vol buf dst_len (Some rl) f l =
      Ok (buf', stop, if ?n \<le> dst_len then None else Some ENOSPC)"
    if n: "1 \<le> dst_len" "dst_len \<le> length buf" for buf dst_len
  proof (cases "?n \<le> dst_len")
    case True
    then show ?thesis using build_fits [OF assms n(2), of vol] by force
  next
    case False
    then show ?thesis using build_nospace [OF assms n, of vol] by force
  qed
  then show ?thesis
    by (intro exI [of _ ?n] conjI allI impI get_size_eq [OF assms]) simp
qed

theorem mapping_pairs_size_exact_witness:
  "\<exists>n buf' stop. ntfs_get_size_for_mapping_pairs mp_volume (Some mp_runlist) 4 (- 1) = Ok n \<and>
    ntfs_mapping_pairs_build mp_volume (replicate 16 0) 16 (Some mp_runlist) 4 (- 1) =
      Ok (buf', stop, if n \<le> 16 then None else Some ENOSPC)"
proof -
  obtain n where n: "ntfs_get_size_for_mapping_pairs mp_volume (Some mp_runlist) 4 (- 1) = Ok n"
    and b: "\<forall>buf dst_len. 1 \<le> dst_len \<longrightarrow> dst_len \<le> length buf \<longrightarrow>
      (\<exists>buf' stop. ntfs_mapping_pairs_build mp_volume buf dst_len (Some mp_runlist) 4 (- 1) =
        Ok (buf', stop, if n \<le> dst_len then None else Some ENOSPC))"
    using mapping_pairs_size_exact [OF mp_runlist_facts(1,2), of 4 "- 1" mp_volume]
    unfolding mp_runlist_facts(3) by auto
  show ?thesis using n b [rule_format, of 16 "replicate 16 0"] by simp
qed

text \<open>
  C21. Partial arrays. When the buffer is too small for the range, the builder reports
  \<^verbatim>\<open>-ENOSPC\<close> and leaves a valid array in it: the encoding of some of the leading runs, closed
  by a terminator byte, nothing behind the buffer touched; if at least one run was stored, the
  stop vcn is the vcn of the first run that is missing.
\<close>

theorem mapping_pairs_partial:
  assumes "rl_wf rl" and "rl_mapped rl" and "0 \<le> f" and "f \<le> rl_end rl" and "l = - 1 \<or> f \<le> l"
    and "1 \<le> dst_len" and "dst_len \<le> length buf"
    and "ntfs_get_size_for_mapping_pairs vol (Some rl) f l = Ok n" and "dst_len < n"
  shows "\<exists>rs1 rs2 buf' stop. rl_runs f l rl = rs1 @ rs2 \<and> rs2 \<noteq> [] \<and>
    ntfs_mapping_pairs_build vol buf dst_len (Some rl) f l = Ok (buf', stop, Some ENOSPC) \<and>
    length (mp_enc (major_ver vol < 3) 0 rs1) < dst_len \<and>
    take (length (mp_enc (major_ver vol < 3) 0 rs1) + 1) buf' =
      mp_enc (major_ver vol < 3) 0 rs1 @ [0] \<and>
    length buf' = length buf \<and> drop dst_len buf' = drop dst_len buf \<and>
    (rs1 \<noteq> [] \<longrightarrow> stop = f + sum_list (map fst rs1))"
  using build_nospace [OF assms(1-7), of vol] get_size_eq [OF assms(1-5), of vol] assms(8,9) by simp

theorem mapping_pairs_partial_witness:
  "\<exists>rs1 rs2 buf' stop. rl_runs 0 (- 1) mp_runlist = rs1 @ rs2 \<and> rs2 \<noteq> [] \<and>
    ntfs_mapping_pairs_build mp_volume (replicate 6 0) 5 (Some mp_runlist) 0 (- 1) =
      Ok (buf', stop, Some ENOSPC)"
proof -
  have "ntfs_get_size_for_mapping_pairs mp_volume (Some mp_runlist) 0 (- 1) = Ok 9"
    using get_size_eq [OF mp_runlist_facts(1,2), of 0 "- 1" mp_volume]
    by (simp add: mp_runlist_facts(3) mp_example_facts)
  then show ?thesis
    using mapping_pairs_partial [OF mp_runlist_facts(1,2), of 0 "- 1" 5 "replicate 6 0" mp_volume 9,
      unfolded mp_runlist_facts(3)] by (simp del: replicate.simps) blast
qed

text \<open>What the decompressor makes of the array of a range, and the facts about the range.\<close>

definition extent_tail :: "runlist \<Rightarrow> int \<Rightarrow> int \<Rightarrow> runlist" where
  "extent_tail rl f e =
     (if f \<noteq> 0 then [mk_rle e LCN_RL_NOT_MAPPED 0]
      else if e < rl_end rl
        then [mk_rle e LCN_RL_NOT_MAPPED (rl_end rl - e), mk_rle (rl_end rl) LCN_ENOENT 0]
      else [mk_rle e LCN_ENOENT 0])"

definition extent_rl :: "runlist \<Rightarrow> int \<Rightarrow> int \<Rightarrow> int \<Rightarrow> runlist" where
  "extent_rl rl f l e =
     (if f \<noteq> 0 then [mk_rle 0 LCN_RL_NOT_MAPPED f] else []) @ runs_rl f (rl_runs f l rl) @
     extent_tail rl f e"

lemma extent_facts:
  assumes "rl_wf rl" and "rl_mapped rl" and "0 \<le> f" and "f < rl_end rl" and "l = - 1 \<or> f \<le> l"
    and "e = (if l = - 1 then rl_end rl else min (l + 1) (rl_end rl))"
  shows "list_all run_ok (rl_runs f l rl)" and "length (rl_runs f l rl) < length rl"
    and "e = f + sum_list (map fst (rl_runs f l rl))" and "f < e" and "e \<le> rl_end rl"
    and "rl_end rl < 9223372036854775808"
    and "f \<le> x \<Longrightarrow> rl_map (runs_rl f (rl_runs f l rl) @ t) x =
      (if x < e then rl_map rl x else rl_map t x)"
proof -
  have l: "l < 0 \<or> f \<le> l" using assms(5) by auto
  obtain rl1 where c: "rl_chain f rl1" "rl_mapped rl1" and runs: "rl_runs f l rl = rl_runs f l rl1"
    and same: "\<And>x. x \<ge> f \<Longrightarrow> rl_map rl x = rl_map rl1 x" and len: "length rl1 \<le> length rl"
    and ends: "rl_end rl1 = rl_end rl"
    using rl_from [OF assms(1) [unfolded rl_wf_def] assms(3) _ assms(2)] assms(4)
    by (metis less_imp_le)
  note ok = rl_runs_ok [OF c assms(3) l]
  show e: "e = f + sum_list (map fst (rl_runs f l rl))"
    using ok(3) assms(3,5,6) runs ends by auto
  show "f < e" using assms(4,5,6) by (cases "l = - 1") auto
  show "list_all run_ok (rl_runs f l rl)" "length (rl_runs f l rl) < length rl"
    using ok runs len by simp_all
  show "e \<le> rl_end rl" "rl_end rl < 9223372036854775808"
    using rl_chain_end [OF c(1)] ends assms(6) by auto
  show "rl_map (runs_rl f (rl_runs f l rl) @ t) x = (if x < e then rl_map rl x else rl_map t x)"
    if "f \<le> x" using rl_map_runs [OF c assms(3) l that, of t] same [OF that] e runs by simp
qed

lemma roundtrip_extent:
  assumes "rl_wf rl" and "rl_mapped rl" and "length rl \<le> 65535" and "0 \<le> f" and "f < rl_end rl"
    and "l = - 1 \<or> f \<le> l" and "\<forall>n. malloc_ok n" and "buf \<noteq> []"
    and "ntfs_mapping_pairs_build vol buf (length buf) (Some rl) f l = Ok (mp, stop, None)"
    and "e = (if l = - 1 then rl_end rl else min (l + 1) (rl_end rl))"
    and "extent_attr vol rl f e mp a"
  shows "mp_decompress malloc_ok vol a = Ok (Some (extent_rl rl f l e))"
proof -
  let ?old = "major_ver vol < 3" and ?rs = "rl_runs f l rl"
  have f: "f \<le> rl_end rl" using assms(5) by simp
  have "length (mp_enc ?old 0 ?rs) < length buf"
  proof (rule ccontr)
    assume "\<not> ?thesis"
    then have "\<exists>b s. ntfs_mapping_pairs_build vol buf (length buf) (Some rl) f l = Ok (b, s, Some ENOSPC)"
      using build_nospace [OF assms(1,2,4) f assms(6), of "length buf" buf vol] assms(8)
      by (auto simp: Suc_le_eq)
    with assms(9) show False by simp
  qed
  then obtain junk where mp: "mp = mp_enc ?old 0 ?rs @ 0 # junk"
    using build_fits [OF assms(1,2,4) f assms(6), of "length buf" buf vol] assms(9)
    by (auto simp: put_def)
  note x = extent_facts [OF assms(1,2,4,5,6,10)]
  have ne: "?rs \<noteq> []" using x(3,4) by auto
  show ?thesis
    unfolding extent_rl_def extent_tail_def
    by (rule roundtrip_runs [OF x(1) ne _ _ assms(4) x(3,5) mp assms(11)])
      (use x(2) assms(3,7) in auto)
qed

lemma decompress_no_old [simp]:
  "ntfs_mapping_pairs_decompress malloc_ok mem vol a None = mp_decompress malloc_ok vol a"
  by (cases "mp_decompress malloc_ok vol a")
    (auto simp: ntfs_mapping_pairs_decompress_def split: option.splits)

lemma decompress_extent_map:
  assumes "rl_wf rl" and "rl_mapped rl" and "length rl \<le> 65535" and "0 \<le> f" and "f < rl_end rl"
    and "l = - 1 \<or> f \<le> l" and "\<forall>n. malloc_ok n" and "buf \<noteq> []"
    and "ntfs_mapping_pairs_build vol buf (length buf) (Some rl) f l = Ok (mp, stop, None)"
    and "e = (if l = - 1 then rl_end rl else min (l + 1) (rl_end rl))"
    and "extent_attr vol rl f e mp a"
  shows "\<exists>rl'. ntfs_mapping_pairs_decompress malloc_ok mem vol a None = Ok (Some rl') \<and> rl_wf rl' \<and>
    (\<forall>v\<ge>0. rl_map rl' v =
      (if v < f then LCN_RL_NOT_MAPPED
       else if v < e then rl_map rl v
       else if f = 0 \<and> rl_end rl \<le> v then LCN_ENOENT
       else LCN_RL_NOT_MAPPED))"
proof -
  note x = extent_facts [OF assms(1,2,4,5,6,10)]
  have "mp_decompress malloc_ok vol a = Ok (Some (extent_rl rl f l e))"
    by (rule roundtrip_extent [OF assms])
  moreover have "rl_wf (extent_rl rl f l e)"
  proof -
    have "rl_chain f (runs_rl f (rl_runs f l rl) @ extent_tail rl f e)"
      by (rule rl_chain_runs_rl) (use x assms(4) in \<open>auto simp: extent_tail_def\<close>)
    with assms(4,5) x(6) show ?thesis by (auto simp: rl_wf_def extent_rl_def)
  qed
  moreover have "rl_map (extent_rl rl f l e) v =
      (if v < f then LCN_RL_NOT_MAPPED else if v < e then rl_map rl v
       else if f = 0 \<and> rl_end rl \<le> v then LCN_ENOENT else LCN_RL_NOT_MAPPED)" if "v \<ge> 0" for v
    using x(4,5) x(7) [of v "extent_tail rl f e"] that assms(4)
    by (auto simp: extent_rl_def extent_tail_def)
  ultimately show ?thesis by auto
qed

text \<open>
  C6. Round trip. The decompressor turns the array that the builder produced for a range of a
  well-formed, fully mapped runlist back into a well-formed runlist that maps every vcn of the
  range exactly as the original did, every vcn before the range and every vcn of a later extent
  to "not mapped", and, for the base extent, every vcn behind the attribute to "no such vcn".
\<close>

theorem mapping_pairs_roundtrip:
  assumes "rl_wf rl" and "rl_mapped rl" and "length rl \<le> 65535" and "0 \<le> f" and "f < rl_end rl"
    and "l = - 1 \<or> f \<le> l" and "\<forall>n. malloc_ok n" and "buf \<noteq> []"
    and "ntfs_mapping_pairs_build vol buf (length buf) (Some rl) f l = Ok (mp, stop, None)"
    and "e = (if l = - 1 then rl_end rl else min (l + 1) (rl_end rl))"
    and "extent_attr vol rl f e mp a"
  shows "\<exists>rl'. ntfs_mapping_pairs_decompress malloc_ok mem vol a None = Ok (Some rl') \<and> rl_wf rl' \<and>
    (\<forall>v\<ge>0. rl_map rl' v =
      (if v < f then LCN_RL_NOT_MAPPED
       else if v < e then rl_map rl v
       else if f = 0 \<and> rl_end rl \<le> v then LCN_ENOENT
       else LCN_RL_NOT_MAPPED))"
  by (rule decompress_extent_map [OF assms])

definition mp_attr_example :: nr_attr where
  "mp_attr_example = \<lparr>na_mem = replicate 64 0 @ mp_bytes_example, na_length = 73, na_mp_offset = 64,
     na_lowest_vcn = 0, na_highest_vcn = 19, na_allocated_size = 81920\<rparr>"

theorem mapping_pairs_roundtrip_witness:
  "\<exists>rl'. ntfs_mapping_pairs_decompress (\<lambda>n. True) merge_mem mp_volume mp_attr_example None =
      Ok (Some rl') \<and> rl_wf rl' \<and>
    rl_map rl' 5 = 105 \<and> rl_map rl' 12 = LCN_HOLE \<and> rl_map rl' 17 = 51 \<and> rl_map rl' 20 = LCN_ENOENT"
proof -
  have a: "extent_attr mp_volume mp_runlist 0 20 mp_bytes_example mp_attr_example"
    by (simp add: extent_attr_def mp_attr_example_def mp_runlist_facts mp_volume_def mp_example_facts)
  have len: "length mp_runlist \<le> 65535" by (simp add: mp_runlist_def)
  obtain rl' where d: "mp_decompress (\<lambda>n. True) mp_volume mp_attr_example = Ok (Some rl')" "rl_wf rl'"
    and m: "\<forall>v\<ge>0. rl_map rl' v =
      (if v < 0 then LCN_RL_NOT_MAPPED else if v < 20 then rl_map mp_runlist v
       else if (0::int) = 0 \<and> rl_end mp_runlist \<le> v then LCN_ENOENT else LCN_RL_NOT_MAPPED)"
    using mapping_pairs_roundtrip [OF mp_runlist_facts(1,2) len order_refl _ _ _ _ mp_build_example _ a,
        of "\<lambda>n. True" merge_mem]
    unfolding mp_runlist_facts(3) by auto
  show ?thesis
    using d m [rule_format, of 5] m [rule_format, of 12] m [rule_format, of 17]
      m [rule_format, of 20]
    by (simp add: mp_runlist_def)
qed

lemma rl_extent_runs:
  assumes "list_all run_ok rs" and "rs \<noteq> []" and "0 < f" and "f < 9223372036854775808"
    and "e = f + sum_list (map fst rs)" and "e < 9223372036854775808"
  shows "rl_extent ([mk_rle 0 LCN_RL_NOT_MAPPED f] @ runs_rl f rs @ [mk_rle e LCN_RL_NOT_MAPPED 0]) f e"
proof -
  have "rl_seg f (runs_rl f rs) (f + sum_list (map fst rs))"
    using assms(1) by (induction f rs rule: runs_rl.induct) (auto simp: add_ac)
  moreover have "\<forall>x\<in>set (runs_rl f rs). LCN_HOLE \<le> rl_lcn x"
    using assms(1) by (induction f rs rule: runs_rl.induct) auto
  moreover have "runs_rl f rs \<noteq> []" using assms(2) by (cases rs) auto
  ultimately show ?thesis
    unfolding rl_extent_def using assms(3-6)
    by (intro exI [of _ "[mk_rle 0 LCN_RL_NOT_MAPPED f]"] exI [of _ "runs_rl f rs"]
        exI [of _ "mk_rle e LCN_RL_NOT_MAPPED 0"] exI [of _ "[]"]) auto
qed

text \<open>
  C4. Mapping one extent. The array of an extent other than the first, decompressed into the
  runlist of an attribute in which the extent is not mapped yet, gives a well-formed runlist
  in which the vcns of the extent are mapped as in the runlist the array was built from and
  all other vcns as before.
\<close>

theorem map_extent_correct:
  assumes "rl_wf rl" and "rl_mapped rl" and "length rl \<le> 65535" and "0 < f" and "f < rl_end rl"
    and "l = - 1 \<or> f \<le> l" and "\<forall>n. malloc_ok n" and "alloc_ok mem" and "buf \<noteq> []"
    and "ntfs_mapping_pairs_build vol buf (length buf) (Some rl) f l = Ok (mp, stop, None)"
    and "e = (if l = - 1 then rl_end rl else min (l + 1) (rl_end rl))"
    and "extent_attr vol rl f e mp a" and "rl_wf old" and "rl_gap old i f e"
  shows "\<exists>rl'. ntfs_mapping_pairs_decompress malloc_ok mem vol a (Some old) = Ok (Some rl') \<and> rl_wf rl' \<and>
    (\<forall>v\<ge>0. rl_map rl' v = (if f \<le> v \<and> v < e then rl_map rl v else rl_map old v))"
proof -
  have f0: "0 \<le> f" using assms(4) by simp
  note x = extent_facts [OF assms(1,2) f0 assms(5,6,11)]
  have dec: "mp_decompress malloc_ok vol a = Ok (Some (extent_rl rl f l e))"
    by (rule roundtrip_extent [OF assms(1,2,3) f0 assms(5,6,7,9,10,11,12)])
  have ne: "rl_runs f l rl \<noteq> []" using x(3,4) by auto
  have "rl_extent (extent_rl rl f l e) f e"
    using rl_extent_runs [OF x(1) ne assms(4) _ x(3)] x(4-6) assms(4)
    by (simp add: extent_rl_def extent_tail_def)
  from merge_extent [OF assms(13) this assms(14), of mem] assms(8)
  obtain rl' where "ntfs_runlists_merge mem (Some old) (Some (extent_rl rl f l e)) = Ok (Some rl')"
    "rl_wf rl'"
    and m: "\<forall>x\<ge>0. rl_map rl' x = (if f \<le> x \<and> x < e then rl_map (extent_rl rl f l e) x else rl_map old x)"
    by auto
  moreover have "rl_map (extent_rl rl f l e) v = rl_map rl v" if "f \<le> v" "v < e" for v
    using x(7) [OF that(1), of "extent_tail rl f e"] that assms(4) by (simp add: extent_rl_def)
  ultimately show ?thesis using dec by (auto simp: ntfs_mapping_pairs_decompress_def)
qed

definition extent_bytes :: "u8 list" where
  "extent_bytes = [0x11, 4, 0x32, 0]"

definition extent_example :: nr_attr where
  "extent_example = \<lparr>na_mem = replicate 64 0 @ extent_bytes, na_length = 68, na_mp_offset = 64,
     na_lowest_vcn = 16, na_highest_vcn = 19, na_allocated_size = 81920\<rparr>"

definition extent_old :: runlist where
  "extent_old = [mk_rle 0 100 8, mk_rle 8 LCN_HOLE 8, mk_rle 16 LCN_RL_NOT_MAPPED 4, mk_rle 20 LCN_ENOENT 0]"

theorem map_extent_correct_witness:
  "\<exists>rl'. ntfs_mapping_pairs_decompress (\<lambda>n. True) merge_mem mp_volume extent_example (Some extent_old) =
      Ok (Some rl') \<and> rl_wf rl' \<and> rl_map rl' 5 = 105 \<and> rl_map rl' 17 = 51"
proof -
  have enc: "mp_enc False 0 (rl_runs 16 (- 1) mp_runlist) @ [0] = extent_bytes"
    by (simp add: mp_runlist_def rl_runs.simps run_bytes_def sig_bytes_def low_bytes.simps s8_def
        mp_header_def extent_bytes_def)
  have len: "length (mp_enc False 0 (rl_runs 16 (- 1) mp_runlist)) = 3"
    using arg_cong [OF enc, of length] by (simp add: extent_bytes_def)
  have b: "ntfs_mapping_pairs_build mp_volume (replicate 4 0) (length (replicate 4 (0::u8)))
      (Some mp_runlist) 16 (- 1) = Ok (extent_bytes, 20, None)"
    using build_fits [OF mp_runlist_facts(1,2), of 16 "- 1" 4 "replicate 4 0" mp_volume]
    by (auto simp: mp_runlist_facts(3) mp_example_facts put_def enc [simplified] len extent_bytes_def)
  have a: "extent_attr mp_volume mp_runlist 16 20 extent_bytes extent_example"
    by (simp add: extent_attr_def extent_example_def mp_runlist_facts mp_volume_def extent_bytes_def)
  have w: "rl_wf extent_old" by (simp add: extent_old_def rl_wf_def)
  have g: "rl_gap extent_old 2 16 20" by (auto simp: rl_gap_def extent_old_def le_Suc_eq numeral_eq_Suc)
  have n: "length mp_runlist \<le> 65535" by (simp add: mp_runlist_def)
  obtain rl' where d: "ntfs_mapping_pairs_decompress (\<lambda>n. True) merge_mem mp_volume extent_example
      (Some extent_old) = Ok (Some rl')" "rl_wf rl'"
    and m: "\<forall>v\<ge>0. rl_map rl' v = (if 16 \<le> v \<and> v < 20 then rl_map mp_runlist v else rl_map extent_old v)"
    using map_extent_correct [OF mp_runlist_facts(1,2) n _ _ _ _ _ _ b _ a w g, of "\<lambda>n. True" merge_mem]
    unfolding mp_runlist_facts(3) by (auto simp: merge_mem_def)
  show ?thesis
    using d m [rule_format, of 5] m [rule_format, of 17] by (simp add: mp_runlist_def extent_old_def)
qed

section \<open>Arbitrary arrays\<close>

text \<open>
  Elements that follow each other from \<open>v\<close> to \<open>v'\<close>; the lengths may be 0 and the sums wrap,
  since an on-disk array can hold anything.
\<close>

fun rl_linked :: "int \<Rightarrow> runlist \<Rightarrow> int \<Rightarrow> bool" where
  "rl_linked v [] v' \<longleftrightarrow> v = v'"
| "rl_linked v (e # rest) v' \<longleftrightarrow>
     rl_vcn e = v \<and> 0 \<le> rl_len e \<and> LCN_RL_NOT_MAPPED \<le> rl_lcn e \<and>
     rl_linked (s64 (v + rl_len e)) rest v'"

lemma rl_linked_append:
  "rl_linked v (xs @ ys) v' \<longleftrightarrow> (\<exists>u. rl_linked v xs u \<and> rl_linked u ys v')"
  by (induction xs arbitrary: v) auto

lemma mp_run_length_safe:
  assumes "aend < length mem"
  shows "mp_run_length mem aend pos h = Error EIO \<or>
    (\<exists>n. mp_run_length mem aend pos h = Ok n \<and> 0 \<le> n \<and> 0 < unat (h AND 15))"
  using assms by (auto simp: mp_run_length_def Let_def rd_bytes_def)

lemma mp_run_lcn_safe:
  assumes "aend < length mem"
  shows "mp_run_lcn mem aend pos h lcn = Error EIO \<or>
    (\<exists>n lcn'. mp_run_lcn mem aend pos h lcn = Ok (n, lcn') \<and> - 1 \<le> n)"
  using assms by (auto simp: mp_run_lcn_def Let_def rd_bytes_def)

lemma mp_grow_cases:
  "mp_grow malloc_ok n rlsize = Error ENOMEM \<or> (\<exists>sz. mp_grow malloc_ok n rlsize = Ok sz)"
  by (simp add: mp_grow_def)

lemma mp_loop_safe:
  assumes "aend < length mem" and "aend \<le> 65535" and "2 * length rl \<le> pos + 2"
    and "rl_linked v0 rl vcn"
  shows "mp_loop malloc_ok mem aend pos vcn lcn rl rlsize \<in> {Error EIO, Error ENOMEM} \<or>
    (\<exists>pos' vcn' rl'. mp_loop malloc_ok mem aend pos vcn lcn rl rlsize = Ok (pos', vcn', rl') \<and>
      rl_linked v0 rl' vcn')"
  using assms
proof (induction malloc_ok mem aend pos vcn lcn rl rlsize rule: mp_loop.induct)
  case (1 malloc_ok mem aend pos vcn lcn rl rlsize)
  show ?case
  proof (cases "pos \<ge> aend \<or> mem ! pos = 0")
    case True
    with "1.prems" show ?thesis by (subst (1 2) mp_loop.simps) auto
  next
    case False
    let ?h = "mem ! pos"
    have rd: "rd mem pos = Ok ?h" using False "1.prems"(1) by simp
    consider (nomem) "mp_grow malloc_ok (length rl) rlsize = Error ENOMEM"
      | (grow) sz where "mp_grow malloc_ok (length rl) rlsize = Ok sz"
      using mp_grow_cases by blast
    then show ?thesis
    proof cases
      case nomem
      with False rd show ?thesis by (subst (1 2) mp_loop.simps) auto
    next
      case grow
      from mp_run_length_safe [OF "1.prems"(1), of pos ?h] show ?thesis
      proof
        assume "mp_run_length mem aend pos ?h = Error EIO"
        with False rd grow show ?thesis by (subst (1 2) mp_loop.simps) auto
      next
        assume "\<exists>n. mp_run_length mem aend pos ?h = Ok n \<and> 0 \<le> n \<and> 0 < unat (?h AND 15)"
        then obtain n where n: "mp_run_length mem aend pos ?h = Ok n" "0 \<le> n" "0 < unat (?h AND 15)"
          by blast
        from mp_run_lcn_safe [OF "1.prems"(1), of pos ?h lcn] show ?thesis
        proof
          assume "mp_run_lcn mem aend pos ?h lcn = Error EIO"
          with False rd grow n show ?thesis by (subst (1 2) mp_loop.simps) auto
        next
          assume "\<exists>m lcn'. mp_run_lcn mem aend pos ?h lcn = Ok (m, lcn') \<and> - 1 \<le> m"
          then obtain m lcn' where m: "mp_run_lcn mem aend pos ?h lcn = Ok (m, lcn')" "- 1 \<le> m" by blast
          let ?pos = "pos + unat (?h AND 15) + unat (drop_bit 4 ?h AND 15) + 1"
          let ?rl = "rl @ [mk_rle vcn m n]"
          have "\<not> length rl \<ge> 65535" using "1.prems"(2,3) False by auto
          moreover from this have "mp_loop malloc_ok mem aend ?pos (s64 (vcn + n)) lcn' ?rl sz \<in>
              {Error EIO, Error ENOMEM} \<or>
            (\<exists>pos' vcn' rl'. mp_loop malloc_ok mem aend ?pos (s64 (vcn + n)) lcn' ?rl sz =
              Ok (pos', vcn', rl') \<and> rl_linked v0 rl' vcn')"
            using "1.IH" [OF _ rd _ grow n(1) m(1) refl] False "1.prems" n(2,3) m(2)
            by (auto simp: rl_linked_append)
          ultimately show ?thesis
            using False rd grow n(1) m(1) by (subst (1 2) mp_loop.simps) auto
        qed
      qed
    qed
  qed
qed

definition linked_rl :: "runlist \<Rightarrow> bool" where
  "linked_rl rl \<longleftrightarrow>
     (\<exists>runs t. rl = runs @ [t] \<and> rl_linked 0 runs (rl_vcn t) \<and> rl_len t = 0 \<and> rl_lcn t < LCN_HOLE)"

lemma mp_terminate_safe:
  assumes "rl_linked 0 rl vcn" and "0 \<le> na_highest_vcn a"
  shows "mp_terminate vol a vcn rl = Error EIO \<or>
    (\<exists>rl'. mp_terminate vol a vcn rl = Ok rl' \<and> linked_rl rl')"
proof -
  define mc where "mc = s64 (s64 (na_allocated_size a + int (cluster_size vol) - 1) div
      2 ^ cluster_size_bits vol - 1)"
  have mc: "in_s64 mc" by (simp add: mc_def)
  have last: "linked_rl (rl @ [mk_rle vcn l 0])" if "l < - 1" for l
    using assms(1) that unfolding linked_rl_def by force
  have tail: "linked_rl (rl @ [mk_rle vcn LCN_RL_NOT_MAPPED n, mk_rle (s64 (vcn + n)) LCN_ENOENT 0])"
    if "0 \<le> n" for n
    using assms(1) that unfolding linked_rl_def
    by (intro exI [of _ "rl @ [mk_rle vcn LCN_RL_NOT_MAPPED n]"] exI [of _ "mk_rle (s64 (vcn + n)) LCN_ENOENT 0"])
      (auto simp: rl_linked_append)
  have "0 \<le> s64 (mc - na_highest_vcn a)" if "na_highest_vcn a < mc"
    using that mc assms(2) by (subst s64_id) (auto simp: in_s64_def)
  then show ?thesis
    using last [of "- 2"] last [of "- 3"] tail
    by (simp add: mp_terminate_def Let_def mc_def [symmetric])
qed

text \<open>
  C20. Any array. Let a non-resident attribute have at most 65535 bytes, a lowest and a highest vcn that are not
  negative, and no runlist yet. Whatever bytes its mapping pairs array holds, as long as the byte behind
  the attribute record still belongs to the buffer the decompressor does not read outside the buffer, does
  not overflow its element counter, and returns: either one of its two error codes, or "nothing
  to do", or a runlist whose elements follow each other from vcn 0 on with lengths that are not
  negative and lcns that are valid or special, closed by a terminator of length 0.
\<close>

theorem mapping_pairs_decompress_safe:
  assumes "na_length a < length (na_mem a)" and "na_length a \<le> 65535"
    and "0 \<le> na_lowest_vcn a" and "na_lowest_vcn a < 9223372036854775808"
    and "0 \<le> na_highest_vcn a"
  shows "case ntfs_mapping_pairs_decompress malloc_ok mem vol a None of
      Ok None \<Rightarrow> na_lowest_vcn a = 0
    | Ok (Some rl) \<Rightarrow> linked_rl rl
    | Error err \<Rightarrow> err = EIO \<or> err = ENOMEM
    | _ \<Rightarrow> False"
proof (cases "na_mp_offset a > na_length a")
  case True
  then show ?thesis by (simp add: mp_decompress_def Let_def)
next
  case False
  let ?rl = "if na_lowest_vcn a \<noteq> 0 then [mk_rle 0 LCN_RL_NOT_MAPPED (na_lowest_vcn a)] else []"
  obtain h where rd: "rd (na_mem a) (na_mp_offset a) = Ok h" using False assms(1) by simp
  have "rl_linked 0 ?rl (na_lowest_vcn a)" using assms(3,4) by (simp add: s64_id)
  have "2 * length ?rl \<le> na_mp_offset a + 2" by simp
  from mp_loop_safe [OF assms(1,2) this \<open>rl_linked 0 ?rl (na_lowest_vcn a)\<close>, of malloc_ok 0 PAGE_SIZE]
  consider (err) e where "mp_loop malloc_ok (na_mem a) (na_length a) (na_mp_offset a) (na_lowest_vcn a) 0 ?rl PAGE_SIZE = Error e"
      "e = EIO \<or> e = ENOMEM"
    | (ok) p v rl where "mp_loop malloc_ok (na_mem a) (na_length a) (na_mp_offset a) (na_lowest_vcn a) 0 ?rl PAGE_SIZE = Ok (p, v, rl)"
      "rl_linked 0 rl v" by auto
  then show ?thesis
  proof cases
    case err
    with False rd show ?thesis by (cases "na_lowest_vcn a = 0") (simp_all add: mp_decompress_def Let_def)
  next
    case ok
    with False rd mp_terminate_safe [OF ok(2) assms(5), of vol] show ?thesis
      by (cases "na_lowest_vcn a = 0") (auto simp: mp_decompress_def Let_def)
  qed
qed

theorem mapping_pairs_decompress_safe_witness:
  "case ntfs_mapping_pairs_decompress (\<lambda>n. True) merge_mem mp_volume
        (mp_attr_example\<lparr>na_length := 72\<rparr>) None of
      Ok None \<Rightarrow> True | Ok (Some rl) \<Rightarrow> linked_rl rl | Error err \<Rightarrow> err = EIO \<or> err = ENOMEM | _ \<Rightarrow> False"
  using mapping_pairs_decompress_safe [of "mp_attr_example\<lparr>na_length := 72\<rparr>" "\<lambda>n. True" merge_mem mp_volume]
  by (simp add: mp_attr_example_def mp_example_facts split: result.splits option.splits)

text \<open>A run whose length or lcn field ends with the byte behind the attribute record.\<close>

definition run_overruns :: "u8 list \<Rightarrow> nat \<Rightarrow> nat \<Rightarrow> bool" where
  "run_overruns mem aend pos \<longleftrightarrow>
     (let b = unat (mem ! pos AND 15); l = unat (drop_bit 4 (mem ! pos) AND 15) in
      0 < b \<and> (pos + b = aend \<or> 0 < l \<and> pos + b + l = aend \<and> 0 \<le> mp_decode (take b (drop (pos + 1) mem))))"

lemma mp_loop_overrun:
  assumes "pos < length mem" and "run_overruns mem (length mem) pos" and "mp_grow malloc_ok (length rl) rlsize = Ok sz"
  shows "mp_loop malloc_ok mem (length mem) pos vcn lcn rl rlsize = Oob"
proof -
  let ?b = "unat (mem ! pos AND 15)" and ?l = "unat (drop_bit 4 (mem ! pos) AND 15)"
  have h: "mem ! pos \<noteq> 0" "0 < ?b" using assms(2) by (auto simp: run_overruns_def Let_def)
  consider "pos + ?b = length mem" | "0 < ?l" "pos + ?b + ?l = length mem" "0 \<le> mp_decode (take ?b (drop (pos + 1) mem))"
    using assms(2) by (auto simp: run_overruns_def Let_def)
  then have "bind_result (mp_run_length mem (length mem) pos (mem ! pos)) (\<lambda>len.
      mp_run_lcn mem (length mem) pos (mem ! pos) lcn) = Oob"
  proof cases
    case 1
    then show ?thesis using h(2) by (simp add: mp_run_length_def Let_def rd_bytes_def)
  next
    case 2
    then show ?thesis using h(2) by (simp add: mp_run_length_def mp_run_lcn_def Let_def rd_bytes_def)
  qed
  then show ?thesis
    using assms(1,3) h(1) by (subst mp_loop.simps) (cases "mp_run_length mem (length mem) pos (mem ! pos)"; simp)
qed

text \<open>
  C36. One byte too far. When an attribute record ends exactly where its buffer ends, any first run whose length
  field or whose lcn field is one byte longer than the record makes the decompressor read the
  byte behind the buffer instead of reporting an error: the bounds \<^verbatim>\<open>buf + b > attr_end\<close> are off by
  one, \<^verbatim>\<open>buf[b]\<close> being the last byte that is read.
\<close>

theorem mapping_pairs_overruns_attribute:
  assumes "length (na_mem a) = na_length a" and "na_mp_offset a < na_length a"
    and "run_overruns (na_mem a) (na_length a) (na_mp_offset a)" and "malloc_ok PAGE_SIZE"
  shows "ntfs_mapping_pairs_decompress malloc_ok mem vol a old_rl = Oob"
proof -
  let ?h = "na_mem a ! na_mp_offset a"
  have h: "?h \<noteq> 0" using assms(3) by (auto simp: run_overruns_def Let_def)
  have "mp_grow malloc_ok (length rl) PAGE_SIZE = Ok PAGE_SIZE" if "length rl \<le> 1" for rl :: runlist
    using that by (simp add: mp_grow_def PAGE_SIZE_def)
  then have "mp_loop malloc_ok (na_mem a) (na_length a) (na_mp_offset a) vcn 0 rl PAGE_SIZE = Oob" if "length rl \<le> 1" for vcn rl
    using mp_loop_overrun [of "na_mp_offset a" "na_mem a" malloc_ok rl PAGE_SIZE PAGE_SIZE vcn 0] assms(1-3) that by simp
  then show ?thesis
    using assms h by (simp add: ntfs_mapping_pairs_decompress_def mp_decompress_def Let_def)
qed

theorem mapping_pairs_overruns_attribute_witness:
  "run_overruns (replicate 72 0 @ [0x11, 5]) 74 72 \<and>
   ntfs_mapping_pairs_decompress (\<lambda>n. True) merge_mem mp_volume
     \<lparr>na_mem = replicate 72 0 @ [0x11, 5], na_length = 74, na_mp_offset = 72, na_lowest_vcn = 0, na_highest_vcn = 4,
      na_allocated_size = 4096\<rparr> None = Oob"
proof -
  let ?a = "\<lparr>na_mem = replicate 72 0 @ [0x11, 5], na_length = 74, na_mp_offset = 72, na_lowest_vcn = 0, na_highest_vcn = 4,
      na_allocated_size = 4096\<rparr>"
  have o: "run_overruns (replicate 72 0 @ [0x11, 5]) 74 72" by code_simp
  show ?thesis using mapping_pairs_overruns_attribute [of ?a "\<lambda>n. True" merge_mem mp_volume None] o by simp
qed

end
