(* ===== verification/Ntfs_Runlist_Edit.thy ===== *)
theory Ntfs_Runlist_Edit
  imports Ntfs_Runlist_Merge
begin

text \<open>
  Changing a runlist in place (\<^verbatim>\<open>ntfs/runlist.c\<close>): truncating or extending it to a new length
  and punching a hole. A pointer into the array is the index it points to; the two routines
  share the allocator parameter of the merging theory.
\<close>

section \<open>Finding a position\<close>

text \<open>The index of the element that contains \<open>v\<close>, or of the terminator.\<close>

fun rl_seek :: "runlist \<Rightarrow> int \<Rightarrow> nat result" where
  "rl_seek [] v = Oob"
| "rl_seek (e # rest) v =
     (if rl_len e \<noteq> 0 then
        (case rest of
           [] \<Rightarrow> Oob
         | e1 # _ \<Rightarrow>
             if v \<ge> rl_vcn e1 then bind_result (rl_seek rest v) (\<lambda>i. Ok (Suc i)) else Ok 0)
      else Ok 0)"

text \<open>Shrinking the buffer: a failure only wastes memory.\<close>

definition rl_shrink :: "rl_mem \<Rightarrow> runlist \<Rightarrow> nat \<Rightarrow> nat \<Rightarrow> runlist" where
  "rl_shrink mem rl old_size new_size =
     (case ntfs_rl_realloc mem rl old_size new_size of Ok rl' \<Rightarrow> rl' | _ \<Rightarrow> rl)"

section \<open>Truncation\<close>

text \<open>The new length lies in the run \<open>i\<close>.\<close>

definition rl_truncate_shrink :: "rl_mem \<Rightarrow> runlist \<Rightarrow> nat \<Rightarrow> int \<Rightarrow> runlist result" where
  "rl_truncate_shrink mem rl i new_length =
     bind_result (scan_end (drop (i + 1) rl)) (\<lambda>j.
     let old_size = i + 1 + j + 1 in
     bind_result (rd rl i) (\<lambda>e.
     let n = s64 (new_length - rl_vcn e) in
     bind_result (wr rl i (e\<lparr>rl_len := n\<rparr>)) (\<lambda>rl.
     bind_result
       (if n \<noteq> 0 then
          bind_result (rd rl (i + 1)) (\<lambda>e1.
          bind_result (wr rl (i + 1) (e1\<lparr>rl_vcn := new_length, rl_len := 0\<rparr>)) (\<lambda>rl.
            Ok (rl, i + 1, rl_len e1 = 0)))
        else Ok (rl, i, False)) (\<lambda>(rl, i, is_end).
     bind_result (upd_elem rl i (\<lambda>e. e\<lparr>rl_lcn := LCN_ENOENT\<rparr>)) (\<lambda>rl.
       Ok (if is_end then rl else rl_shrink mem rl old_size (i + 1)))))))"

text \<open>The new length lies behind the terminator \<open>i\<close>.\<close>

definition rl_truncate_expand :: "rl_mem \<Rightarrow> runlist \<Rightarrow> nat \<Rightarrow> int \<Rightarrow> runlist result" where
  "rl_truncate_expand mem rl i new_length =
     bind_result
       (if i > 0 then bind_result (rd rl (i - 1)) (\<lambda>p. Ok (rl_lcn p = LCN_HOLE)) else Ok False) (\<lambda>sparse.
     bind_result
       (if sparse then
          bind_result (upd_elem rl (i - 1) (\<lambda>p. p\<lparr>rl_len := s64 (new_length - rl_vcn p)\<rparr>)) (\<lambda>rl.
            Ok (rl, i))
        else
          bind_result (ntfs_rl_realloc mem rl (i + 1) (i + 2)) (\<lambda>rl.
          bind_result (upd_elem rl i
              (\<lambda>e. e\<lparr>rl_lcn := LCN_HOLE, rl_len := s64 (new_length - rl_vcn e)\<rparr>)) (\<lambda>rl.
          bind_result (upd_elem rl (i + 1) (\<lambda>e. e\<lparr>rl_len := 0\<rparr>)) (\<lambda>rl.
            Ok (rl, i + 1))))) (\<lambda>(rl, i).
       upd_elem rl i (\<lambda>e. e\<lparr>rl_vcn := new_length, rl_lcn := LCN_ENOENT\<rparr>)))"

definition ntfs_rl_truncate_nolock :: "rl_mem \<Rightarrow> runlist option \<Rightarrow> int \<Rightarrow> runlist option result" where
  "ntfs_rl_truncate_nolock mem rlo new_length =
     (if new_length < 0 then Bug
      else if new_length = 0 then Ok None
      else case rlo of
        None \<Rightarrow>
          if alloc_ok mem then
            Ok (Some (rl_extend mem [mk_rle 0 LCN_HOLE new_length, mk_rle new_length LCN_ENOENT 0]
              (PAGE_SIZE div 24)))
          else Error ENOMEM
      | Some rl \<Rightarrow>
          bind_result (rd rl 0) (\<lambda>e0.
          if new_length < rl_vcn e0 then Bug
          else bind_result (rl_seek rl new_length) (\<lambda>i.
          bind_result (rd rl i) (\<lambda>e.
          bind_result
            (if rl_len e \<noteq> 0 then rl_truncate_shrink mem rl i new_length
             else if new_length > rl_vcn e then rl_truncate_expand mem rl i new_length
             else wr rl i (e\<lparr>rl_lcn := LCN_ENOENT\<rparr>)) (\<lambda>rl. Ok (Some rl))))))"

section \<open>Punching a hole\<close>

text \<open>The element of \<open>v\<close> from index \<open>i\<close> on, checking that no run on the way is unmapped.\<close>

fun punch_end :: "runlist \<Rightarrow> int \<Rightarrow> nat result" where
  "punch_end [] v = Oob"
| "punch_end (e # rest) v =
     (if rl_len e \<noteq> 0 then
        (case rest of
           [] \<Rightarrow> Oob
         | e1 # _ \<Rightarrow>
             if v \<ge> rl_vcn e1 then
               (if rl_lcn e < LCN_HOLE then Error EINVAL
                else bind_result (punch_end rest v) (\<lambda>i. Ok (Suc i)))
             else Ok 0)
      else Ok 0)"

text \<open>\<^verbatim>\<open>shrink_allocation\<close>: give back the elements between \<open>i\<close> and \<open>k\<close>.\<close>

definition punch_shrink :: "rl_mem \<Rightarrow> runlist \<Rightarrow> nat \<Rightarrow> nat \<Rightarrow> nat \<Rightarrow> runlist" where
  "punch_shrink mem rl old_size i k =
     (if i < k then rl_shrink mem rl old_size (old_size - (k - i)) else rl)"

text \<open>\<^verbatim>\<open>extend_hole\<close>: element \<open>i\<close> is a hole that is to reach up to \<open>vend\<close>, which lies in element \<open>k\<close>.\<close>

definition punch_extend_hole ::
  "rl_mem \<Rightarrow> runlist \<Rightarrow> nat \<Rightarrow> nat \<Rightarrow> nat \<Rightarrow> int \<Rightarrow> runlist result" where
  "punch_extend_hole mem rl i k real_end vend =
     (let old_size = real_end + 1 in
      bind_result (upd_elem rl i (\<lambda>e. e\<lparr>rl_len := s64 (vend - rl_vcn e)\<rparr>)) (\<lambda>rl.
      bind_result (rd rl k) (\<lambda>x.
      bind_result
        (if rl_lcn x = LCN_HOLE then
           bind_result (rd rl (k + 1)) (\<lambda>y.
           bind_result (upd_elem rl i (\<lambda>e. e\<lparr>rl_len := s64 (rl_vcn y - rl_vcn e)\<rparr>)) (\<lambda>rl.
             Ok (rl, k + 1)))
         else Ok (rl, k)) (\<lambda>(rl, k).
      bind_result (if i + 1 < k then ntfs_rl_mm rl (i + 1) k (real_end + 1 - k) else Ok rl) (\<lambda>rl.
      bind_result (rd rl (i + 1)) (\<lambda>x.
      bind_result
        (if vend > rl_vcn x then
           (let delta = s64 (vend - rl_vcn x) in
            wr rl (i + 1) (mk_rle vend
              (if rl_lcn x \<ge> 0 then s64 (rl_lcn x + delta) else rl_lcn x) (s64 (rl_len x - delta))))
         else Ok rl) (\<lambda>rl.
      Ok (punch_shrink mem rl old_size (i + 1) k))))))))"

text \<open>\<^verbatim>\<open>split_end\<close>: the first \<open>n\<close> clusters of element \<open>i\<close> become a hole.\<close>

definition punch_split_end :: "runlist \<Rightarrow> nat \<Rightarrow> nat \<Rightarrow> int \<Rightarrow> bool \<Rightarrow> runlist result" where
  "punch_split_end rl i real_end n lcn_fixup =
     bind_result (ntfs_rl_mm rl (i + 1) i (real_end + 1 - i)) (\<lambda>rl.
     bind_result (upd_elem rl i (\<lambda>e. e\<lparr>rl_lcn := LCN_HOLE, rl_len := n\<rparr>)) (\<lambda>rl.
       upd_elem rl (i + 1) (\<lambda>e. mk_rle (s64 (rl_vcn e + n))
         (if rl_lcn e \<ge> 0 \<or> lcn_fixup then s64 (rl_lcn e + n) else rl_lcn e) (s64 (rl_len e - n)))))"

text \<open>The run that contains the start is neither a hole nor starts there.\<close>

definition punch_inside ::
  "rl_mem \<Rightarrow> runlist \<Rightarrow> nat \<Rightarrow> nat \<Rightarrow> nat \<Rightarrow> int \<Rightarrow> int \<Rightarrow> int \<Rightarrow> runlist result" where
  "punch_inside mem rl i k real_end start n vend =
     (let old_size = real_end + 1 in
      bind_result (rd rl k) (\<lambda>x.
      if rl_lcn x = LCN_HOLE then
        bind_result (upd_elem rl i (\<lambda>e. e\<lparr>rl_len := s64 (start - rl_vcn e)\<rparr>)) (\<lambda>rl.
        bind_result (if i + 1 < k then ntfs_rl_mm rl (i + 1) k (real_end + 1 - k) else Ok rl) (\<lambda>rl.
        bind_result (rd rl (i + 2)) (\<lambda>y.
        bind_result (upd_elem rl (i + 1) (\<lambda>e. e\<lparr>rl_vcn := start, rl_len := s64 (rl_vcn y - start)\<rparr>)) (\<lambda>rl.
          Ok (punch_shrink mem rl old_size (i + 1) k)))))
      else
        bind_result (rd rl (i + 1)) (\<lambda>e1.
        if vend \<ge> rl_vcn e1 then
          bind_result
            (if rl_len e1 \<noteq> 0 then bind_result (rd rl (i + 2)) (\<lambda>e2. Ok (vend \<ge> rl_vcn e2))
             else Ok False) (\<lambda>further.
          if further then
            bind_result (upd_elem rl i (\<lambda>e. e\<lparr>rl_len := s64 (start - rl_vcn e)\<rparr>)) (\<lambda>rl.
            bind_result (upd_elem rl (i + 1) (\<lambda>e. e\<lparr>rl_vcn := start, rl_lcn := LCN_HOLE\<rparr>)) (\<lambda>rl.
              punch_extend_hole mem rl (i + 1) k real_end vend))
          else
            bind_result (ntfs_rl_realloc mem rl old_size (old_size + 1)) (\<lambda>rl.
            bind_result (upd_elem rl i (\<lambda>e. e\<lparr>rl_len := s64 (start - rl_vcn e)\<rparr>)) (\<lambda>rl.
            let delta = s64 (rl_vcn e1 - start) in
            bind_result (wr rl (i + 1) (mk_rle start
                (if rl_lcn e1 \<ge> 0 then s64 (rl_lcn e1 - delta) else rl_lcn e1)
                (s64 (rl_len e1 + delta)))) (\<lambda>rl.
              punch_split_end rl (i + 1) real_end n (rl_lcn e1 \<ge> 0)))))
        else
          bind_result (ntfs_rl_realloc mem rl old_size (old_size + 2)) (\<lambda>rl.
          bind_result (ntfs_rl_mm rl (i + 2) i (real_end + 1 - i)) (\<lambda>rl.
          bind_result (upd_elem rl i (\<lambda>e. e\<lparr>rl_len := s64 (start - rl_vcn e)\<rparr>)) (\<lambda>rl.
          bind_result (upd_elem rl (i + 1) (\<lambda>e. mk_rle start LCN_HOLE n)) (\<lambda>rl.
            upd_elem rl (i + 2) (\<lambda>e.
              let delta = s64 (vend - rl_vcn e) in
              mk_rle vend (s64 (rl_lcn e + delta)) (s64 (rl_len e - delta))))))))))"

definition ntfs_rl_punch_nolock ::
  "rl_mem \<Rightarrow> runlist option \<Rightarrow> int \<Rightarrow> int \<Rightarrow> runlist option result" where
  "ntfs_rl_punch_nolock mem rlo start n =
     (let vend = s64 (start + n) in
      if start < 0 \<or> n < 0 \<or> vend < 0 then Bug
      else case rlo of
        None \<Rightarrow> if start = 0 \<and> n = 0 then Ok None else Error ENOENT
      | Some rl \<Rightarrow>
          bind_result (rl_seek rl start) (\<lambda>i.
          bind_result (punch_end (drop i rl) vend) (\<lambda>d.
          let k = i + d in
          bind_result (rd rl i) (\<lambda>e.
          bind_result (rd rl k) (\<lambda>x.
          if rl_len x \<noteq> 0 \<and> rl_lcn x < LCN_HOLE then Error EINVAL
          else if rl_len x = 0 \<and> vend > rl_vcn x then Error ENOENT
          else if n = 0 then Ok (Some rl)
          else if rl_len e = 0 then Error ENOENT
          else bind_result (scan_end (drop k rl)) (\<lambda>j.
            let real_end = k + j in
            bind_result (rd rl (i + 1)) (\<lambda>e1.
            bind_result
              (if rl_lcn e = LCN_HOLE then
                 (if vend \<le> rl_vcn e1 then Ok rl else punch_extend_hole mem rl i k real_end vend)
               else if start = rl_vcn e then
                 bind_result
                   (if i > 0 then bind_result (rd rl (i - 1)) (\<lambda>p. Ok (rl_lcn p = LCN_HOLE)) else Ok False)
                   (\<lambda>sparse.
                   if sparse then punch_extend_hole mem rl (i - 1) k real_end vend
                   else if vend \<ge> rl_vcn e1 then
                     bind_result (wr rl i (e\<lparr>rl_lcn := LCN_HOLE\<rparr>)) (\<lambda>rl.
                       punch_extend_hole mem rl i k real_end vend)
                   else
                     bind_result (ntfs_rl_realloc mem rl (real_end + 1) (real_end + 2)) (\<lambda>rl.
                       punch_split_end rl i real_end n False))
               else punch_inside mem rl i k real_end start n vend) (\<lambda>rl. Ok (Some rl)))))))))"

section \<open>Truncation is correct\<close>

lemma rl_seek_eq:
  assumes "rl_chain s rl" and "s \<le> v"
  shows "\<exists>pre e rest. rl = pre @ e # rest \<and> rl_seek rl v = Ok (length pre) \<and> rl_seg s pre (rl_vcn e) \<and>
    rl_chain (rl_vcn e) (e # rest) \<and> rl_vcn e \<le> v \<and> (rl_len e \<noteq> 0 \<longrightarrow> v < rl_vcn e + rl_len e)"
  using assms
proof (induction rl arbitrary: s)
  case (Cons e rest)
  show ?case
  proof (cases "rl_len e = 0")
    case True
    with Cons.prems show ?thesis by (intro exI [of _ "[]"]) auto
  next
    case False
    then have c: "rl_chain (s + rl_len e) rest" and e: "rl_vcn e = s" "0 < rl_len e"
      "LCN_RL_NOT_MAPPED \<le> rl_lcn e" "rl_lcn e + rl_len e < 9223372036854775808"
      using Cons.prems by auto
    obtain e1 r where r: "rest = e1 # r" and e1: "rl_vcn e1 = s + rl_len e" using c by (cases rest) auto
    show ?thesis
    proof (cases "s + rl_len e \<le> v")
      case True
      from Cons.IH [OF c True] obtain pre x rest' where IH: "rest = pre @ x # rest'"
        "rl_seek rest v = Ok (length pre)" "rl_seg (s + rl_len e) pre (rl_vcn x)"
        "rl_chain (rl_vcn x) (x # rest')" "rl_vcn x \<le> v" "rl_len x \<noteq> 0 \<longrightarrow> v < rl_vcn x + rl_len x"
        by blast
      have "rl_seek (e # rest) v = Ok (length (e # pre))"
        using False e1 True r IH(2) by simp
      moreover have "rl_seg s (e # pre) (rl_vcn x)" using e IH(3) by simp
      ultimately show ?thesis using IH(1,4,5,6) by (metis append_Cons)
    next
      case lt: False
      then show ?thesis
        using False e e1 r Cons.prems
        by (intro exI [of _ "[]"] exI [of _ e] exI [of _ rest] conjI) simp_all
    qed
  qed
qed simp

lemma rl_shrink_keeps:
  assumes "k \<le> length rl" and "k \<le> n"
  shows "\<exists>j. rl_shrink mem rl n k = take k rl @ j"
proof -
  have "k \<le> PAGE_ALIGN (k * 24) div 24" using page_align_ge [of "k * 24"] by linarith
  moreover have "min (PAGE_ALIGN (n * 24)) (PAGE_ALIGN (k * 24)) = PAGE_ALIGN (k * 24)"
    using page_align_mono [of "k * 24" "n * 24"] assms(2) by simp
  ultimately have "take k (rl_shrink mem rl n k) = take k rl"
    using rl_extend_keeps(1) [of k rl mem k]
      rl_extend_keeps(1) [of k "take (PAGE_ALIGN (k * 24) div 24) rl" mem k] assms(1)
    by (auto simp: rl_shrink_def ntfs_rl_realloc_def Let_def min_absorb1)
  then show ?thesis by (metis append_take_drop_id)
qed

lemma rl_closed:
  assumes "rl_seg 0 xs n" and "n < 9223372036854775808" and "rl_vcn t = n" and "rl_len t = 0"
    and "rl_lcn t = LCN_ENOENT"
  shows "rl_wf (xs @ t # j)" and "rl_end (xs @ t # j) = n"
    and "0 \<le> x \<Longrightarrow> rl_map (xs @ t # j) x = (if x < n then rl_map xs x else LCN_ENOENT)"
proof -
  show "rl_wf (xs @ t # j)" using assms rl_chain_seg [OF assms(1)] by (simp add: rl_wf_def)
  show "rl_end (xs @ t # j) = n"
    using rl_seg_len [OF assms(1)] assms(3,4) by (induction xs) auto
  show "rl_map (xs @ t # j) x = (if x < n then rl_map xs x else LCN_ENOENT)" if "0 \<le> x"
    using rl_map_seg [OF assms(1) that, of "t # j"] assms(4,5) by simp
qed

lemma rl_end_seg: "rl_seg v xs v' \<Longrightarrow> rl_end (xs @ ys) = rl_end ys"
  by (induction xs arbitrary: v) auto

definition truncated :: "runlist \<Rightarrow> int \<Rightarrow> runlist \<Rightarrow> bool" where
  "truncated rl n rl' \<longleftrightarrow>
     rl_wf rl' \<and> rl_end rl' = n \<and>
     (\<forall>x\<ge>0. rl_map rl' x =
       (if x \<ge> n then LCN_ENOENT else if x < rl_end rl then rl_map rl x else LCN_HOLE))"

lemma truncate_shrink_eq:
  assumes wf: "rl_wf rl" and rl: "rl = pre @ e # rest" and seg: "rl_seg 0 pre (rl_vcn e)"
    and c: "rl_chain (rl_vcn e) (e # rest)" and len: "rl_len e \<noteq> 0" and n: "rl_vcn e \<le> n" "n < rl_vcn e + rl_len e"
    and pos: "0 < n"
  shows "\<exists>rl'. rl_truncate_shrink mem rl (length pre) n = Ok rl' \<and> truncated rl n rl'"
proof -
  have crest: "rl_chain (rl_vcn e + rl_len e) rest" and e: "0 < rl_len e" "LCN_RL_NOT_MAPPED \<le> rl_lcn e"
      "rl_lcn e + rl_len e < 9223372036854775808" using c len by auto
  have b: "rl_vcn e + rl_len e < 9223372036854775808" using rl_chain_ge [OF crest] .
  have v: "0 \<le> rl_vcn e" using rl_seg_le [OF seg] .
  have s: "s64 (n - rl_vcn e) = n - rl_vcn e" using v n b by (intro s64_id) auto
  obtain ps t junk where post: "rest = ps @ t # junk" "rl_len t = 0" "\<forall>e\<in>set ps. rl_len e \<noteq> 0"
    using rl_chain_terminated [OF crest] by blast
  have scan: "scan_end rest = Ok (length ps)"
    using scan_end_eq [OF post(3,2), of junk] by (simp add: post(1))
  have re: "n \<le> rl_end rl"
    using rl_chain_end [OF crest] n len by (simp add: rl rl_end_seg [OF seg])
  show ?thesis
  proof (cases "n = rl_vcn e")
    case True
    let ?t = "e\<lparr>rl_len := 0, rl_lcn := LCN_ENOENT\<rparr>"
    obtain j where j: "rl_shrink mem (pre @ ?t # rest) (length pre + 1 + length ps + 1) (length pre + 1) =
        (pre @ [?t]) @ j"
      using rl_shrink_keeps [of "length pre + 1" "pre @ ?t # rest" "length pre + 1 + length ps + 1" mem] by auto
    have "rl_truncate_shrink mem rl (length pre) n = Ok (pre @ ?t # j)"
      using True s j by (simp add: rl_truncate_shrink_def scan rl cell_simps del: rd_in wr_in)
    moreover have "truncated rl n (pre @ ?t # j)"
    proof -
      note cl = rl_closed [where xs = pre and n = n and t = ?t and j = j]
      have "rl_map rl x = rl_map pre x" if "0 \<le> x" "x < n" for x
        using rl_map_seg [OF seg that(1), of "e # rest"] that True by (simp add: rl)
      then show ?thesis using cl seg True b n re by (auto simp: truncated_def)
    qed
    ultimately show ?thesis by blast
  next
    case False
    obtain e1 r where r: "rest = e1 # r" using crest by (cases rest) auto
    let ?e = "e\<lparr>rl_len := n - rl_vcn e\<rparr>"
    let ?t = "e1\<lparr>rl_vcn := n, rl_len := 0, rl_lcn := LCN_ENOENT\<rparr>"
    obtain j where j: "rl_shrink mem (pre @ ?e # ?t # r) (length pre + 1 + length ps + 1) (length pre + 2) =
        (pre @ [?e, ?t]) @ j" if "ps \<noteq> []"
      using rl_shrink_keeps [of "length pre + 2" "pre @ ?e # ?t # r" "length pre + 1 + length ps + 1" mem]
      by (cases ps) auto
    have e1: "rl_len e1 = 0 \<longleftrightarrow> ps = []" using post r by (cases ps) auto
    have "rl_truncate_shrink mem rl (length pre) n = Ok (pre @ ?e # ?t # (if ps = [] then r else j))"
      using False s j e1 scan [unfolded r]
      by (simp add: rl_truncate_shrink_def rl r cell_simps Let_def del: rd_in wr_in scan_end.simps)
    moreover have "truncated rl n (pre @ ?e # ?t # j')" for j'
    proof -
      have seg': "rl_seg 0 (pre @ [?e]) n" using seg n False e by (auto simp: rl_seg_append)
      note cl = rl_closed [OF seg', where t = ?t and j = j']
      have "rl_map rl x = rl_map (pre @ [?e]) x" if "0 \<le> x" "x < n" for x
        using rl_map_seg [OF seg that(1), of "e # rest"] rl_map_seg [OF seg that(1), of "[?e]"] that n len False
        by (auto simp: rl)
      then show ?thesis using cl b n re by (auto simp: truncated_def)
    qed
    ultimately show ?thesis by blast
  qed
qed

lemma truncate_expand_eq:
  assumes rl: "rl = pre @ e # rest" and seg: "rl_seg 0 pre (rl_vcn e)"
    and len: "rl_len e = 0" and n: "rl_vcn e < n" "n < 9223372036854775808"
  shows "rl_truncate_expand mem rl (length pre) n = Error ENOMEM \<and> \<not> alloc_ok mem \<or>
    (\<exists>rl'. rl_truncate_expand mem rl (length pre) n = Ok rl' \<and> truncated rl n rl')"
proof -
  have v: "0 \<le> rl_vcn e" using rl_seg_le [OF seg] .
  have re: "rl_end rl = rl_vcn e" using len by (simp add: rl rl_end_seg [OF seg])
  have m: "rl_map rl x = rl_map pre x" if "0 \<le> x" "x < rl_vcn e" for x
    using rl_map_seg [OF seg that(1), of "e # rest"] that by (simp add: rl)
  show ?thesis
  proof (cases "pre \<noteq> [] \<and> rl_lcn (last pre) = LCN_HOLE")
    case True
    then obtain ps p where pre: "pre = ps @ [p]" and p: "rl_lcn p = LCN_HOLE" by (cases pre rule: rev_cases) auto
    let ?p = "p\<lparr>rl_len := n - rl_vcn p\<rparr>" and ?e = "e\<lparr>rl_vcn := n, rl_lcn := LCN_ENOENT\<rparr>"
    have ps: "rl_seg 0 ps (rl_vcn p)" "0 < rl_len p" "rl_vcn p + rl_len p = rl_vcn e"
      using seg by (auto simp: pre rl_seg_append)
    have "s64 (n - rl_vcn p) = n - rl_vcn p"
      using rl_seg_le [OF ps(1)] ps n by (intro s64_id) auto
    then have "rl_truncate_expand mem rl (length pre) n = Ok (ps @ ?p # ?e # rest)"
      using p by (simp add: rl_truncate_expand_def rl pre cell_simps del: rd_in wr_in)
    moreover have "truncated rl n (ps @ ?p # ?e # rest)"
    proof -
      have seg': "rl_seg 0 (ps @ [?p]) n"
        using ps n p rl_seg_le [OF ps(1)] by (auto simp: rl_seg_append)
      have "rl_map (ps @ [?p]) x = (if x < rl_vcn e then rl_map rl x else LCN_HOLE)" if "0 \<le> x" "x < n" for x
        using rl_map_seg [OF ps(1) that(1), of "[?p]"] rl_map_seg [OF ps(1) that(1), of "[p]"]
          m [OF that(1)] ps that p n by (auto simp: pre)
      then show ?thesis
        using rl_closed [OF seg', where t = ?e and j = rest] n re len by (auto simp: truncated_def)
    qed
    ultimately show ?thesis by blast
  next
    case False
    have sp: "(if 0 < length pre then bind_result (rd rl (length pre - 1)) (\<lambda>p. Ok (rl_lcn p = LCN_HOLE)) else Ok False) =
        Ok False"
      using False by (auto simp: rl rd_last simp del: rd_in)
    have n': "s64 (n - rl_vcn e) = n - rl_vcn e" using n v by (intro s64_id) auto
    show ?thesis
    proof (cases "ntfs_rl_realloc mem rl (length pre + 1) (length pre + 2)")
      case (Ok rl1)
      then obtain x j where rl1: "rl1 = pre @ e # x # j"
        using realloc_app [of "length pre + 1" "pre @ [e]" "length pre + 2" mem rest] rl
        by (auto simp: Suc_le_length_iff)
      let ?h = "e\<lparr>rl_lcn := LCN_HOLE, rl_len := n - rl_vcn e\<rparr>"
      let ?t = "x\<lparr>rl_len := 0, rl_vcn := n, rl_lcn := LCN_ENOENT\<rparr>"
      have "rl_truncate_expand mem rl (length pre) n = Ok (pre @ ?h # ?t # j)"
        unfolding rl_truncate_expand_def sp bind_result.simps if_False Ok
        by (simp add: rl1 n' cell_simps del: rd_in wr_in)
      moreover have "truncated rl n (pre @ ?h # ?t # j)"
      proof -
        have seg': "rl_seg 0 (pre @ [?h]) n" using seg n v by (auto simp: rl_seg_append)
        have "rl_map (pre @ [?h]) x = (if x < rl_vcn e then rl_map rl x else LCN_HOLE)" if "0 \<le> x" "x < n" for x
          using rl_map_seg [OF seg that(1), of "[?h]"] m [OF that(1)] that by auto
        then show ?thesis
          using rl_closed [OF seg', where t = ?t and j = j] n re by (auto simp: truncated_def)
      qed
      ultimately show ?thesis by blast
    qed (use realloc_app [of "length pre + 1" "pre @ [e]" "length pre + 2" mem rest] rl sp
         in \<open>auto simp: rl_truncate_expand_def\<close>)
  qed
qed

lemma truncated_same:
  assumes "rl_seg 0 pre (rl_vcn e)" and "rl_len e = 0" and "rl_vcn e < 9223372036854775808"
  shows "truncated (pre @ e # rest) (rl_vcn e) (pre @ e\<lparr>rl_lcn := LCN_ENOENT\<rparr> # rest)"
proof -
  have "rl_end (pre @ e # rest) = rl_vcn e" using assms(2) by (simp add: rl_end_seg [OF assms(1)])
  moreover have "rl_map (pre @ e # rest) x = rl_map pre x" if "0 \<le> x" "x < rl_vcn e" for x
    using rl_map_seg [OF assms(1) that(1), of "e # rest"] that by simp
  ultimately show ?thesis
    using rl_closed [OF assms(1), where t = "e\<lparr>rl_lcn := LCN_ENOENT\<rparr>" and j = rest] assms(2,3)
    by (auto simp: truncated_def)
qed

text \<open>
  C12. Truncating and extending a runlist. On a well-formed runlist, for every positive length
  below \<open>2 ^ 63\<close>, \<^verbatim>\<open>ntfs_rl_truncate_nolock\<close> returns a well-formed runlist that ends at the new
  length, keeps the mapping of every vcn below it, maps every vcn it adds to a hole and every
  vcn behind the end to "no such vcn". It fails only with \<^verbatim>\<open>ENOMEM\<close>, only when it has to extend
  the runlist and no memory can be had; shrinking never fails.
\<close>

theorem rl_truncate_correct:
  assumes "rl_wf rl" and "0 < n" and "n < 9223372036854775808"
  shows "ntfs_rl_truncate_nolock mem (Some rl) n = Error ENOMEM \<and> \<not> alloc_ok mem \<and> rl_end rl < n \<or>
    (\<exists>rl'. ntfs_rl_truncate_nolock mem (Some rl) n = Ok (Some rl') \<and> rl_wf rl' \<and> rl_end rl' = n \<and>
      (\<forall>x\<ge>0. rl_map rl' x =
        (if x \<ge> n then LCN_ENOENT else if x < rl_end rl then rl_map rl x else LCN_HOLE)))"
proof -
  obtain pre e rest where rl: "rl = pre @ e # rest" and i: "rl_seek rl n = Ok (length pre)"
    and seg: "rl_seg 0 pre (rl_vcn e)" and c: "rl_chain (rl_vcn e) (e # rest)"
    and e: "rl_vcn e \<le> n" "rl_len e \<noteq> 0 \<longrightarrow> n < rl_vcn e + rl_len e"
    using rl_seek_eq [of 0 rl n] assms by (auto simp: rl_wf_def)
  obtain e0 r0 where "rl = e0 # r0" "rl_vcn e0 = 0" using assms(1) by (cases rl) (auto simp: rl_wf_def)
  then have r0: "rd rl 0 = Ok e0" "\<not> n < rl_vcn e0" using assms(2) by auto
  have re: "rd rl (length pre) = Ok e" by (simp add: rl)
  let ?r = "if rl_len e \<noteq> 0 then rl_truncate_shrink mem rl (length pre) n
    else if rl_vcn e < n then rl_truncate_expand mem rl (length pre) n
    else wr rl (length pre) (e\<lparr>rl_lcn := LCN_ENOENT\<rparr>)"
  have eq: "ntfs_rl_truncate_nolock mem (Some rl) n = bind_result ?r (\<lambda>rl. Ok (Some rl))"
    using assms(2) r0 re i by (simp add: ntfs_rl_truncate_nolock_def del: rd_in)
  consider "rl_len e \<noteq> 0" | "rl_len e = 0" "rl_vcn e < n" | "rl_len e = 0" "n = rl_vcn e" using e(1) by linarith
  then have "?r = Error ENOMEM \<and> \<not> alloc_ok mem \<and> rl_end rl < n \<or> (\<exists>rl'. ?r = Ok rl' \<and> truncated rl n rl')"
  proof cases
    case 1
    then show ?thesis using truncate_shrink_eq [OF assms(1) rl seg c _ e(1)] e(2) assms(2) by simp
  next
    case 2
    then show ?thesis
      using truncate_expand_eq [OF rl seg 2 assms(3), of mem] by (auto simp: rl rl_end_seg [OF seg])
  next
    case 3
    then show ?thesis using truncated_same [OF seg 3(1), of rest] assms(3) by (simp add: rl)
  qed
  then show ?thesis unfolding eq truncated_def by auto
qed

theorem rl_truncate_correct_witness:
  "\<exists>rl'. ntfs_rl_truncate_nolock merge_mem (Some rl_example) 12 = Ok (Some rl') \<and> rl_wf rl' \<and>
     rl_end rl' = 12 \<and> rl_map rl' 7 = 107 \<and> rl_map rl' 11 = LCN_HOLE \<and> rl_map rl' 12 = LCN_ENOENT"
  using rl_truncate_correct [OF rl_example_wf, of 12 merge_mem] by (auto simp: rl_example_def)

section \<open>Punching is correct\<close>

lemma punch_end_eq:
  assumes "rl_chain s rl" and "s \<le> a" and "a \<le> v" and "rl_len (hd rl) \<noteq> 0 \<longrightarrow> a < s + rl_len (hd rl)"
  shows "punch_end rl v = Error EINVAL \<and> (\<exists>x. a \<le> x \<and> x \<le> v \<and> x < rl_end rl \<and> rl_map rl x < LCN_HOLE) \<or>
    (\<exists>ms x rest. rl = ms @ x # rest \<and> punch_end rl v = Ok (length ms) \<and> rl_seg s ms (rl_vcn x) \<and>
      (\<forall>e\<in>set ms. LCN_HOLE \<le> rl_lcn e) \<and>
      rl_chain (rl_vcn x) (x # rest) \<and> rl_vcn x \<le> v \<and> (rl_len x \<noteq> 0 \<longrightarrow> v < rl_vcn x + rl_len x))"
  using assms
proof (induction rl arbitrary: s a)
  case (Cons e rest)
  show ?case
  proof (cases "rl_len e = 0")
    case True
    with Cons.prems show ?thesis by (intro disjI2 exI [of _ "[]"]) auto
  next
    case False
    then have c: "rl_chain (s + rl_len e) rest" and e: "rl_vcn e = s" "0 < rl_len e"
      "LCN_RL_NOT_MAPPED \<le> rl_lcn e" "rl_lcn e + rl_len e < 9223372036854775808"
      using Cons.prems by auto
    have re: "s + rl_len e \<le> rl_end rest" using rl_chain_end [OF c] by simp
    obtain e1 r where r: "rest = e1 # r" and e1: "rl_vcn e1 = s + rl_len e" using c by (cases rest) auto
    consider "v < s + rl_len e" | "s + rl_len e \<le> v" "rl_lcn e < LCN_HOLE"
      | "s + rl_len e \<le> v" "LCN_HOLE \<le> rl_lcn e" by linarith
    then show ?thesis
    proof cases
      case 1
      then show ?thesis
        using False e e1 r Cons.prems
        by (intro disjI2 exI [of _ "[]"] exI [of _ e] exI [of _ rest] conjI) simp_all
    next
      case 2
      then have "punch_end (e # rest) v = Error EINVAL" using False e1 r by simp
      moreover have "rl_map (e # rest) a < LCN_HOLE" using 2 False e Cons.prems(4) by simp
      moreover have "a < rl_end (e # rest)" using re e False Cons.prems(4) by simp
      ultimately show ?thesis using Cons.prems(3) by blast
    next
      case 3
      have eq: "punch_end (e # rest) v = bind_result (punch_end rest v) (\<lambda>i. Ok (Suc i))"
        using False e1 r 3 by simp
      have "rl_len (hd rest) \<noteq> 0 \<longrightarrow> s + rl_len e < s + rl_len e + rl_len (hd rest)" using c r by simp
      from Cons.IH [OF c order_refl 3(1) this] show ?thesis
      proof (elim disjE exE conjE)
        fix x
        assume "punch_end rest v = Error EINVAL" "s + rl_len e \<le> x" "x \<le> v" "x < rl_end rest"
          "rl_map rest x < LCN_HOLE"
        then show ?thesis using e False Cons.prems(4) by (intro disjI1 conjI exI [of _ x]) (simp_all add: eq del: punch_end.simps)
      next
        fix ms x rest'
        assume IH: "rest = ms @ x # rest'" "punch_end rest v = Ok (length ms)"
          "rl_seg (s + rl_len e) ms (rl_vcn x)" "\<forall>e\<in>set ms. LCN_HOLE \<le> rl_lcn e"
          "rl_chain (rl_vcn x) (x # rest')" "rl_vcn x \<le> v" "rl_len x \<noteq> 0 \<longrightarrow> v < rl_vcn x + rl_len x"
        have "punch_end (e # rest) v = Ok (length (e # ms))" using eq IH(2) by simp
        moreover have "rl_seg s (e # ms) (rl_vcn x)" using e IH(3) by simp
        moreover have "\<forall>e\<in>set (e # ms). LCN_HOLE \<le> rl_lcn e" using IH(4) 3(2) by simp
        moreover have "e # rest = (e # ms) @ x # rest'" using IH(1) by simp
        ultimately show ?thesis using IH(5-7) by blast
      qed
    qed
  qed
qed simp

text \<open>Moving the elements \<open>C\<close> down over \<open>B\<close>, and giving back the memory.\<close>

lemma cut_out:
  assumes "k = i + length B" and "i = length A" and "n = length C"
  shows "\<exists>j. (if i < k then ntfs_rl_mm (A @ B @ C @ D) i k n else Ok (A @ B @ C @ D)) = Ok (A @ C @ j)"
proof (cases "B = []")
  case False
  then show ?thesis
    using assms by (auto simp: ntfs_rl_mm_def)
qed (use assms in auto)

lemma punch_shrink_keeps:
  assumes "k = i + length B" and "i = length A" and "n = length A + length B + length C"
    and "length C' = length C"
  shows "\<exists>j'. punch_shrink mem (A @ C' @ j) n i k = A @ C' @ j'"
  using rl_shrink_keeps [of "length A + length C" "A @ C' @ j" n mem] assms
  by (auto simp: punch_shrink_def)

lemma mm_up:
  assumes "i = length A" and "n = length C" and "m \<le> length D"
  shows "ntfs_rl_mm (A @ C @ D) (i + m) i n = Ok (A @ take m (C @ D) @ C @ drop m D)"
  using assms by (auto simp: ntfs_rl_mm_def add.commute)

text \<open>The part of a run behind a vcn, and the part in front of it.\<close>

definition run_from :: "runlist_element \<Rightarrow> int \<Rightarrow> runlist_element" where
  "run_from x v = mk_rle v (if rl_lcn x \<ge> 0 then rl_lcn x + (v - rl_vcn x) else rl_lcn x)
     (rl_len x - (v - rl_vcn x))"

lemma run_from_chain:
  assumes "rl_chain (rl_vcn x) (x # R)" and "rl_vcn x \<le> v" and "rl_len x \<noteq> 0 \<longrightarrow> v < rl_vcn x + rl_len x"
    and "rl_len x = 0 \<longrightarrow> v = rl_vcn x"
  shows "rl_chain v (run_from x v # R)" and "v \<le> y \<Longrightarrow> rl_map (run_from x v # R) y = rl_map (x # R) y"
  using assms rl_chain_ge [of "rl_vcn x + rl_len x" R] by (auto simp: run_from_def add.commute [of "rl_len x"] split: if_splits)

lemma run_until_seg:
  assumes "rl_chain (rl_vcn x) (x # R)" and "rl_vcn x < v" and "rl_len x \<noteq> 0" and "v \<le> rl_vcn x + rl_len x"
  shows "rl_seg (rl_vcn x) [x\<lparr>rl_len := v - rl_vcn x\<rparr>] v"
    and "y < v \<Longrightarrow> rl_map [x\<lparr>rl_len := v - rl_vcn x\<rparr>] y = rl_map (x # R) y"
  using assms by auto

text \<open>
  What every branch produces: the elements in front of a hole, the hole, and the elements behind
  it, where the hole may have absorbed neighbouring holes.
\<close>

definition punched :: "runlist \<Rightarrow> int \<Rightarrow> int \<Rightarrow> runlist \<Rightarrow> bool" where
  "punched rl start vend rl' \<longleftrightarrow> rl_wf rl' \<and>
     (\<forall>y\<ge>0. rl_map rl' y = (if start \<le> y \<and> y < vend then LCN_HOLE else rl_map rl y))"

lemma punchedI:
  assumes front: "rl_seg 0 P hs" "\<And>y. 0 \<le> y \<Longrightarrow> y < hs \<Longrightarrow> rl_map P y = rl_map rl y"
    and h: "rl_lcn h = LCN_HOLE" "rl_vcn h = hs" "hs + rl_len h = he" "hs < he"
    and tail: "rl_chain he B" "\<And>y. he \<le> y \<Longrightarrow> rl_map B y = rl_map rl y"
    and hole: "hs \<le> start" "vend \<le> he" "start < vend"
      "\<And>y. hs \<le> y \<Longrightarrow> y < start \<Longrightarrow> rl_map rl y = LCN_HOLE"
      "\<And>y. vend \<le> y \<Longrightarrow> y < he \<Longrightarrow> rl_map rl y = LCN_HOLE"
  shows "punched rl start vend (P @ h # B)"
proof -
  have b: "he < 9223372036854775808" using rl_chain_ge [OF tail(1)] .
  have "rl_seg hs [h] he" using h rl_seg_le [OF front(1)] b by auto
  then have seg: "rl_seg 0 (P @ [h]) he" using front(1) by (auto simp: rl_seg_append)
  have "rl_wf (P @ h # B)" using rl_chain_seg [OF seg, of B] tail(1) by (simp add: rl_wf_def)
  moreover have "rl_map (P @ h # B) y = (if start \<le> y \<and> y < vend then LCN_HOLE else rl_map rl y)" if "0 \<le> y" for y
    using rl_map_seg [OF front(1) that, of "h # B"] front(2) [OF that] h tail(2) [of y] hole by auto
  ultimately show ?thesis by (simp add: punched_def)
qed

lemma extend_hole_eq:
  assumes h: "rl_lcn h = LCN_HOLE" "0 \<le> rl_vcn h" "rl_vcn h < vend" and i: "i = length P" "k = i + 1 + length Q"
    and c: "rl_chain (rl_vcn x) (x # R)" "rl_vcn x \<le> vend" "rl_len x \<noteq> 0 \<longrightarrow> vend < rl_vcn x + rl_len x"
      "rl_len x = 0 \<longrightarrow> vend = rl_vcn x" "0 \<le> rl_vcn x"
    and re: "scan_end (x # R) = Ok j" "real_end = k + j"
  shows "\<exists>he B. punch_extend_hole mem (P @ h # Q @ x # R) i k real_end vend =
      Ok (P @ h\<lparr>rl_len := he - rl_vcn h\<rparr> # B) \<and> vend \<le> he \<and> rl_chain he B \<and>
      (\<forall>y\<ge>he. rl_map B y = rl_map (x # R) y) \<and> (\<forall>y. vend \<le> y \<and> y < he \<longrightarrow> rl_map (x # R) y = LCN_HOLE)"
proof -
  obtain ps t junk where post: "x # R = ps @ t # junk" "rl_len t = 0" "\<forall>e\<in>set ps. rl_len e \<noteq> 0"
    using rl_chain_terminated [OF c(1)] by blast
  have j: "j = length ps" using scan_end_eq [OF post(3,2), of junk] re(1) post(1) by (simp del: scan_end.simps)
  have b: "rl_vcn x < 9223372036854775808" "rl_len x \<noteq> 0 \<Longrightarrow> rl_vcn x + rl_len x < 9223372036854775808"
    "vend < 9223372036854775808"
    using rl_chain_ge [of "rl_vcn x + rl_len x" R] c by (auto split: if_splits)
  have s1: "s64 (vend - rl_vcn h) = vend - rl_vcn h" using h b by (intro s64_id) auto
  show ?thesis
  proof (cases "rl_lcn x = LCN_HOLE")
    case True
    then have len: "rl_len x \<noteq> 0" using c(1) by auto
    have cR: "rl_chain (rl_vcn x + rl_len x) R" using c(1) len by simp
    obtain ps' where ps: "ps = x # ps'" and R2: "R = ps' @ t # junk" using post len by (cases ps) auto
    let ?he = "rl_vcn x + rl_len x"
    let ?h = "h\<lparr>rl_len := ?he - rl_vcn h\<rparr>"
    let ?C = "ps' @ [t]"
    have s2: "s64 (?he - rl_vcn h) = ?he - rl_vcn h" using h b c len by (intro s64_id) auto
    obtain j1 where j1: "(if i + 1 < k + 1 then ntfs_rl_mm ((P @ [?h]) @ (Q @ [x]) @ ?C @ junk) (i + 1) (k + 1) (real_end + 1 - (k + 1))
        else Ok ((P @ [?h]) @ (Q @ [x]) @ ?C @ junk)) = Ok ((P @ [?h]) @ ?C @ j1)"
      using cut_out [of "k + 1" "i + 1" "Q @ [x]" "P @ [?h]" "real_end + 1 - (k + 1)" ?C junk] i re(2) j ps by auto
    obtain j2 where j2: "punch_shrink mem ((P @ [?h]) @ ?C @ j1) (real_end + 1) (i + 1) (k + 1) = (P @ [?h]) @ ?C @ j2"
      using punch_shrink_keeps [of "k + 1" "i + 1" "Q @ [x]" "P @ [?h]" "real_end + 1" ?C ?C mem j1] i re(2) j ps by auto
    obtain z C' where C: "?C = z # C'" "rl_vcn z = ?he" using cR R2 by (cases ps') auto
    have R3: "R = z # C' @ junk" using C(1) R2 by (metis append.assoc append_Cons append_Nil)
    have "punch_extend_hole mem (P @ h # Q @ x # R) i k real_end vend = Ok (P @ ?h # ?C @ j2)"
      using True j1 j2 C s1 s2 c(2,3) len R3
      by (simp add: punch_extend_hole_def i(1) i(2) cell_simps Let_def del: rd_in wr_in)
    moreover have "rl_chain ?he (?C @ j2)" using cR R2 rl_chain_junk [OF post(2), of ?he ps' junk j2] by simp
    moreover have "rl_map (?C @ j2) y = rl_map (x # R) y" if "?he \<le> y" for y
      using that len R2 rl_map_junk [OF post(2), of ps' junk y j2] by simp
    moreover have "rl_map (x # R) y = LCN_HOLE" if "vend \<le> y \<and> y < ?he" for y using that len True by simp
    ultimately show ?thesis using c(3) len by (intro exI [of _ ?he] exI [of _ "?C @ j2"]) auto
  next
    case False
    let ?h = "h\<lparr>rl_len := vend - rl_vcn h\<rparr>"
    let ?x = "if rl_vcn x < vend then run_from x vend else x"
    obtain C' where C: "ps @ [t] = x # C'" "R = C' @ junk" using post(1) by (cases ps) auto
    let ?rl = "P @ ?h # x # C'"
    have lC: "length ps = length C'" using arg_cong [OF C(1), of length] by simp
    obtain j1 where j1: "(if i + 1 < k then ntfs_rl_mm (P @ ?h # Q @ x # R) (i + 1) k (real_end + 1 - k)
        else Ok (P @ ?h # Q @ x # R)) = Ok (P @ ?h # x # C' @ j1)"
      using cut_out [of k "i + 1" Q "P @ [?h]" "real_end + 1 - k" "x # C'" junk] i re(2) j lC C(2)
      by (auto cong: if_cong)
    obtain j2 where j2: "punch_shrink mem (P @ ?h # ?x # C' @ j1) (real_end + 1) (i + 1) k = P @ ?h # ?x # C' @ j2"
      using punch_shrink_keeps [of k "i + 1" Q "P @ [?h]" "real_end + 1" "x # C'" "?x # C'" mem j1] i re(2) j lC
      by (simp del: if_split) blast
    have e1: "upd_elem (P @ h # Q @ x # R) i (\<lambda>e. e\<lparr>rl_len := s64 (vend - rl_vcn e)\<rparr>) = Ok (P @ ?h # Q @ x # R)"
      using i s1 by (simp add: cell_simps)
    have e2: "rd (P @ ?h # Q @ x # R) k = Ok x"
      using i by (simp add: cell_simps del: rd_in)
    have e3: "rd (P @ ?h # x # C' @ j1) (i + 1) = Ok x"
      using i by (simp add: cell_simps del: rd_in)
    have "s64 (rl_len x - (vend - rl_vcn x)) = rl_len x - (vend - rl_vcn x)"
        "0 \<le> rl_lcn x \<Longrightarrow> s64 (rl_lcn x + (vend - rl_vcn x)) = rl_lcn x + (vend - rl_vcn x)"
        "s64 (vend - rl_vcn x) = vend - rl_vcn x" if "rl_vcn x < vend"
      using that c b by (auto intro!: s64_id split: if_splits)
    then have e4: "(if vend > rl_vcn x then wr (P @ ?h # x # C' @ j1) (i + 1) (mk_rle vend
          (if rl_lcn x \<ge> 0 then s64 (rl_lcn x + s64 (vend - rl_vcn x)) else rl_lcn x)
          (s64 (rl_len x - s64 (vend - rl_vcn x))))
        else Ok (P @ ?h # x # C' @ j1)) = Ok (P @ ?h # ?x # C' @ j1)"
      using i by (simp add: cell_simps run_from_def del: wr_in)
    have "punch_extend_hole mem (P @ h # Q @ x # R) i k real_end vend = Ok (P @ ?h # ?x # C' @ j2)"
      unfolding punch_extend_hole_def Let_def e1 e2 e3 e4 j1 j2 bind_result.simps if_not_P [OF False] prod.case
      by (rule refl)
    moreover have "rl_chain vend (?x # C' @ j2)" and "\<forall>y\<ge>vend. rl_map (?x # C' @ j2) y = rl_map (x # R) y"
    proof -
      have x: "?x = run_from x vend" using c(2) by (cases x) (auto simp: run_from_def)
      have "rl_chain (rl_vcn x) (x # C' @ j2)"
        using c(1) post(1) C rl_chain_junk [OF post(2), of "rl_vcn x" ps junk j2] 
        by (metis append.assoc append_Cons append_Nil)
      moreover have "rl_map (x # C' @ j2) y = rl_map (x # R) y" for y
        using post(1) C rl_map_junk [OF post(2), of ps junk y j2]
        by (metis append.assoc append_Cons append_Nil)
      ultimately show "rl_chain vend (?x # C' @ j2)" "\<forall>y\<ge>vend. rl_map (?x # C' @ j2) y = rl_map (x # R) y"
        unfolding x using run_from_chain [of x "C' @ j2" vend] c(2-4) by metis+
    qed
    ultimately show ?thesis
      by (intro exI [of _ vend] exI [of _ "?x # C' @ j2"]) auto
  qed
qed

lemma split_end_eq:
  assumes "i = length A" and "real_end = i + length C" and "D \<noteq> []"
    and "in_s64 (rl_vcn x + n)" and "rl_lcn x \<ge> 0 \<or> fix \<Longrightarrow> in_s64 (rl_lcn x + n)" and "in_s64 (rl_len x - n)"
  shows "punch_split_end (A @ x # C @ D) i real_end n fix =
    Ok (A @ x\<lparr>rl_lcn := LCN_HOLE, rl_len := n\<rparr> #
      mk_rle (rl_vcn x + n) (if rl_lcn x \<ge> 0 \<or> fix then rl_lcn x + n else rl_lcn x) (rl_len x - n) # C @ tl D)"
proof -
  have "ntfs_rl_mm (A @ x # C @ D) (i + 1) i (real_end + 1 - i) = Ok (A @ x # x # C @ tl D)"
    using mm_up [of i A "real_end + 1 - i" "x # C" 1 D] assms(1-3) by (simp add: drop_Suc Suc_le_eq)
  then show ?thesis
    using assms(1,4-6) by (simp add: punch_split_end_def cell_simps s64_in)
qed

text \<open>The situation after both ends have been found.\<close>

definition punch_ctx :: "runlist \<Rightarrow> runlist_element \<Rightarrow> runlist \<Rightarrow> runlist \<Rightarrow> runlist_element \<Rightarrow> runlist \<Rightarrow>
    int \<Rightarrow> int \<Rightarrow> nat \<Rightarrow> bool" where
  "punch_ctx pre e rest ms x R start vend j \<longleftrightarrow>
     e # rest = ms @ x # R \<and> rl_seg 0 pre (rl_vcn e) \<and> rl_chain (rl_vcn e) (e # rest) \<and>
     rl_seg (rl_vcn e) ms (rl_vcn x) \<and> rl_chain (rl_vcn x) (x # R) \<and> (\<forall>e\<in>set ms. LCN_HOLE \<le> rl_lcn e) \<and>
     rl_len e \<noteq> 0 \<and> rl_vcn e \<le> start \<and> start < rl_vcn e + rl_len e \<and> start < vend \<and>
     rl_vcn x \<le> vend \<and> (rl_len x \<noteq> 0 \<longrightarrow> LCN_HOLE \<le> rl_lcn x \<and> vend < rl_vcn x + rl_len x) \<and>
     (rl_len x = 0 \<longrightarrow> vend = rl_vcn x) \<and> scan_end (x # R) = Ok j"

lemma punch_ctx_parts:
  assumes "punch_ctx pre e rest ms x R start vend j"
  shows "e # rest = ms @ x # R" and "rl_seg 0 pre (rl_vcn e)" and "rl_chain (rl_vcn e) (e # rest)"
    and "rl_len e \<noteq> 0" and "rl_vcn e \<le> start" and "start < rl_vcn e + rl_len e" and "start < vend"
    and "rl_vcn x \<le> vend" and "rl_len x \<noteq> 0 \<longrightarrow> vend < rl_vcn x + rl_len x" and "rl_chain (rl_vcn x) (x # R)"
    and "rl_len x = 0 \<longrightarrow> vend = rl_vcn x" and "rl_seg (rl_vcn e) ms (rl_vcn x)" and "scan_end (x # R) = Ok j"
    and "rl_len x \<noteq> 0 \<longrightarrow> LCN_HOLE \<le> rl_lcn x"
  using assms unfolding punch_ctx_def by blast+

lemma punch_ctx_facts:
  assumes "punch_ctx pre e rest ms x R start vend j"
  shows "0 \<le> rl_vcn e" and "rl_vcn e \<le> rl_vcn x" and "vend < 9223372036854775808"
    and "rl_chain (rl_vcn e + rl_len e) rest" and "0 < rl_len e"
    and "LCN_RL_NOT_MAPPED \<le> rl_lcn e" and "rl_lcn e + rl_len e < 9223372036854775808"
    and "rl_vcn e + rl_len e < 9223372036854775808"
    and "rl_vcn x \<le> y \<Longrightarrow> rl_map (pre @ e # rest) y = rl_map (x # R) y"
    and "0 \<le> y \<Longrightarrow> y < rl_vcn e \<Longrightarrow> rl_map (pre @ e # rest) y = rl_map pre y"
    and "rl_vcn e \<le> y \<Longrightarrow> rl_map (pre @ e # rest) y = rl_map (e # rest) y"
    and "rd rest 0 = Ok (hd rest)" and "rl_vcn (hd rest) = rl_vcn e + rl_len e"
    and "\<exists>C D. R = C @ D \<and> j = length C \<and> (\<forall>D' v. rl_chain v (x # C @ D') = rl_chain v (x # R)) \<and>
      (\<forall>D' y. rl_map (x # C @ D') y = rl_map (x # R) y)"
proof -
  note c = assms [unfolded punch_ctx_def]
  show v: "0 \<le> rl_vcn e" using rl_seg_le c by blast
  show ex: "rl_vcn e \<le> rl_vcn x" using rl_seg_le c by blast
  show cr: "rl_chain (rl_vcn e + rl_len e) rest" and "0 < rl_len e"
    and "LCN_RL_NOT_MAPPED \<le> rl_lcn e" and "rl_lcn e + rl_len e < 9223372036854775808"
    using c by auto
  show "rl_vcn e + rl_len e < 9223372036854775808" using rl_chain_ge [OF cr] .
  show "vend < 9223372036854775808"
    using c rl_chain_ge [of "rl_vcn x + rl_len x" R] rl_chain_ge [of "rl_vcn x" "x # R"]
    by (cases "rl_len x = 0") auto
  have seg: "rl_seg 0 pre (rl_vcn e)" "rl_seg (rl_vcn e) ms (rl_vcn x)" "e # rest = ms @ x # R" using c by simp_all
  show e: "rl_map (pre @ e # rest) y = rl_map (e # rest) y" if "rl_vcn e \<le> y" for y
    using rl_map_seg [OF seg(1), of y "e # rest"] that v by simp
  show "rl_map (pre @ e # rest) y = rl_map (x # R) y" if "rl_vcn x \<le> y"
    using rl_map_seg [OF seg(2), of y "x # R"] that ex e [of y] seg(3) by simp
  show "rl_map (pre @ e # rest) y = rl_map pre y" if "0 \<le> y" "y < rl_vcn e"
    using rl_map_seg [OF seg(1) that(1)] that(2) by simp
  show "rd rest 0 = Ok (hd rest)" "rl_vcn (hd rest) = rl_vcn e + rl_len e" using cr by (cases rest; simp)+
  obtain ps t junk where post: "x # R = ps @ t # junk" "rl_len t = 0" "\<forall>e\<in>set ps. rl_len e \<noteq> 0"
    using rl_chain_terminated c by blast
  have j: "j = length ps" using scan_end_eq [OF post(3,2), of junk] c post(1) by (simp del: scan_end.simps)
  obtain C where C: "ps @ [t] = x # C" "R = C @ junk" using post(1) by (cases ps) auto
  have "x # C @ D' = ps @ t # D'" for D' using C(1) by (metis append.assoc append_Cons append_Nil)
  moreover have "length ps = length C" using arg_cong [OF C(1), of length] by simp
  ultimately show "\<exists>C D. R = C @ D \<and> j = length C \<and> (\<forall>D' v. rl_chain v (x # C @ D') = rl_chain v (x # R)) \<and>
      (\<forall>D' y. rl_map (x # C @ D') y = rl_map (x # R) y)"
    using C(2) j rl_chain_junk [OF post(2), of _ ps] rl_map_junk [OF post(2), of ps] by (metis (no_types, lifting))
qed

lemma punch_extend:
  assumes ctx: "punch_ctx pre e rest ms x R start vend j"
    and front: "rl_seg 0 P (rl_vcn h)" "\<And>y. 0 \<le> y \<Longrightarrow> y < rl_vcn h \<Longrightarrow> rl_map P y = rl_map (pre @ e # rest) y"
    and h: "rl_lcn h = LCN_HOLE" "rl_vcn h \<le> start"
      "\<And>y. rl_vcn h \<le> y \<Longrightarrow> y < start \<Longrightarrow> rl_map (pre @ e # rest) y = LCN_HOLE"
    and i: "i = length P" "k = i + 1 + length Q" "real_end = k + j"
  shows "\<exists>rl'. punch_extend_hole mem (P @ h # Q @ x # R) i k real_end vend = Ok rl' \<and>
    punched (pre @ e # rest) start vend rl'"
proof -
  note c = ctx [unfolded punch_ctx_def] and f = punch_ctx_facts [OF ctx]
  have v: "0 \<le> rl_vcn h" using rl_seg_le [OF front(1)] .
  have "0 \<le> rl_vcn x" "rl_vcn h < vend" using f(1,2) h(2) c by linarith+
  then obtain he B where B: "punch_extend_hole mem (P @ h # Q @ x # R) i k real_end vend =
      Ok (P @ h\<lparr>rl_len := he - rl_vcn h\<rparr> # B)" "vend \<le> he" "rl_chain he B"
      "\<forall>y\<ge>he. rl_map B y = rl_map (x # R) y" "\<forall>y. vend \<le> y \<and> y < he \<longrightarrow> rl_map (x # R) y = LCN_HOLE"
    using extend_hole_eq [OF h(1) v _ i(1,2), of vend x R j real_end mem] c i(3) by metis
  have "punched (pre @ e # rest) start vend (P @ h\<lparr>rl_len := he - rl_vcn h\<rparr> # B)"
    by (rule punchedI [OF front(1), of _ _ he]) (use front(2) h c f(9) B \<open>rl_vcn h < vend\<close> in auto)
  with B(1) show ?thesis by blast
qed

text \<open>The first \<open>n\<close> clusters of the run \<open>x\<close>, moved to the start of the hole, become the hole.\<close>

lemma punch_split:
  assumes ctx: "punch_ctx pre e rest ms x R start vend j"
    and front: "rl_seg 0 P start" "\<And>y. 0 \<le> y \<Longrightarrow> y < start \<Longrightarrow> rl_map P y = rl_map (pre @ e # rest) y"
    and z: "rl_vcn z = start" "rl_len z = rl_len x + (rl_vcn x - start)"
      "rl_lcn z = (if rl_lcn x \<ge> 0 then rl_lcn x - (rl_vcn x - start) else rl_lcn x)"
    and fx: "fix \<longrightarrow> rl_lcn x \<ge> 0" "rl_lcn z \<ge> 0 \<or> fix \<longleftrightarrow> rl_lcn x \<ge> 0"
    and i: "i = length P" "real_end = i + j" "n = vend - start"
    and C: "R = C @ D" "j = length C" "\<forall>D' v. rl_chain v (x # C @ D') = rl_chain v (x # R)"
      "\<forall>D' y. rl_map (x # C @ D') y = rl_map (x # R) y" and D': "D' \<noteq> []"
  shows "\<exists>rl'. punch_split_end (P @ z # C @ D') i real_end n fix = Ok rl' \<and>
    punched (pre @ e # rest) start vend rl'"
proof -
  note g = punch_ctx_parts [OF ctx] and f = punch_ctx_facts [OF ctx]
  let ?h = "z\<lparr>rl_lcn := LCN_HOLE, rl_len := n\<rparr>"
  have x: "rl_len x \<noteq> 0 \<Longrightarrow> 0 < rl_len x \<and> rl_lcn x + rl_len x < 9223372036854775808 \<and>
      rl_vcn x + rl_len x < 9223372036854775808"
    "rl_len x = 0 \<Longrightarrow> rl_lcn x < 0"
    using g(10) rl_chain_ge [of "rl_vcn x + rl_len x" R] by auto
  have tl: "mk_rle (rl_vcn z + n) (if rl_lcn z \<ge> 0 \<or> fix then rl_lcn z + n else rl_lcn z) (rl_len z - n) =
      run_from x vend"
    using z fx i(3) by (auto simp: run_from_def)
  have "in_s64 (rl_vcn z + n)" "rl_lcn z \<ge> 0 \<or> fix \<Longrightarrow> in_s64 (rl_lcn z + n)" "in_s64 (rl_len z - n)"
    using z fx i(3) f(1,2,3) g(5-9,11) x by (cases "rl_len x = 0"; auto simp: in_s64_def)+
  then have "punch_split_end (P @ z # C @ D') i real_end n fix = Ok (P @ ?h # run_from x vend # C @ tl D')"
    using split_end_eq [OF i(1), of real_end C D' z n "fix"] i C(2) D' tl by auto
  moreover have "punched (pre @ e # rest) start vend (P @ ?h # run_from x vend # C @ tl D')"
  proof (rule punchedI [OF front(1), of _ _ vend])
    have r: "rl_chain (rl_vcn x) (x # C @ tl D')" using C(3) g(10) by blast
    show "rl_chain vend (run_from x vend # C @ tl D')" by (rule run_from_chain(1) [OF r g(8,9,11)])
    show "rl_map (run_from x vend # C @ tl D') y = rl_map (pre @ e # rest) y" if "vend \<le> y" for y
      using run_from_chain(2) [OF r g(8,9,11) that] C(4) f(9) [of y] g(8) that by simp
  qed (use front(2) z(1) i(3) g(7) in auto)
  ultimately show ?thesis by blast
qed

lemma punch_front:
  assumes ctx: "punch_ctx pre e rest ms x R start vend j" and "rl_vcn e < start"
  shows "rl_seg 0 (pre @ [e\<lparr>rl_len := start - rl_vcn e\<rparr>]) start"
    and "0 \<le> y \<Longrightarrow> y < start \<Longrightarrow> rl_map (pre @ [e\<lparr>rl_len := start - rl_vcn e\<rparr>]) y = rl_map (pre @ e # rest) y"
    and "s64 (start - rl_vcn e) = start - rl_vcn e"
proof -
  note g = punch_ctx_parts [OF ctx] and f = punch_ctx_facts [OF ctx]
  let ?e = "e\<lparr>rl_len := start - rl_vcn e\<rparr>"
  have u: "rl_seg (rl_vcn e) [?e] start" "y < start \<Longrightarrow> rl_map [?e] y = rl_map (e # rest) y" for y
    using run_until_seg [OF g(3) assms(2) g(4)] g(6) by simp_all
  show "rl_seg 0 (pre @ [?e]) start" using u(1) g(2) by (auto simp: rl_seg_append)
  show "rl_map (pre @ [?e]) y = rl_map (pre @ e # rest) y" if "0 \<le> y" "y < start"
    using rl_map_seg [OF g(2) that(1), of "[?e]"] rl_map_seg [OF g(2) that(1), of "e # rest"] that(2) u(2) [of y]
    by (simp del: rl_map.simps)
  show "s64 (start - rl_vcn e) = start - rl_vcn e" using f(1,3) g(7) assms(2) by (intro s64_id) auto
qed

lemma punch_inside_hole:
  assumes ctx: "punch_ctx pre e rest ms x R start vend j" and e: "rl_vcn e < start" "rl_lcn e \<noteq> LCN_HOLE"
    and i: "i = length pre" "k = i + length ms" "real_end = k + j" and x: "rl_lcn x = LCN_HOLE"
  shows "\<exists>rl'. punch_inside mem (pre @ e # rest) i k real_end start n vend = Ok rl' \<and>
    punched (pre @ e # rest) start vend rl'"
proof -
  note g = punch_ctx_parts [OF ctx] and f = punch_ctx_facts [OF ctx] and F = punch_front [OF ctx e(1)]
  let ?e = "e\<lparr>rl_len := start - rl_vcn e\<rparr>"
  have len: "rl_len x \<noteq> 0" using x g(10) by auto
  let ?he = "rl_vcn x + rl_len x"
  let ?x = "x\<lparr>rl_vcn := start, rl_len := ?he - start\<rparr>"
  obtain Q where Q: "ms = e # Q" "rest = Q @ x # R" using g(1) e(2) x by (cases ms) auto
  obtain C D where C: "R = C @ D" "j = length C" "\<forall>D' v. rl_chain v (x # C @ D') = rl_chain v (x # R)"
    "\<forall>D' y. rl_map (x # C @ D') y = rl_map (x # R) y" using f(14) by blast
  have cR: "rl_chain ?he R" using g(10) len by simp
  have he: "?he < 9223372036854775808" using rl_chain_ge [OF cR] .
  have chain: "rl_chain ?he (C @ D')" for D' using C(3) [rule_format, of "rl_vcn x" D'] g(10) len by simp
  obtain z C' where z: "C = z # C'" "rl_vcn z = ?he"
    using chain [of "[]"] by (cases C) auto
  obtain j1 where j1: "(if i + 1 < k then ntfs_rl_mm (pre @ ?e # Q @ x # R) (i + 1) k (real_end + 1 - k)
        else Ok (pre @ ?e # Q @ x # R)) = Ok (pre @ ?e # x # C @ j1)"
    using cut_out [of k "i + 1" Q "pre @ [?e]" "real_end + 1 - k" "x # C" D] i C Q by (auto cong: if_cong)
  obtain j2 where j2: "punch_shrink mem (pre @ ?e # ?x # C @ j1) (real_end + 1) (i + 1) k = pre @ ?e # ?x # C @ j2"
    using punch_shrink_keeps [of k "i + 1" Q "pre @ [?e]" "real_end + 1" "x # C" "?x # C" mem j1] i C Q by auto
  have e1: "upd_elem (pre @ e # rest) i (\<lambda>e. e\<lparr>rl_len := s64 (start - rl_vcn e)\<rparr>) = Ok (pre @ ?e # Q @ x # R)"
    using i F(3) Q by (simp add: cell_simps)
  have e2: "rd (pre @ e # rest) k = Ok x" using i Q by (simp add: cell_simps del: rd_in)
  have e3: "rd (pre @ ?e # x # C @ j1) (i + 2) = Ok z" using i z by (simp add: cell_simps numeral_2_eq_2 del: rd_in)
  have "s64 (?he - start) = ?he - start" using f(1) e he g(7,9) len by (intro s64_id) auto
  then have e4: "upd_elem (pre @ ?e # x # C @ j1) (i + 1)
      (\<lambda>e. e\<lparr>rl_vcn := start, rl_len := s64 (rl_vcn z - start)\<rparr>) = Ok (pre @ ?e # ?x # C @ j1)"
    using i z by (simp add: cell_simps)
  have eq: "punch_inside mem (pre @ e # rest) i k real_end start n vend = Ok ((pre @ [?e]) @ ?x # C @ j2)"
    unfolding punch_inside_def Let_def e1 e2 e3 e4 j1 j2 bind_result.simps if_P [OF x] by simp
  have "rl_map (pre @ e # rest) y = LCN_HOLE" if "vend \<le> y" "y < ?he" for y
    using that x len f(9) [of y] g(8) by simp
  moreover have "rl_map (C @ j2) y = rl_map (pre @ e # rest) y" if "?he \<le> y" for y
    using C(4) [rule_format, of j2 y] that len f(9) [of y] g(9,8) by simp
  ultimately have "punched (pre @ e # rest) start vend ((pre @ [?e]) @ ?x # C @ j2)"
    using F(2) x len g(7,9) chain [of j2] by (intro punchedI [OF F(1), of _ _ ?he]) auto
  with eq show ?thesis by blast
qed

lemma punch_inside_next:
  assumes ctx: "punch_ctx pre e rest ms x R start vend j" and e: "rl_vcn e < start"
    and i: "i = length pre" "k = i + length ms" "real_end = k + j" "n = vend - start"
    and x: "rl_lcn x \<noteq> LCN_HOLE" and ms: "ms = e # Q"
  shows "punch_inside mem (pre @ e # rest) i k real_end start n vend = Error ENOMEM \<and> \<not> alloc_ok mem \<or>
    (\<exists>rl'. punch_inside mem (pre @ e # rest) i k real_end start n vend = Ok rl' \<and>
    punched (pre @ e # rest) start vend rl')"
proof -
  note g = punch_ctx_parts [OF ctx] and f = punch_ctx_facts [OF ctx] and F = punch_front [OF ctx e]
  let ?e = "e\<lparr>rl_len := start - rl_vcn e\<rparr>"
  have rest: "rest = Q @ x # R" using g(1) ms by simp
  have e2: "rd (pre @ e # rest) k = Ok x" using i ms rest by (simp add: cell_simps del: rd_in)
  have e3: "rd (pre @ e # rest) (i + 1) = Ok (hd rest)"
    using i f(12) by (simp add: cell_simps del: rd_in)
  have sQ: "rl_seg (rl_vcn e + rl_len e) Q (rl_vcn x)" using g(12) ms by simp
  have vend: "vend \<ge> rl_vcn (hd rest)" using rl_seg_le [OF sQ] g(8) f(13) by simp
  show ?thesis
  proof (cases Q)
    case (Cons e1 Q')
    have rest': "rest = e1 # Q' @ x # R" using rest Cons by simp
    have e3': "rd (pre @ e # rest) (i + 1) = Ok e1" and vend': "vend \<ge> rl_vcn e1" using e3 vend rest' by simp_all
    have e4: "(if rl_len e1 \<noteq> 0 then bind_result (rd (pre @ e # rest) (i + 2)) (\<lambda>e2. Ok (vend \<ge> rl_vcn e2))
             else Ok False) = Ok True"
    proof -
      have s: "rl_len e1 \<noteq> 0" "rl_seg (rl_vcn e1 + rl_len e1) Q' (rl_vcn x)" using sQ Cons by auto
      then have c: "rl_chain (rl_vcn e1 + rl_len e1) (Q' @ x # R)" using rl_chain_seg g(10) by blast
      obtain z Z where z: "Q' @ x # R = z # Z" by (cases Q') auto
      have "rl_vcn z \<le> vend" using c z rl_seg_le [OF s(2)] g(8) by simp
      then show ?thesis using s(1) i(1) z by (simp add: rest' cell_simps numeral_2_eq_2 del: rd_in)
    qed
    let ?h = "e1\<lparr>rl_vcn := start, rl_lcn := LCN_HOLE\<rparr>"
    have e1: "upd_elem (pre @ e # rest) i (\<lambda>e. e\<lparr>rl_len := s64 (start - rl_vcn e)\<rparr>) = Ok (pre @ ?e # rest)"
      using i F(3) by (simp add: cell_simps)
    have e5: "upd_elem (pre @ ?e # rest) (i + 1) (\<lambda>e. e\<lparr>rl_vcn := start, rl_lcn := LCN_HOLE\<rparr>) =
        Ok ((pre @ [?e]) @ ?h # Q' @ x # R)"
      using i rest' by (simp add: cell_simps)
    have "punch_inside mem (pre @ e # rest) i k real_end start n vend =
        punch_extend_hole mem ((pre @ [?e]) @ ?h # Q' @ x # R) (i + 1) k real_end vend"
      unfolding punch_inside_def Let_def e1 e2 e3' e4 e5 bind_result.simps if_not_P [OF x] if_P [OF vend'] if_True
      by (rule refl)
    then show ?thesis
      using punch_extend [OF ctx, of "pre @ [?e]" ?h "i + 1" k Q' real_end mem] F(1,2) i ms Cons by simp
  next
    case Nil
    then have rest': "rest = x # R" using rest by simp
    have vx: "rl_vcn x = rl_vcn e + rl_len e" using f(13) rest' by simp
    have e3': "rd (pre @ e # rest) (i + 1) = Ok x" and vend': "vend \<ge> rl_vcn x" using e3 vend rest' by simp_all
    have e4: "(if rl_len x \<noteq> 0 then bind_result (rd (pre @ e # rest) (i + 2)) (\<lambda>e2. Ok (vend \<ge> rl_vcn e2))
             else Ok False) = Ok False"
    proof (cases "rl_len x = 0")
      case False
      then obtain z Z where "R = z # Z" "rl_vcn z = rl_vcn x + rl_len x" using g(10) by (cases R) auto
      then show ?thesis using False g(9) i(1) by (simp add: rest' cell_simps numeral_2_eq_2 del: rd_in)
    qed simp
    have eq: "punch_inside mem (pre @ e # rest) i k real_end start n vend =
        bind_result (ntfs_rl_realloc mem (pre @ e # rest) (real_end + 1) (real_end + 1 + 1)) (\<lambda>rl.
            bind_result (upd_elem rl i (\<lambda>e. e\<lparr>rl_len := s64 (start - rl_vcn e)\<rparr>)) (\<lambda>rl.
            bind_result (wr rl (i + 1) (mk_rle start
                (if rl_lcn x \<ge> 0 then s64 (rl_lcn x - s64 (rl_vcn x - start)) else rl_lcn x)
                (s64 (rl_len x + s64 (rl_vcn x - start))))) (\<lambda>rl.
              punch_split_end rl (i + 1) real_end n (rl_lcn x \<ge> 0))))"
      unfolding punch_inside_def Let_def e2 e3' e4 bind_result.simps if_not_P [OF x] if_P [OF vend'] if_False
      by (rule refl)
    obtain C D where C: "R = C @ D" "j = length C" "\<forall>D' v. rl_chain v (x # C @ D') = rl_chain v (x # R)"
      "\<forall>D' y. rl_map (x # C @ D') y = rl_map (x # R) y" using f(14) by blast
    consider (fail) "ntfs_rl_realloc mem (pre @ e # rest) (real_end + 1) (real_end + 1 + 1) = Error ENOMEM" "\<not> alloc_ok mem"
      | (grown) D' where "ntfs_rl_realloc mem (pre @ e # rest) (real_end + 1) (real_end + 1 + 1) = Ok (pre @ e # x # C @ D')"
        "D' \<noteq> []"
      using realloc_app [of "real_end + 1" "pre @ e # x # C" "real_end + 1 + 1" mem D] C(1,2) i ms rest' Nil
      by (auto simp: Suc_le_eq)
    then show ?thesis
    proof cases
      case (grown D')
      let ?z = "mk_rle start (if rl_lcn x \<ge> 0 then s64 (rl_lcn x - s64 (rl_vcn x - start)) else rl_lcn x)
          (s64 (rl_len x + s64 (rl_vcn x - start)))"
      have "s64 (rl_vcn x - start) = rl_vcn x - start"
        "0 \<le> rl_lcn x \<Longrightarrow> s64 (rl_lcn x - (rl_vcn x - start)) = rl_lcn x - (rl_vcn x - start)"
        "s64 (rl_len x + (rl_vcn x - start)) = rl_len x + (rl_vcn x - start)"
        using g f(1,3) e vx rl_chain_ge [of "rl_vcn x + rl_len x" R] by (auto intro!: s64_id split: if_splits)
      then have z: "rl_vcn ?z = start" "rl_len ?z = rl_len x + (rl_vcn x - start)"
        "rl_lcn ?z = (if rl_lcn x \<ge> 0 then rl_lcn x - (rl_vcn x - start) else rl_lcn x)" by simp_all
      have e1: "upd_elem (pre @ e # x # C @ D') i (\<lambda>e. e\<lparr>rl_len := s64 (start - rl_vcn e)\<rparr>) = Ok (pre @ ?e # x # C @ D')"
        using i F(3) by (simp add: cell_simps)
      have e5: "wr (pre @ ?e # x # C @ D') (i + 1) ?z = Ok ((pre @ [?e]) @ ?z # C @ D')"
        using i by (simp add: cell_simps del: wr_in)
      have "punch_inside mem (pre @ e # rest) i k real_end start n vend =
          punch_split_end ((pre @ [?e]) @ ?z # C @ D') (i + 1) real_end n (rl_lcn x \<ge> 0)"
        unfolding eq grown(1) e1 e5 bind_result.simps by (rule refl)
      then show ?thesis
        using punch_split [OF ctx F(1,2) z _ _ _ _ i(4) C grown(2), of "rl_lcn x \<ge> 0" "i + 1" real_end] i ms Nil by auto
    qed (simp add: eq)
  qed
qed

lemma punch_inside_same:
  assumes ctx: "punch_ctx pre e rest ms x R start vend j" and e: "rl_vcn e < start" "rl_lcn e \<noteq> LCN_HOLE"
    and i: "i = length pre" "k = i + length ms" "real_end = k + j" "n = vend - start" and ms: "ms = []"
  shows "punch_inside mem (pre @ e # rest) i k real_end start n vend = Error ENOMEM \<and> \<not> alloc_ok mem \<or>
    (\<exists>rl'. punch_inside mem (pre @ e # rest) i k real_end start n vend = Ok rl' \<and>
    punched (pre @ e # rest) start vend rl')"
proof -
  note g = punch_ctx_parts [OF ctx] and f = punch_ctx_facts [OF ctx] and F = punch_front [OF ctx e(1)]
  let ?e = "e\<lparr>rl_len := start - rl_vcn e\<rparr>"
  have x: "x = e" "R = rest" using g(1) ms by simp_all
  have lcn: "0 \<le> rl_lcn e" using g(4,14) e(2) x by simp
  have e2: "rd (pre @ e # rest) k = Ok e" using i ms by (simp add: cell_simps del: rd_in)
  have e3: "rd (pre @ e # rest) (i + 1) = Ok (hd rest)" using i f(12) by (simp add: cell_simps del: rd_in)
  have vend: "\<not> vend \<ge> rl_vcn (hd rest)" using g(4,9) f(13) x by simp
  obtain C D where C: "rest = C @ D" "j = length C" "\<forall>D' v. rl_chain v (e # C @ D') = rl_chain v (e # rest)"
      "\<forall>D' y. rl_map (e # C @ D') y = rl_map (e # rest) y" using f(14) x by auto
  have eq: "punch_inside mem (pre @ e # rest) i k real_end start n vend =
      bind_result (ntfs_rl_realloc mem (pre @ e # rest) (real_end + 1) (real_end + 1 + 2)) (\<lambda>rl.
          bind_result (ntfs_rl_mm rl (i + 2) i (real_end + 1 - i)) (\<lambda>rl.
          bind_result (upd_elem rl i (\<lambda>e. e\<lparr>rl_len := s64 (start - rl_vcn e)\<rparr>)) (\<lambda>rl.
          bind_result (upd_elem rl (i + 1) (\<lambda>e. mk_rle start LCN_HOLE n)) (\<lambda>rl.
            upd_elem rl (i + 2) (\<lambda>e. mk_rle vend (s64 (rl_lcn e + s64 (vend - rl_vcn e)))
              (s64 (rl_len e - s64 (vend - rl_vcn e))))))))"
    unfolding punch_inside_def Let_def e2 e3 bind_result.simps if_not_P [OF e(2)] if_not_P [OF vend]
    by (rule refl)
  consider (fail) "ntfs_rl_realloc mem (pre @ e # rest) (real_end + 1) (real_end + 1 + 2) = Error ENOMEM" "\<not> alloc_ok mem"
    | (grown) D' where "ntfs_rl_realloc mem (pre @ e # rest) (real_end + 1) (real_end + 1 + 2) = Ok (pre @ (e # C) @ D')"
      "2 \<le> length D'"
    using realloc_app [of "real_end + 1" "pre @ e # C" "real_end + 1 + 2" mem D] C(1,2) i ms by auto
  then show ?thesis
  proof cases
    case (grown D')
    obtain q where q: "take 2 ((e # C) @ D') = [e, q]"
      using grown(2) by (cases "C @ D'") (auto simp: numeral_2_eq_2)
    have mm: "ntfs_rl_mm (pre @ (e # C) @ D') (i + 2) i (real_end + 1 - i) = Ok (pre @ e # q # e # C @ drop 2 D')"
      using mm_up [of i pre "real_end + 1 - i" "e # C" 2 D'] i ms C(2) grown(2) q by simp
    have "s64 (vend - rl_vcn e) = vend - rl_vcn e" "s64 (rl_lcn e + (vend - rl_vcn e)) = rl_lcn e + (vend - rl_vcn e)"
      "s64 (rl_len e - (vend - rl_vcn e)) = rl_len e - (vend - rl_vcn e)"
      using f(1,3,5,6,7,8) g(4-9) x lcn by (auto intro!: s64_id)
    then have "punch_inside mem (pre @ e # rest) i k real_end start n vend =
        Ok ((pre @ [?e]) @ mk_rle start LCN_HOLE n # run_from e vend # C @ drop 2 D')"
      unfolding eq grown(1) bind_result.simps mm
      using i(1) F(3) lcn by (simp add: cell_simps numeral_2_eq_2 run_from_def)
    moreover have "punched (pre @ e # rest) start vend
        ((pre @ [?e]) @ mk_rle start LCN_HOLE n # run_from e vend # C @ drop 2 D')"
    proof (rule punchedI [OF F(1), of _ _ vend])
      have r: "rl_chain (rl_vcn e) (e # C @ drop 2 D')" using C(3) g(3) by blast
      have l: "rl_vcn e \<le> vend" "rl_len e \<noteq> 0 \<longrightarrow> vend < rl_vcn e + rl_len e" "rl_len e = 0 \<longrightarrow> vend = rl_vcn e"
        using g(4,5,7,9) x by simp_all
      show "rl_chain vend (run_from e vend # C @ drop 2 D')" by (rule run_from_chain(1) [OF r l])
      show "rl_map (run_from e vend # C @ drop 2 D') y = rl_map (pre @ e # rest) y" if "vend \<le> y" for y
        using run_from_chain(2) [OF r l that] C(4) f(11) [of y] l(1) that by simp
    qed (use F(2) i(4) g(7) in auto)
    ultimately show ?thesis by blast
  qed (simp add: eq)
qed

lemma punch_run:
  assumes ctx: "punch_ctx pre e rest ms x R start vend j" and e: "rl_vcn e = start" "rl_lcn e \<noteq> LCN_HOLE"
    and i: "i = length pre" "k = i + length ms" "real_end = k + j" "n = vend - start"
    and r: "r = (if vend \<ge> rl_vcn (hd rest) then
         bind_result (wr (pre @ e # rest) i (e\<lparr>rl_lcn := LCN_HOLE\<rparr>)) (\<lambda>rl.
           punch_extend_hole mem rl i k real_end vend)
       else
         bind_result (ntfs_rl_realloc mem (pre @ e # rest) (real_end + 1) (real_end + 2)) (\<lambda>rl.
           punch_split_end rl i real_end n False))"
  shows "r = Error ENOMEM \<and> \<not> alloc_ok mem \<or> (\<exists>rl'. r = Ok rl' \<and> punched (pre @ e # rest) start vend rl')"
proof -
  note g = punch_ctx_parts [OF ctx] and f = punch_ctx_facts [OF ctx]
  show ?thesis
  proof (cases ms)
    case (Cons e' Q)
    then have ms: "e' = e" "rest = Q @ x # R" using g(1) by simp_all
    have "rl_seg (rl_vcn e + rl_len e) Q (rl_vcn x)" using g(12) Cons ms by simp
    then have "vend \<ge> rl_vcn (hd rest)" using rl_seg_le g(8) f(13) by fastforce
    then have "r = punch_extend_hole mem (pre @ e\<lparr>rl_lcn := LCN_HOLE\<rparr> # Q @ x # R) i k real_end vend"
      using i(1) ms(2) by (simp add: r cell_simps del: wr_in)
    then show ?thesis
      using punch_extend [OF ctx, of pre "e\<lparr>rl_lcn := LCN_HOLE\<rparr>" i k Q real_end mem] g(2) f(10) e i Cons by simp
  next
    case Nil
    then have x: "x = e" "R = rest" using g(1) by simp_all
    have "\<not> vend \<ge> rl_vcn (hd rest)" using g(4,9) f(13) x by simp
    then have eq: "r = bind_result (ntfs_rl_realloc mem (pre @ e # rest) (real_end + 1) (real_end + 2)) (\<lambda>rl.
        punch_split_end rl i real_end n False)" by (simp add: r)
    obtain C D where C: "R = C @ D" "j = length C" "\<forall>D' v. rl_chain v (x # C @ D') = rl_chain v (x # R)"
      "\<forall>D' y. rl_map (x # C @ D') y = rl_map (x # R) y" using f(14) by blast
    consider (fail) "ntfs_rl_realloc mem (pre @ e # rest) (real_end + 1) (real_end + 2) = Error ENOMEM" "\<not> alloc_ok mem"
      | (grown) D' where "ntfs_rl_realloc mem (pre @ e # rest) (real_end + 1) (real_end + 2) = Ok (pre @ e # C @ D')"
        "D' \<noteq> []"
      using realloc_app [of "real_end + 1" "pre @ e # C" "real_end + 2" mem D] C(1,2) i x Nil
      by (auto simp: Suc_le_eq)
    then show ?thesis
    proof cases
      case (grown D')
      have "\<exists>rl'. punch_split_end (pre @ e # C @ D') i real_end n False = Ok rl' \<and>
          punched (pre @ e # rest) start vend rl'"
        by (rule punch_split [OF ctx _ _ _ _ _ _ _ i(1) _ i(4) C grown(2)])
          (use g(2) f(10) e x i Nil in auto)
      then show ?thesis unfolding eq grown(1) bind_result.simps by blast
    qed (simp add: eq)
  qed
qed

lemma punch_hole:
  assumes ctx: "punch_ctx pre e rest ms x R start vend j" and e: "rl_lcn e = LCN_HOLE"
    and i: "i = length pre" "k = i + length ms" "real_end = k + j"
    and r: "r = (if vend \<le> rl_vcn (hd rest) then Ok (pre @ e # rest)
       else punch_extend_hole mem (pre @ e # rest) i k real_end vend)"
  shows "\<exists>rl'. r = Ok rl' \<and> punched (pre @ e # rest) start vend rl'"
proof -
  note g = punch_ctx_parts [OF ctx] and f = punch_ctx_facts [OF ctx]
  show ?thesis
  proof (cases "vend \<le> rl_vcn (hd rest)")
    case True
    have "rl_map (pre @ e # rest) y = LCN_HOLE" if "start \<le> y" "y < vend" for y
      using f(11) [of y] that True f(13) g(4,5) e by simp
    moreover have "rl_wf (pre @ e # rest)" using rl_chain_seg [OF g(2)] g(3) by (simp add: rl_wf_def)
    ultimately have "punched (pre @ e # rest) start vend (pre @ e # rest)" by (simp add: punched_def)
    then show ?thesis using True r by auto
  next
    case False
    then have "ms \<noteq> []" using g(1,4,9) f(13) by auto
    then obtain Q where ms: "ms = e # Q" "rest = Q @ x # R" using g(1) by (cases ms) auto
    have "rl_map (pre @ e # rest) y = LCN_HOLE" if "rl_vcn e \<le> y" "y < start" for y
      using f(11) [of y] that g(4,5,6) e by simp
    then show ?thesis
      using punch_extend [OF ctx g(2), of i k Q real_end mem] f(10) e g(5) i ms False r by simp
  qed
qed

lemma punch_at:
  assumes ctx: "punch_ctx pre e rest ms x R start vend j" 
    and i: "i = length pre" "k = i + length ms" "real_end = k + j" "n = vend - start" "e1 = hd rest"
    and r: "r = (if rl_lcn e = LCN_HOLE then
         (if vend \<le> rl_vcn e1 then Ok (pre @ e # rest) else punch_extend_hole mem (pre @ e # rest) i k real_end vend)
       else if start = rl_vcn e then
         bind_result
           (if i > 0 then bind_result (rd (pre @ e # rest) (i - 1)) (\<lambda>p. Ok (rl_lcn p = LCN_HOLE)) else Ok False)
           (\<lambda>sparse.
           if sparse then punch_extend_hole mem (pre @ e # rest) (i - 1) k real_end vend
           else if vend \<ge> rl_vcn e1 then
             bind_result (wr (pre @ e # rest) i (e\<lparr>rl_lcn := LCN_HOLE\<rparr>)) (\<lambda>rl.
               punch_extend_hole mem rl i k real_end vend)
           else
             bind_result (ntfs_rl_realloc mem (pre @ e # rest) (real_end + 1) (real_end + 2)) (\<lambda>rl.
               punch_split_end rl i real_end n False))
       else punch_inside mem (pre @ e # rest) i k real_end start n vend)"
  shows "r = Error ENOMEM \<and> \<not> alloc_ok mem \<or> (\<exists>rl'. r = Ok rl' \<and> punched (pre @ e # rest) start vend rl')"
proof -
  note g = punch_ctx_parts [OF ctx] and f = punch_ctx_facts [OF ctx]
  have sp: "(if i > 0 then bind_result (rd (pre @ e # rest) (i - 1)) (\<lambda>p. Ok (rl_lcn p = LCN_HOLE)) else Ok False) =
      Ok (pre \<noteq> [] \<and> rl_lcn (last pre) = LCN_HOLE)"
    using i(1) by (simp add: rd_last del: rd_in)
  consider (hole) "rl_lcn e = LCN_HOLE" | (inside) "rl_lcn e \<noteq> LCN_HOLE" "rl_vcn e < start"
    | (sparse) "rl_lcn e \<noteq> LCN_HOLE" "start = rl_vcn e" "pre \<noteq> [] \<and> rl_lcn (last pre) = LCN_HOLE"
    | (run) "rl_lcn e \<noteq> LCN_HOLE" "start = rl_vcn e" "\<not> (pre \<noteq> [] \<and> rl_lcn (last pre) = LCN_HOLE)"
    using g(5) by linarith
  then show ?thesis
  proof cases
    case hole
    then show ?thesis using punch_hole [OF ctx hole i(1-3) refl, of mem] r i(5) by auto
  next
    case inside
    then have "r = punch_inside mem (pre @ e # rest) i k real_end start n vend" by (simp add: r)
    moreover have "ms = [] \<or> (\<exists>Q. ms = e # Q)" using g(1) by (cases ms) auto
    ultimately show ?thesis
      using punch_inside_hole [OF ctx inside(2,1) i(1-3), of mem n]
        punch_inside_next [OF ctx inside(2) i(1-4), of _ mem] punch_inside_same [OF ctx inside(2,1) i(1-4), of mem]
      by metis
  next
    case sparse
    then obtain P p where p: "pre = P @ [p]" "rl_lcn p = LCN_HOLE" by (cases pre rule: rev_cases) auto
    have s: "rl_seg 0 P (rl_vcn p)" "0 < rl_len p" "rl_vcn p + rl_len p = rl_vcn e"
      using g(2) p by (auto simp: rl_seg_append)
    have eq: "r = punch_extend_hole mem (P @ p # ms @ x # R) (i - 1) k real_end vend"
      unfolding r sp using sparse g(1) p(1) by simp
    have F: "rl_map P y = rl_map (pre @ e # rest) y" if "0 \<le> y" "y < rl_vcn p" for y
      using rl_map_seg [OF s(1) that(1), of "p # e # rest"] that p(1) by simp
    have "rl_map (pre @ e # rest) y = LCN_HOLE" if "rl_vcn p \<le> y" "y < start" for y
      using rl_map_seg [OF s(1), of y "p # e # rest"] rl_seg_le [OF s(1)] that p s sparse(2) by simp
    then show ?thesis
      using punch_extend [OF ctx s(1) F p(2), of "i - 1" k ms real_end mem] eq i p(1) s(2,3) sparse(2) by simp
  next
    case run
    have eq: "r = (if vend \<ge> rl_vcn (hd rest) then
         bind_result (wr (pre @ e # rest) i (e\<lparr>rl_lcn := LCN_HOLE\<rparr>)) (\<lambda>rl.
           punch_extend_hole mem rl i k real_end vend)
       else
         bind_result (ntfs_rl_realloc mem (pre @ e # rest) (real_end + 1) (real_end + 2)) (\<lambda>rl.
           punch_split_end rl i real_end n False))"
      unfolding r sp using run i(5) by auto
    show ?thesis by (rule punch_run [OF ctx run(2) [symmetric] run(1) i(1-4) eq])
  qed
qed

lemma rl_map_mapped:
  "rl_seg v xs v' \<Longrightarrow> (\<forall>e\<in>set xs. LCN_HOLE \<le> rl_lcn e) \<Longrightarrow> v \<le> y \<Longrightarrow> y < v' \<Longrightarrow> LCN_HOLE \<le> rl_map xs y"
  by (induction xs arbitrary: v) auto

lemma bind_Some_cases:
  "r = Error E \<and> A \<or> (\<exists>x. r = Ok x \<and> P x) \<Longrightarrow>
   bind_result r (\<lambda>x. Ok (Some x)) = Error E \<and> A \<or> (\<exists>x. bind_result r (\<lambda>x. Ok (Some x)) = Ok (Some x) \<and> P x)"
  by auto

lemma drop_append_self: "drop (length xs) (xs @ ys) = ys"
  by simp

text \<open>
  C9. Punching a hole. On a well-formed runlist, \<^verbatim>\<open>ntfs_rl_punch_nolock\<close> called on a non-empty
  range refuses the range with \<^verbatim>\<open>EINVAL\<close> exactly when a vcn of it, the one just behind it
  included, lies in a run that is not mapped, and with \<^verbatim>\<open>ENOENT\<close> when it ends behind the runlist.
  Otherwise the result is a well-formed runlist in which the range is a hole and every other vcn is
  mapped as before; the one failure left is \<^verbatim>\<open>ENOMEM\<close>, when no memory can be had.
\<close>

theorem rl_punch_correct:
  assumes "rl_wf rl" and "0 \<le> start" and "0 < n" and "start + n < 9223372036854775808"
  shows "if \<exists>x. start \<le> x \<and> x \<le> start + n \<and> x < rl_end rl \<and> rl_map rl x < LCN_HOLE then
      ntfs_rl_punch_nolock mem (Some rl) start n = Error EINVAL
    else if rl_end rl < start + n then ntfs_rl_punch_nolock mem (Some rl) start n = Error ENOENT
    else ntfs_rl_punch_nolock mem (Some rl) start n = Error ENOMEM \<and> \<not> alloc_ok mem \<or>
      (\<exists>rl'. ntfs_rl_punch_nolock mem (Some rl) start n = Ok (Some rl') \<and> rl_wf rl' \<and>
        (\<forall>y\<ge>0. rl_map rl' y = (if start \<le> y \<and> y < start + n then LCN_HOLE else rl_map rl y)))"
proof -
  define vend where "vend = start + n"
  have s: "s64 (start + n) = vend" "start < vend" "\<not> (start < 0 \<or> n < 0 \<or> vend < 0)" "n \<noteq> 0"
    using assms by (auto simp: vend_def intro!: s64_id)
  obtain pre e rest where rl: "rl = pre @ e # rest" and i: "rl_seek rl start = Ok (length pre)"
    and seg: "rl_seg 0 pre (rl_vcn e)" and c: "rl_chain (rl_vcn e) (e # rest)"
    and e: "rl_vcn e \<le> start" "rl_len e \<noteq> 0 \<longrightarrow> start < rl_vcn e + rl_len e"
    using rl_seek_eq [of 0 rl start] assms by (auto simp: rl_wf_def)
  have m: "rl_map rl y = rl_map (e # rest) y" if "start \<le> y" for y
    using rl_map_seg [OF seg, of y "e # rest"] that e(1) assms(2) rl by simp
  have re: "rl_end rl = rl_end (e # rest)" using rl_end_seg [OF seg] rl by simp
  have "rl_len (hd (e # rest)) \<noteq> 0 \<longrightarrow> start < rl_vcn e + rl_len (hd (e # rest))" using e(2) by simp
  from punch_end_eq [OF c e(1) less_imp_le [OF s(2)] this] show ?thesis
  proof (elim disjE exE conjE)
    fix x
    assume "punch_end (e # rest) vend = Error EINVAL" "start \<le> x" "x \<le> vend" "x < rl_end (e # rest)"
      "rl_map (e # rest) x < LCN_HOLE"
    moreover from this(1) have "ntfs_rl_punch_nolock mem (Some rl) start n = Error EINVAL"
      using s i rl by (simp add: ntfs_rl_punch_nolock_def Let_def del: punch_end.simps)
    ultimately show ?thesis using m re vend_def by auto
  next
    fix ms x R
    assume ms: "e # rest = ms @ x # R" "punch_end (e # rest) vend = Ok (length ms)"
      "rl_seg (rl_vcn e) ms (rl_vcn x)" "\<forall>e\<in>set ms. LCN_HOLE \<le> rl_lcn e" "rl_chain (rl_vcn x) (x # R)"
      "rl_vcn x \<le> vend" "rl_len x \<noteq> 0 \<longrightarrow> vend < rl_vcn x + rl_len x"
    let ?r = "ntfs_rl_punch_nolock mem (Some rl) start n"
    have rex: "rl_end rl = rl_end (x # R)" using re ms(1) rl_end_seg [OF ms(3)] by simp
    have mx: "rl_map rl y = (if y < rl_vcn x then rl_map ms y else rl_map (x # R) y)" if "start \<le> y" for y
      using m [OF that] rl_map_seg [OF ms(3), of y "x # R"] e(1) that ms(1) by simp
    have k: "rd rl (length pre + length ms) = Ok x" "drop (length pre + length ms) rl = x # R"
      using rl ms(1) by (simp_all add: cell_simps del: rd_in)
    note eq = ntfs_rl_punch_nolock_def [of mem "Some rl" start n, unfolded Let_def s(1) option.case i bind_result.simps]
    note eq = eq [unfolded rl drop_append_self ms(2) bind_result.simps, folded rl, unfolded k(1) bind_result.simps]
    show ?thesis
    proof (cases "rl_len x \<noteq> 0 \<and> rl_lcn x < LCN_HOLE")
      case True
      have "rl_map rl vend < LCN_HOLE" using mx [of vend] s(2) ms(6,7) True by simp
      moreover have "vend < rl_end rl"
        using rex True ms(5,7) rl_chain_end [of "rl_vcn x + rl_len x" R] by auto
      moreover have "?r = Error EINVAL" using eq s rl True by simp
      ultimately show ?thesis using s(2) vend_def by auto
    next
      case False
      have no: "\<not> (\<exists>y. start \<le> y \<and> y \<le> start + n \<and> y < rl_end rl \<and> rl_map rl y < LCN_HOLE)"
      proof (intro notI, elim exE conjE)
        fix y
        assume y: "start \<le> y" "y \<le> start + n" "y < rl_end rl" "rl_map rl y < LCN_HOLE"
        have "rl_vcn x \<le> y"
          using mx [OF y(1)] rl_map_mapped [OF ms(3,4), of y] e(1) y(1,4) by (cases "rl_vcn x \<le> y") auto
        then show False using y mx [OF y(1)] False rex ms(7) vend_def by (auto split: if_splits)
      qed
      show ?thesis
      proof (cases "rl_len x = 0 \<and> vend > rl_vcn x")
        case True
        then have "?r = Error ENOENT" using eq s rl False by simp
        moreover have "rl_end rl < start + n" using rex True vend_def by simp
        ultimately show ?thesis using no by simp
      next
        case in_range: False
        have len: "rl_len e \<noteq> 0" using ms(1,3,6,7) in_range e(1) s(2) by (cases ms) auto
        obtain j where j: "scan_end (x # R) = Ok j" using rl_chain_terminated [OF ms(5)] scan_end_eq by metis
        have ctx: "punch_ctx pre e rest ms x R start vend j"
          unfolding punch_ctx_def using ms seg c len e s(2) False in_range j by auto
        have "vend \<le> rl_end rl"
          using rex in_range ms(5,7) rl_chain_end [of "rl_vcn x + rl_len x" R] by (auto split: if_splits)
        then have nb: "\<not> rl_end rl < start + n" by (simp add: vend_def)
        have d: "rd rl (length pre + 1) = Ok (hd rest)" "rd rl (length pre) = Ok e"
          using punch_ctx_facts(12) [OF ctx] rl by (simp_all add: cell_simps del: rd_in)
        have "?r = Error ENOMEM \<and> \<not> alloc_ok mem \<or> (\<exists>rl'. ?r = Ok (Some rl') \<and> punched rl start vend rl')"
          unfolding eq d k j bind_result.simps if_not_P [OF s(3)] if_not_P [OF False] if_not_P [OF in_range]
            if_not_P [OF s(4)] if_not_P [OF len]
          by (rule bind_Some_cases, rule punch_at [OF ctx refl refl refl _ refl refl, folded rl]) (simp add: vend_def)
        then show ?thesis unfolding if_not_P [OF no] if_not_P [OF nb] by (simp add: punched_def vend_def)
      qed
    qed
  qed
qed

theorem rl_punch_correct_witness:
  "\<exists>rl'. ntfs_rl_punch_nolock merge_mem (Some rl_example) 2 3 = Ok (Some rl') \<and> rl_wf rl' \<and>
     rl_map rl' 1 = 101 \<and> rl_map rl' 4 = LCN_HOLE \<and> rl_map rl' 5 = 105"
proof -
  have no: "\<not> (\<exists>x. 2 \<le> x \<and> x \<le> 2 + 3 \<and> x < rl_end rl_example \<and> rl_map rl_example x < LCN_HOLE)"
    and nb: "\<not> rl_end rl_example < 2 + 3" and mem: "alloc_ok merge_mem"
    by (auto simp: rl_example_def merge_mem_def)
  obtain rl' where "ntfs_rl_punch_nolock merge_mem (Some rl_example) 2 3 = Ok (Some rl')" "rl_wf rl'"
    "\<forall>y\<ge>0. rl_map rl' y = (if 2 \<le> y \<and> y < 2 + 3 then LCN_HOLE else rl_map rl_example y)"
    using rl_punch_correct [OF rl_example_wf, of 2 3 merge_mem, unfolded if_not_P [OF no] if_not_P [OF nb]] mem
    by auto
  then show ?thesis by (intro exI [of _ rl']) (simp add: rl_example_def)
qed

end
