(* ===== verification/Ntfs_Unistr.thy ===== *)
theory Ntfs_Unistr
  imports Ntfs_Prelude
begin

text \<open>
  Unicode names (\<^verbatim>\<open>ntfs/unistr.c\<close>): comparison, collation, upcasing and the conversion to and
  from the character set of the mount. A string is the list of the 16-bit characters that are
  readable from its pointer on, a length is passed separately as in the code; the upcase table is
  such a list too. The tables of the character set are parameters.
\<close>

section \<open>Comparing characters\<close>

type_synonym ntfschar = u16

definition NTFS_MAX_NAME_LEN :: nat where
  "NTFS_MAX_NAME_LEN = 255"

definition NLS_MAX_CHARSET_SIZE :: nat where
  "NLS_MAX_CHARSET_SIZE = 6"

definition legal_ansi_char_array :: "u8 list" where
  "legal_ansi_char_array =
    [0x00, 0x10, 0x10, 0x10, 0x10, 0x10, 0x10, 0x10,
     0x10, 0x10, 0x10, 0x10, 0x10, 0x10, 0x10, 0x10,
     0x10, 0x10, 0x10, 0x10, 0x10, 0x10, 0x10, 0x10,
     0x10, 0x10, 0x10, 0x10, 0x10, 0x10, 0x10, 0x10,
     0x17, 0x07, 0x18, 0x17, 0x17, 0x17, 0x17, 0x17,
     0x17, 0x17, 0x18, 0x16, 0x16, 0x17, 0x07, 0x00,
     0x17, 0x17, 0x17, 0x17, 0x17, 0x17, 0x17, 0x17,
     0x17, 0x17, 0x04, 0x16, 0x18, 0x16, 0x18, 0x18]"

text \<open>\<^verbatim>\<open>c1 < 64 && legal_ansi_char_array[c1] & 8\<close>\<close>

definition illegal_char :: "ntfschar \<Rightarrow> bool" where
  "illegal_char c \<longleftrightarrow> c < 64 \<and> legal_ansi_char_array ! unat c AND 8 \<noteq> 0"

text \<open>One table lookup: \<^verbatim>\<open>if (c < upcase_len) c = upcase[c]\<close>.\<close>

definition up_char :: "ntfschar list \<Rightarrow> nat \<Rightarrow> ntfschar \<Rightarrow> ntfschar result" where
  "up_char upcase upcase_len c = (if unat c < upcase_len then rd upcase (unat c) else Ok c)"

fun ntfs_ucsncmp :: "ntfschar list \<Rightarrow> ntfschar list \<Rightarrow> nat \<Rightarrow> int result" where
  "ntfs_ucsncmp s1 s2 0 = Ok 0"
| "ntfs_ucsncmp s1 s2 (Suc n) =
     bind_result (rd s1 0) (\<lambda>c1.
     bind_result (rd s2 0) (\<lambda>c2.
       if c1 < c2 then Ok (- 1)
       else if c1 > c2 then Ok 1
       else if c1 = 0 then Ok 0
       else ntfs_ucsncmp (tl s1) (tl s2) n))"

fun ntfs_ucsncasecmp ::
  "ntfschar list \<Rightarrow> ntfschar list \<Rightarrow> nat \<Rightarrow> ntfschar list \<Rightarrow> nat \<Rightarrow> int result" where
  "ntfs_ucsncasecmp s1 s2 0 upcase upcase_size = Ok 0"
| "ntfs_ucsncasecmp s1 s2 (Suc n) upcase upcase_size =
     bind_result (bind_result (rd s1 0) (up_char upcase upcase_size)) (\<lambda>c1.
     bind_result (bind_result (rd s2 0) (up_char upcase upcase_size)) (\<lambda>c2.
       if c1 < c2 then Ok (- 1)
       else if c1 > c2 then Ok 1
       else if c1 = 0 then Ok 0
       else ntfs_ucsncasecmp (tl s1) (tl s2) n upcase upcase_size))"

datatype IGNORE_CASE_BOOL = CASE_SENSITIVE | IGNORE_CASE

definition ntfs_are_names_equal ::
  "ntfschar list \<Rightarrow> nat \<Rightarrow> ntfschar list \<Rightarrow> nat \<Rightarrow> IGNORE_CASE_BOOL \<Rightarrow> ntfschar list \<Rightarrow> nat \<Rightarrow> bool result" where
  "ntfs_are_names_equal s1 s1_len s2 s2_len ic upcase upcase_size =
     (if s1_len \<noteq> s2_len then Ok False
      else if ic = CASE_SENSITIVE then bind_result (ntfs_ucsncmp s1 s2 s1_len) (\<lambda>r. Ok (r = 0))
      else bind_result (ntfs_ucsncasecmp s1 s2 s1_len upcase upcase_size) (\<lambda>r. Ok (r = 0)))"

section \<open>Collation\<close>

text \<open>The loop over the common length: \<open>Some\<close> the value of an early return, or \<open>None\<close>.\<close>

fun collate_names_loop ::
  "ntfschar list \<Rightarrow> ntfschar list \<Rightarrow> nat \<Rightarrow> int \<Rightarrow> IGNORE_CASE_BOOL \<Rightarrow> ntfschar list \<Rightarrow> nat \<Rightarrow> int option result"
where
  "collate_names_loop name1 name2 0 err_val ic upcase upcase_len = Ok None"
| "collate_names_loop name1 name2 (Suc cnt) err_val ic upcase upcase_len =
     bind_result (rd name1 0) (\<lambda>c1.
     bind_result (rd name2 0) (\<lambda>c2.
     bind_result (if ic = IGNORE_CASE then up_char upcase upcase_len c1 else Ok c1) (\<lambda>c1.
     bind_result (if ic = IGNORE_CASE then up_char upcase upcase_len c2 else Ok c2) (\<lambda>c2.
       if illegal_char c1 then Ok (Some err_val)
       else if c1 < c2 then Ok (Some (- 1))
       else if c1 > c2 then Ok (Some 1)
       else collate_names_loop (tl name1) (tl name2) cnt err_val ic upcase upcase_len))))"

definition ntfs_collate_names ::
  "ntfschar list \<Rightarrow> nat \<Rightarrow> ntfschar list \<Rightarrow> nat \<Rightarrow> int \<Rightarrow> IGNORE_CASE_BOOL \<Rightarrow> ntfschar list \<Rightarrow> nat \<Rightarrow> int result"
where
  "ntfs_collate_names name1 name1_len name2 name2_len err_val ic upcase upcase_len =
     (let min_len = if name1_len > name2_len then name2_len else name1_len in
      bind_result (collate_names_loop name1 name2 min_len err_val ic upcase upcase_len) (\<lambda>r.
        case r of
          Some v \<Rightarrow> Ok v
        | None \<Rightarrow>
            if name1_len < name2_len then Ok (- 1)
            else if name1_len = name2_len then Ok 0
            else bind_result (rd name1 min_len) (\<lambda>c1.
              if illegal_char c1 then Ok err_val else Ok 1)))"

section \<open>Upcasing\<close>

text \<open>The loop of \<^verbatim>\<open>ntfs_upcase_name\<close> from character \<open>i\<close> on, with \<open>n\<close> characters left.\<close>

fun upcase_name_loop :: "ntfschar list \<Rightarrow> nat \<Rightarrow> nat \<Rightarrow> ntfschar list \<Rightarrow> nat \<Rightarrow> ntfschar list result" where
  "upcase_name_loop name i 0 upcase upcase_len = Ok name"
| "upcase_name_loop name i (Suc n) upcase upcase_len =
     bind_result (rd name i) (\<lambda>u.
     bind_result
       (if unat u < upcase_len then bind_result (rd upcase (unat u)) (wr name i) else Ok name) (\<lambda>name.
       upcase_name_loop name (Suc i) n upcase upcase_len))"

definition ntfs_upcase_name :: "ntfschar list \<Rightarrow> nat \<Rightarrow> ntfschar list \<Rightarrow> nat \<Rightarrow> ntfschar list result" where
  "ntfs_upcase_name name name_len upcase upcase_len = upcase_name_loop name 0 name_len upcase upcase_len"

text \<open>The part of a \<^verbatim>\<open>FILE_NAME_ATTR\<close> these routines use.\<close>

record file_name_attr =
  file_name_length :: u8
  file_name :: "ntfschar list"

definition ntfs_file_upcase_value :: "file_name_attr \<Rightarrow> ntfschar list \<Rightarrow> nat \<Rightarrow> file_name_attr result" where
  "ntfs_file_upcase_value fn upcase upcase_len =
     bind_result (ntfs_upcase_name (file_name fn) (unat (file_name_length fn)) upcase upcase_len) (\<lambda>name.
       Ok (fn\<lparr>file_name := name\<rparr>))"

definition ntfs_file_compare_values ::
  "file_name_attr \<Rightarrow> file_name_attr \<Rightarrow> int \<Rightarrow> IGNORE_CASE_BOOL \<Rightarrow> ntfschar list \<Rightarrow> nat \<Rightarrow> int result" where
  "ntfs_file_compare_values fn1 fn2 err_val ic upcase upcase_len =
     ntfs_collate_names (file_name fn1) (unat (file_name_length fn1))
       (file_name fn2) (unat (file_name_length fn2)) err_val ic upcase upcase_len"

section \<open>Conversion from the character set of the mount\<close>

text \<open>
  \<open>char2uni\<close> is the routine of the loaded character set: given the bytes left it returns the number
  of bytes it used, negative on failure, and the character. The name buffer \<open>ucs\<close> is what the
  allocator returned.
\<close>

function nlstoucs_loop ::
  "(u8 list \<Rightarrow> int \<times> ntfschar) \<Rightarrow> u8 list \<Rightarrow> nat \<Rightarrow> ntfschar list \<Rightarrow> nat \<Rightarrow> (ntfschar list \<times> nat) result" where
  "nlstoucs_loop char2uni ins i ucs j =
     (if i < length ins then
        (let (wc_len, wc) = char2uni (drop i ins) in
         if wc_len \<ge> 0 \<and> j < NTFS_MAX_NAME_LEN then
           (if wc \<noteq> 0 then
              bind_result (wr ucs j wc) (\<lambda>ucs.
                nlstoucs_loop char2uni ins (i + nat wc_len) ucs (j + 1))
            else Ok (ucs, j))
         else if wc_len < 0 then Error EILSEQ
         else Error ENAMETOOLONG)
      else Ok (ucs, j))"
  by pat_completeness auto
termination
  by (relation "measure (\<lambda>(c, ins, i, ucs, j). NTFS_MAX_NAME_LEN - j)") auto

declare nlstoucs_loop.simps [simp del]

definition ntfs_nlstoucs ::
  "(u8 list \<Rightarrow> int \<times> ntfschar) \<Rightarrow> u8 list option \<Rightarrow> ntfschar list option \<Rightarrow> (ntfschar list \<times> nat) result" where
  "ntfs_nlstoucs char2uni inso ucso =
     (case inso of
        None \<Rightarrow> Error EINVAL
      | Some ins \<Rightarrow>
          (case ucso of
             None \<Rightarrow> Error ENOMEM
           | Some ucs \<Rightarrow>
               bind_result (nlstoucs_loop char2uni ins 0 ucs 0) (\<lambda>(ucs, j).
               bind_result (wr ucs j 0) (\<lambda>ucs. Ok (ucs, j)))))"

section \<open>Conversion to the character set of the mount\<close>

text \<open>
  \<open>uni2char c n\<close> is the routine of the loaded character set that stores the character \<open>c\<close> into at
  most \<open>n\<close> bytes: \<open>Inr\<close> the bytes it stores, or \<open>Inl\<close> the error. \<open>kmalloc n\<close> is the buffer of \<open>n\<close>
  bytes the allocator returns, or \<open>None\<close>. The buffer \<open>ns\<close> holds \<open>p\<close> bytes of output and is used up to
  \<open>ns_len\<close>; \<open>own\<close> says that it was allocated here and may be replaced by a bigger one. The routine
  tries one character until it fits, for ever if need be: then the result is \<open>None\<close>.
\<close>

definition put_bytes :: "u8 list \<Rightarrow> nat \<Rightarrow> u8 list \<Rightarrow> u8 list result" where
  "put_bytes buf p bytes =
     (if p + length bytes \<le> length buf then Ok (take p buf @ bytes @ drop (p + length bytes) buf) else Oob)"

definition grown_size :: "nat \<Rightarrow> nat" where
  "grown_size ns_len = (ns_len + 64) div 64 * 64"

partial_function (option) ucstonls_loop ::
  "(ntfschar \<Rightarrow> nat \<Rightarrow> errno + u8 list) \<Rightarrow> (nat \<Rightarrow> u8 list option) \<Rightarrow> bool \<Rightarrow> ntfschar list \<Rightarrow> nat \<Rightarrow>
   u8 list \<Rightarrow> nat \<Rightarrow> (u8 list \<times> nat) result option" where
  "ucstonls_loop uni2char kmalloc own ins ns_len ns p =
     (case ins of
        [] \<Rightarrow> Some (Ok (ns, p))
      | c # rest \<Rightarrow>
          (case uni2char c (ns_len - p) of
             Inr [] \<Rightarrow> Some (Ok (ns, p))
           | Inr bytes \<Rightarrow>
               (case put_bytes ns p bytes of
                  Ok ns \<Rightarrow> ucstonls_loop uni2char kmalloc own rest ns_len ns (p + length bytes)
                | _ \<Rightarrow> Some Oob)
           | Inl e \<Rightarrow>
               (case (if e = ENAMETOOLONG \<and> own then kmalloc (grown_size ns_len) else None) of
                  Some tc \<Rightarrow>
                    (case bind_result (rd_bytes ns 0 ns_len) (put_bytes tc 0) of
                       Ok tc \<Rightarrow> ucstonls_loop uni2char kmalloc own ins (grown_size ns_len - 1) tc p
                     | _ \<Rightarrow> Some Oob)
                | None \<Rightarrow> Some (Error (if e = ENAMETOOLONG then ENAMETOOLONG else EILSEQ)))))"

text \<open>\<open>outs\<close> is the caller's buffer, \<open>None\<close> when the routine has to allocate one.\<close>

definition ntfs_ucstonls ::
  "(ntfschar \<Rightarrow> nat \<Rightarrow> errno + u8 list) \<Rightarrow> (nat \<Rightarrow> u8 list option) \<Rightarrow> ntfschar list option \<Rightarrow>
   u8 list option \<Rightarrow> nat \<Rightarrow> (u8 list \<times> nat) result option" where
  "ntfs_ucstonls uni2char kmalloc inso outs outs_len =
     (case inso of
        None \<Rightarrow> Some (Error EINVAL)
      | Some ins \<Rightarrow>
          if outs \<noteq> None \<and> outs_len = 0 then Some (Error ENAMETOOLONG)
          else
            (case (case outs of
                     Some ns \<Rightarrow> Some (ns, outs_len)
                   | None \<Rightarrow>
                       let ns_len = length ins * NLS_MAX_CHARSET_SIZE in
                       map_option (\<lambda>ns. (ns, ns_len)) (kmalloc (ns_len + 1))) of
               None \<Rightarrow> Some (Error ENOMEM)
             | Some (ns, ns_len) \<Rightarrow>
                 map_option (\<lambda>r. bind_result r (\<lambda>(ns, p). bind_result (wr ns p 0) (\<lambda>ns. Ok (ns, p))))
                   (ucstonls_loop uni2char kmalloc (outs = None) ins ns_len ns 0)))"

section \<open>Collation compares upcased names lexicographically\<close>

text \<open>The specification: the sign of the first difference, a proper prefix collating first.\<close>

fun lexcmp :: "'a::linorder list \<Rightarrow> 'a list \<Rightarrow> int" where
  "lexcmp [] [] = 0"
| "lexcmp [] (y # ys) = - 1"
| "lexcmp (x # xs) [] = 1"
| "lexcmp (x # xs) (y # ys) = (if x < y then - 1 else if x > y then 1 else lexcmp xs ys)"

definition folded_char :: "IGNORE_CASE_BOOL \<Rightarrow> ntfschar list \<Rightarrow> nat \<Rightarrow> ntfschar \<Rightarrow> ntfschar" where
  "folded_char ic upcase upcase_len c = (if ic = IGNORE_CASE \<and> unat c < upcase_len then upcase ! unat c else c)"

definition folded :: "IGNORE_CASE_BOOL \<Rightarrow> ntfschar list \<Rightarrow> nat \<Rightarrow> ntfschar list \<Rightarrow> ntfschar list" where
  "folded ic upcase upcase_len = map (folded_char ic upcase upcase_len)"

definition legal_name :: "IGNORE_CASE_BOOL \<Rightarrow> ntfschar list \<Rightarrow> nat \<Rightarrow> ntfschar list \<Rightarrow> bool" where
  "legal_name ic upcase upcase_len name \<longleftrightarrow>
     list_all (\<lambda>c. \<not> illegal_char c \<and> \<not> illegal_char (folded_char ic upcase upcase_len c)) name"

lemma up_char_Ok: "upcase_len \<le> length upcase \<Longrightarrow>
    up_char upcase upcase_len c = Ok (folded_char IGNORE_CASE upcase upcase_len c)"
  by (simp add: up_char_def folded_char_def)

lemma fold_step:
  "upcase_len \<le> length upcase \<Longrightarrow>
   (if ic = IGNORE_CASE then up_char upcase upcase_len c else Ok c) = Ok (folded_char ic upcase upcase_len c)"
  by (cases ic) (simp_all add: up_char_Ok, simp add: folded_char_def)

lemma collate_loop_eq:
  assumes "upcase_len \<le> length upcase" and "n \<le> length name1" and "n \<le> length name2"
    and "legal_name ic upcase upcase_len (take n name1)"
  shows "collate_names_loop name1 name2 n err_val ic upcase upcase_len =
    (let r = lexcmp (folded ic upcase upcase_len (take n name1)) (folded ic upcase upcase_len (take n name2))
     in Ok (if r = 0 then None else Some r))"
  using assms
proof (induction n arbitrary: name1 name2)
  case (Suc n)
  then obtain c1 n1 c2 n2 where n: "name1 = c1 # n1" "name2 = c2 # n2" by (auto simp: Suc_le_length_iff)
  then show ?case
    using Suc by (simp add: fold_step folded_def legal_name_def Let_def del: fun_upd_apply)
qed (simp add: folded_def)

lemma lexcmp_append:
  assumes "length xs = length ys"
  shows "lexcmp (xs @ us) (ys @ vs) = (if lexcmp xs ys = 0 then lexcmp us vs else lexcmp xs ys)"
  using assms by (induction xs ys rule: list_induct2) auto

lemma lexcmp_Nil: "lexcmp [] ys = (if ys = [] then 0 else - 1)" "lexcmp xs [] = (if xs = [] then 0 else 1)"
  by (cases ys; simp) (cases xs; simp)

lemma collate_names_lexcmp:
  assumes "upcase_len \<le> length upcase" and "len1 \<le> length name1" and "len2 \<le> length name2"
    and "legal_name ic upcase upcase_len (take len1 name1)"
  shows "ntfs_collate_names name1 len1 name2 len2 err_val ic upcase upcase_len =
    Ok (lexcmp (folded ic upcase upcase_len (take len1 name1)) (folded ic upcase upcase_len (take len2 name2)))"
proof -
  define n where "n = (if len1 > len2 then len2 else len1)"
  let ?f = "folded ic upcase upcase_len"
  let ?u1 = "drop n (take len1 name1)" and ?u2 = "drop n (take len2 name2)"
  have n: "n \<le> len1" "n \<le> len2" by (auto simp: n_def)
  then have split: "take len1 name1 = take n name1 @ ?u1" "take len2 name2 = take n name2 @ ?u2"
    by (metis append_take_drop_id min.absorb1 take_take)+
  have "lexcmp (?f (take len1 name1)) (?f (take len2 name2)) =
      (let r = lexcmp (?f (take n name1)) (?f (take n name2)) in if r = 0 then lexcmp (?f ?u1) (?f ?u2) else r)"
    using n assms(2,3) by (subst split(1), subst split(2)) (simp add: folded_def lexcmp_append Let_def)
  moreover have "legal_name ic upcase upcase_len (take n name1)"
    using assms(4) by (subst (asm) split(1)) (simp add: legal_name_def)
  then have "collate_names_loop name1 name2 n err_val ic upcase upcase_len =
      (let r = lexcmp (?f (take n name1)) (?f (take n name2)) in Ok (if r = 0 then None else Some r))"
    using collate_loop_eq [OF assms(1), of n name1 name2 ic err_val] n assms(2,3) by simp
  moreover have "lexcmp (?f ?u1) (?f ?u2) = (if len1 < len2 then - 1 else if len1 = len2 then 0 else 1)"
    using n assms(2,3) by (auto simp: n_def folded_def lexcmp_Nil)
  moreover have "\<not> illegal_char (name1 ! n)" if "len2 < len1"
    using assms(2,4) that by (auto simp: n_def legal_name_def list_all_length)
  ultimately show ?thesis
    using assms(2) n by (auto simp: ntfs_collate_names_def Let_def simp flip: n_def)
qed

text \<open>
  C25. Collation of names. For a first name without invalid characters \<^verbatim>\<open>ntfs_collate_names\<close> stays
  inside both names and the upcase table and returns the lexicographic comparison of the two
  names, upcased first when case is ignored: the sign of the first difference, and a proper
  prefix in front of the longer name.
\<close>

theorem collate_names_correct:
  assumes "upcase_len \<le> length upcase" and "len1 \<le> length name1" and "len2 \<le> length name2"
    and "legal_name ic upcase upcase_len (take len1 name1)"
  shows "ntfs_collate_names name1 len1 name2 len2 err_val ic upcase upcase_len =
    Ok (lexcmp (folded ic upcase upcase_len (take len1 name1)) (folded ic upcase upcase_len (take len2 name2)))"
  by (rule collate_names_lexcmp [OF assms])

definition upcase_example :: "ntfschar list" where
  "upcase_example = map (\<lambda>i. if 97 \<le> i \<and> i \<le> 122 then of_nat (i - 32) else of_nat i) [0..<128]"

theorem collate_names_correct_witness:
  "ntfs_collate_names [0x61, 0x62] 2 [0x41, 0x43, 0x44] 3 (- 2) IGNORE_CASE upcase_example 128 = Ok (- 1) \<and>
   legal_name IGNORE_CASE upcase_example 128 [0x61, 0x62]"
proof -
  have l: "legal_name IGNORE_CASE upcase_example 128 (take 2 [0x61, 0x62])" by code_simp
  have "lexcmp (folded IGNORE_CASE upcase_example 128 (take 2 [0x61, 0x62]))
     (folded IGNORE_CASE upcase_example 128 (take 3 [0x41, 0x43, 0x44])) = - 1" by code_simp
  moreover have "128 \<le> length upcase_example" by (simp add: upcase_example_def)
  ultimately show ?thesis
    using collate_names_correct [of 128 upcase_example 2 "[0x61, 0x62]" 3 "[0x41, 0x43, 0x44]" IGNORE_CASE "- 2"] l
    by simp
qed

text \<open>
  Invalid characters. When the common part of the names agrees up to a character of the
  first name that is invalid after upcasing, \<^verbatim>\<open>ntfs_collate_names\<close> returns \<open>err_val\<close>, whatever
  the rest of the names.
\<close>

lemma collate_names_invalid:
  assumes "upcase_len \<le> length upcase" and "len1 \<le> length name1" and "len2 \<le> length name2"
    and "k < len1" and "k < len2" and "legal_name ic upcase upcase_len (take k name1)"
    and "folded ic upcase upcase_len (take k name1) = folded ic upcase upcase_len (take k name2)"
    and "illegal_char (folded_char ic upcase upcase_len (name1 ! k))"
  shows "ntfs_collate_names name1 len1 name2 len2 err_val ic upcase upcase_len = Ok err_val"
proof -
  have "collate_names_loop name1 name2 n err_val ic upcase upcase_len = Ok (Some err_val)"
    if "k < n" "n \<le> length name1" "n \<le> length name2" for n
    using assms(1,6-8) that
  proof (induction n arbitrary: k name1 name2)
    case (Suc n)
    then obtain c1 n1 c2 n2 where n: "name1 = c1 # n1" "name2 = c2 # n2" by (auto simp: Suc_le_length_iff)
    show ?case
    proof (cases k)
      case 0
      then show ?thesis using Suc.prems n by (simp add: fold_step)
    next
      case (Suc k')
      then show ?thesis
        using Suc.IH [of k' n1 n2] Suc.prems n by (simp add: fold_step folded_def legal_name_def)
    qed
  qed simp
  from this [of "if len1 > len2 then len2 else len1"] show ?thesis
    using assms(2-5) by (simp add: ntfs_collate_names_def)
qed

section \<open>Equality of names\<close>

text \<open>What the two comparisons look at: the characters up to and including the first NUL.\<close>

fun upto_nul :: "ntfschar list \<Rightarrow> ntfschar list" where
  "upto_nul [] = []"
| "upto_nul (c # cs) = c # (if c = 0 then [] else upto_nul cs)"

lemma ucsncmp_eq:
  assumes "n \<le> length s1" and "n \<le> length s2"
  shows "\<exists>r. ntfs_ucsncmp s1 s2 n = Ok r \<and> (r = 0 \<longleftrightarrow> upto_nul (take n s1) = upto_nul (take n s2))"
  using assms
proof (induction n arbitrary: s1 s2)
  case (Suc n)
  then obtain c1 r1 c2 r2 where "s1 = c1 # r1" "s2 = c2 # r2" by (auto simp: Suc_le_length_iff)
  with Suc.IH [of r1 r2] Suc.prems show ?case by (auto simp: word_gt_0)
qed simp

lemma ucsncasecmp_eq:
  assumes "upcase_len \<le> length upcase" and "n \<le> length s1" and "n \<le> length s2"
  shows "\<exists>r. ntfs_ucsncasecmp s1 s2 n upcase upcase_len = Ok r \<and>
    (r = 0 \<longleftrightarrow> upto_nul (folded IGNORE_CASE upcase upcase_len (take n s1)) =
      upto_nul (folded IGNORE_CASE upcase upcase_len (take n s2)))"
  using assms(2,3)
proof (induction n arbitrary: s1 s2)
  case (Suc n)
  then obtain c1 r1 c2 r2 where "s1 = c1 # r1" "s2 = c2 # r2" by (auto simp: Suc_le_length_iff)
  with Suc.IH [of r1 r2] Suc.prems show ?case by (auto simp: up_char_Ok [OF assms(1)] folded_def word_gt_0)
qed simp

lemma upto_nul_id: "0 \<notin> set xs \<Longrightarrow> upto_nul xs = xs"
  by (induction xs) auto

lemma are_names_equal_folded:
  assumes "upcase_len \<le> length upcase" and "len1 \<le> length s1" and "len2 \<le> length s2"
    and "0 \<notin> set (folded ic upcase upcase_len (take len1 s1))"
    and "0 \<notin> set (folded ic upcase upcase_len (take len2 s2))"
  shows "ntfs_are_names_equal s1 len1 s2 len2 ic upcase upcase_len =
    Ok (folded ic upcase upcase_len (take len1 s1) = folded ic upcase upcase_len (take len2 s2))"
proof (cases "len1 = len2")
  case False
  then have "length (folded ic upcase upcase_len (take len1 s1)) \<noteq> length (folded ic upcase upcase_len (take len2 s2))"
    using assms(2,3) by (simp add: folded_def)
  then show ?thesis using False by (auto simp: ntfs_are_names_equal_def)
next
  case True
  have cs: "folded CASE_SENSITIVE upcase upcase_len xs = xs" for xs
    by (simp add: folded_def folded_char_def map_idI)
  show ?thesis
  proof (cases ic)
    case CASE_SENSITIVE
    then show ?thesis
      using ucsncmp_eq [of len1 s1 s2] assms True by (auto simp: ntfs_are_names_equal_def cs upto_nul_id)
  next
    case IGNORE_CASE
    then show ?thesis
      using ucsncasecmp_eq [OF assms(1), of len1 s1 s2] assms True by (auto simp: ntfs_are_names_equal_def upto_nul_id)
  qed
qed

section \<open>Conversion between character sets\<close>

lemma nlstoucs_loop_safe:
  assumes "length ucs = 256" and "j \<le> 255" and "\<forall>k<j. ucs ! k \<noteq> 0"
  shows "(\<exists>ucs' j'. nlstoucs_loop char2uni ins i ucs j = Ok (ucs', j') \<and> length ucs' = 256 \<and> j' \<le> 255 \<and>
      (\<forall>k<j'. ucs' ! k \<noteq> 0)) \<or>
    nlstoucs_loop char2uni ins i ucs j \<in> {Error EILSEQ, Error ENAMETOOLONG}"
  using assms
proof (induction char2uni ins i ucs j rule: nlstoucs_loop.induct)
  case (1 char2uni ins i ucs j)
  obtain l wc where c: "char2uni (drop i ins) = (l, wc)" by fastforce
  show ?case
  proof (cases "i < length ins \<and> l \<ge> 0 \<and> j < NTFS_MAX_NAME_LEN \<and> wc \<noteq> 0")
    case True
    then have j: "j < 255" by (simp add: NTFS_MAX_NAME_LEN_def)
    then have "wr ucs j wc = Ok (ucs[j := wc])" using 1(2) by simp
    moreover have "\<forall>k<j + 1. ucs[j := wc] ! k \<noteq> 0"
      using True j 1(2,4) by (auto simp: nth_list_update less_Suc_eq)
    ultimately show ?thesis
      using 1(1) [OF _ c [symmetric] refl _ _ , of "ucs[j := wc]"] True j 1(2) c
      by (subst (1 2) nlstoucs_loop.simps) (simp add: Let_def)
  next
    case False
    then show ?thesis
      using 1(2-4) c by (subst (1 2) nlstoucs_loop.simps) auto
  qed
qed

text \<open>
  C26. Converting an untrusted name. Whatever bytes are passed in and whatever the character set
  makes of them, \<^verbatim>\<open>ntfs_nlstoucs\<close> returns, never writes outside the 256 characters of a name buffer,
  and gives either \<^verbatim>\<open>EILSEQ\<close>, \<^verbatim>\<open>ENAMETOOLONG\<close> or a name of at most 255 characters that contains no
  NUL and is terminated by one.
\<close>

theorem nlstoucs_safe:
  assumes "length ucs = 256"
  shows "(\<exists>ucs' j. ntfs_nlstoucs char2uni (Some ins) (Some ucs) = Ok (ucs', j) \<and> length ucs' = 256 \<and> j \<le> 255 \<and>
      0 \<notin> set (take j ucs') \<and> ucs' ! j = 0) \<or>
    ntfs_nlstoucs char2uni (Some ins) (Some ucs) \<in> {Error EILSEQ, Error ENAMETOOLONG}"
proof -
  consider (name) ucs' j where "nlstoucs_loop char2uni ins 0 ucs 0 = Ok (ucs', j)" "length ucs' = 256" "j \<le> 255"
      "\<forall>k<j. ucs' ! k \<noteq> 0"
    | (err) "nlstoucs_loop char2uni ins 0 ucs 0 \<in> {Error EILSEQ, Error ENAMETOOLONG}"
    using nlstoucs_loop_safe [OF assms, of 0 char2uni ins 0] by auto
  then show ?thesis
  proof cases
    case l: name
    then have "ntfs_nlstoucs char2uni (Some ins) (Some ucs) = Ok (ucs'[j := 0], j)" by (simp add: ntfs_nlstoucs_def)
    moreover have "0 \<notin> set (take j (ucs'[j := 0]))" using l(2-4) by (auto simp: in_set_conv_nth)
    ultimately show ?thesis using l(2,3) by auto
  qed (auto simp: ntfs_nlstoucs_def)
qed

text \<open>A character set: Latin 1, one byte per character.\<close>

definition latin1_char2uni :: "u8 list \<Rightarrow> int \<times> ntfschar" where
  "latin1_char2uni bs = (1, ucast (hd bs))"

definition latin1_uni2char :: "ntfschar \<Rightarrow> nat \<Rightarrow> errno + u8 list" where
  "latin1_uni2char c n = (if n < 1 then Inl ENAMETOOLONG else if c < 256 then Inr [ucast c] else Inl EINVAL)"

theorem nlstoucs_safe_witness:
  "\<exists>r. ntfs_nlstoucs latin1_char2uni (Some [0x61, 0x62]) (Some (replicate 256 0)) = r \<and>
     ((\<exists>ucs' j. r = Ok (ucs', j) \<and> j \<le> 255) \<or> r \<in> {Error EILSEQ, Error ENAMETOOLONG})"
  using nlstoucs_safe [of "replicate 256 0" latin1_char2uni "[0x61, 0x62]"] by auto

text \<open>
  What the code relies on of a character set, for the characters of a set \<open>S\<close>: \<open>enc c\<close> is the
  encoding of \<open>c\<close>, at most \<^verbatim>\<open>NLS_MAX_CHARSET_SIZE\<close> bytes, \<open>uni2char\<close> stores it when there is
  room, and \<open>char2uni\<close> reads it back.
\<close>

definition nls_codec ::
  "(u8 list \<Rightarrow> int \<times> ntfschar) \<Rightarrow> (ntfschar \<Rightarrow> nat \<Rightarrow> errno + u8 list) \<Rightarrow> (ntfschar \<Rightarrow> u8 list) \<Rightarrow> ntfschar set \<Rightarrow> bool"
where
  "nls_codec char2uni uni2char enc S \<longleftrightarrow>
     (\<forall>c\<in>S. enc c \<noteq> [] \<and> length (enc c) \<le> NLS_MAX_CHARSET_SIZE \<and>
       (\<forall>n. uni2char c n = (if length (enc c) \<le> n then Inr (enc c) else Inl ENAMETOOLONG)) \<and>
       (\<forall>rest. char2uni (enc c @ rest) = (int (length (enc c)), c)))"

lemma ucstonls_loop_eq:
  assumes "nls_codec char2uni uni2char enc (set cs)" and "p + 6 * length cs \<le> ns_len" and "ns_len < length ns"
  shows "\<exists>ns'. ucstonls_loop uni2char kmalloc own cs ns_len ns p = Some (Ok (ns', p + length (concat (map enc cs)))) \<and>
    length ns' = length ns \<and> take (p + length (concat (map enc cs))) ns' = take p ns @ concat (map enc cs)"
  using assms
proof (induction cs arbitrary: ns p)
  case Nil
  then show ?case by (subst ucstonls_loop.simps) simp
next
  case (Cons c cs)
  have c: "enc c \<noteq> []" "length (enc c) \<le> 6" "uni2char c (ns_len - p) = Inr (enc c)"
    using Cons.prems by (auto simp: nls_codec_def NLS_MAX_CHARSET_SIZE_def)
  let ?ns = "take p ns @ enc c @ drop (p + length (enc c)) ns"
  have put: "put_bytes ns p (enc c) = Ok ?ns" using c Cons.prems(2,3) by (simp add: put_bytes_def)
  have l: "length ?ns = length ns" using c Cons.prems(2,3) by simp
  have eq: "ucstonls_loop uni2char kmalloc own (c # cs) ns_len ns p =
      ucstonls_loop uni2char kmalloc own cs ns_len ?ns (p + length (enc c))"
    using c(1,3) put by (subst ucstonls_loop.simps) (cases "enc c"; simp)
  have "nls_codec char2uni uni2char enc (set cs)" using Cons.prems(1) by (simp add: nls_codec_def)
  moreover have "p + length (enc c) + 6 * length cs \<le> ns_len" using Cons.prems(2) c(2) by simp
  moreover have "ns_len < length ?ns" unfolding l by (rule Cons.prems(3))
  ultimately obtain ns' where I: "ucstonls_loop uni2char kmalloc own cs ns_len ?ns (p + length (enc c)) =
        Some (Ok (ns', p + length (enc c) + length (concat (map enc cs))))"
      "length ns' = length ?ns"
      "take (p + length (enc c) + length (concat (map enc cs))) ns' = take (p + length (enc c)) ?ns @ concat (map enc cs)"
    using Cons.IH [of "p + length (enc c)" ?ns] by blast
  have t: "take (p + length (enc c)) ?ns = take p ns @ enc c" using Cons.prems(2,3) by simp
  have p: "p + length (enc c) + length (concat (map enc cs)) = p + length (concat (map enc (c # cs)))" by simp
  have a: "(take p ns @ enc c) @ concat (map enc cs) = take p ns @ concat (map enc (c # cs))" by simp
  show ?case using I unfolding eq l t p a by blast
qed

lemma nlstoucs_loop_eq:
  assumes "nls_codec char2uni uni2char enc (set cs)" and "0 \<notin> set cs" and "j + length cs \<le> 255" and "length ucs = 256"
    and "ins = pre @ concat (map enc cs)" and "i = length pre"
  shows "nlstoucs_loop char2uni ins i ucs j = Ok (take j ucs @ cs @ drop (j + length cs) ucs, j + length cs)"
  using assms
proof (induction cs arbitrary: pre i ucs j)
  case Nil
  then show ?case by (subst nlstoucs_loop.simps) simp
next
  case (Cons c cs)
  have c: "enc c \<noteq> []" "char2uni (enc c @ concat (map enc cs)) = (int (length (enc c)), c)" "c \<noteq> 0"
    using Cons.prems by (auto simp: nls_codec_def)
  have w: "wr ucs j c = Ok (ucs[j := c])" using Cons.prems(3,4) by simp
  have "nlstoucs_loop char2uni ins i ucs j = nlstoucs_loop char2uni ins (i + length (enc c)) (ucs[j := c]) (j + 1)"
    using c Cons.prems(3,5,6) by (subst nlstoucs_loop.simps) (simp add: w NTFS_MAX_NAME_LEN_def)
  also have "\<dots> = Ok (take (j + 1) (ucs[j := c]) @ cs @ drop (j + 1 + length cs) (ucs[j := c]), j + 1 + length cs)"
  proof (rule Cons.IH [of _ _ "pre @ enc c"])
    show "nls_codec char2uni uni2char enc (set cs)" using Cons.prems(1) by (simp add: nls_codec_def)
  qed (use Cons.prems(2-6) in simp_all)
  also have "take (j + 1) (ucs[j := c]) = take j ucs @ [c]"
    using Cons.prems(3,4) by (simp add: take_Suc_conv_app_nth)
  finally show ?case by simp
qed

text \<open>
  C27. Round trip of names. For a character set that keeps its contract on the characters of a
  name of at most 255 characters without NUL, \<^verbatim>\<open>ntfs_ucstonls\<close> returns, with a buffer it allocates,
  the encoded name and its terminator, and \<^verbatim>\<open>ntfs_nlstoucs\<close> turns these bytes back into exactly
  the name.
\<close>

theorem name_conversion_roundtrip:
  assumes "nls_codec char2uni uni2char enc (set name)" and "0 \<notin> set name" and "length name \<le> 255"
    and "kmalloc (length name * NLS_MAX_CHARSET_SIZE + 1) = Some buf"
    and "length buf = length name * NLS_MAX_CHARSET_SIZE + 1" and "length ucs = 256"
  shows "\<exists>ns p ucs'. ntfs_ucstonls uni2char kmalloc (Some name) None 0 = Some (Ok (ns, p)) \<and>
    take (p + 1) ns = concat (map enc name) @ [0] \<and>
    ntfs_nlstoucs char2uni (Some (take p ns)) (Some ucs) = Ok (ucs', length name) \<and>
    take (length name + 1) ucs' = name @ [0]"
proof -
  let ?p = "length (concat (map enc name))"
  obtain ns' where ns: "ucstonls_loop uni2char kmalloc True name (length name * 6) buf 0 = Some (Ok (ns', ?p))"
      "length ns' = length buf" "take ?p ns' = concat (map enc name)"
    using ucstonls_loop_eq [OF assms(1), of 0 "length name * 6" buf kmalloc True] assms(5)
    by (auto simp: NLS_MAX_CHARSET_SIZE_def)
  have "?p \<le> 6 * length name" 
    using assms(1) by (induction name) (auto simp: nls_codec_def NLS_MAX_CHARSET_SIZE_def)
  then have p: "?p < length ns'" using ns(2) assms(5) by (simp add: NLS_MAX_CHARSET_SIZE_def)
  have "ntfs_ucstonls uni2char kmalloc (Some name) None 0 = Some (Ok (ns'[?p := 0], ?p))"
    using ns p assms(4) by (simp add: ntfs_ucstonls_def NLS_MAX_CHARSET_SIZE_def)
  moreover have "take (?p + 1) (ns'[?p := 0]) = concat (map enc name) @ [0]"
    using ns(3) p by (simp add: take_Suc_conv_app_nth)
  moreover have "nlstoucs_loop char2uni (concat (map enc name)) 0 ucs 0 = Ok (name @ drop (length name) ucs, length name)"
    using nlstoucs_loop_eq [OF assms(1,2), of 0 ucs _ "[]"] assms(3,6) by simp
  then have "ntfs_nlstoucs char2uni (Some (take ?p (ns'[?p := 0]))) (Some ucs) =
      Ok (name @ (drop (length name) ucs)[0 := 0], length name)"
    using ns(3) assms(3,6) by (simp add: ntfs_nlstoucs_def list_update_append)
  moreover have "take (length name + 1) (name @ (drop (length name) ucs)[0 := 0]) = name @ [0]"
    using assms(3,6) by (cases "drop (length name) ucs") auto
  ultimately show ?thesis by blast
qed

definition name_buffer :: "ntfschar list" where
  "name_buffer = replicate 256 1"

definition latin1_kmalloc :: "nat \<Rightarrow> u8 list option" where
  "latin1_kmalloc n = Some (replicate n 0)"

theorem name_conversion_roundtrip_witness:
  "\<exists>ns p ucs'. ntfs_ucstonls latin1_uni2char latin1_kmalloc (Some [0x61, 0xe4]) None 0 = Some (Ok (ns, p)) \<and>
     take (p + 1) ns = [0x61, 0xe4, 0] \<and>
     ntfs_nlstoucs latin1_char2uni (Some (take p ns)) (Some name_buffer) = Ok (ucs', 2) \<and>
     take 3 ucs' = [0x61, 0xe4, 0]"
proof -
  define name :: "ntfschar list" where "name = [0x61, 0xe4]"
  have c: "nls_codec latin1_char2uni latin1_uni2char (\<lambda>c. [ucast c]) (set name)"
    by (simp add: name_def nls_codec_def latin1_char2uni_def latin1_uni2char_def NLS_MAX_CHARSET_SIZE_def)
  have l: "length name = 2" "0 \<notin> set name" "concat (map (\<lambda>c. [ucast c]) name) = [0x61, 0xe4 :: u8]"
    by (simp_all add: name_def)
  have b: "length name_buffer = 256" unfolding name_buffer_def by (rule length_replicate)
  have "\<exists>ns p ucs'. ntfs_ucstonls latin1_uni2char latin1_kmalloc (Some name) None 0 = Some (Ok (ns, p)) \<and>
      take (p + 1) ns = [0x61, 0xe4] @ [0] \<and>
      ntfs_nlstoucs latin1_char2uni (Some (take p ns)) (Some name_buffer) = Ok (ucs', length name) \<and>
      take (length name + 1) ucs' = name @ [0]"
    using name_conversion_roundtrip [OF c l(2) _ _ _ b, of latin1_kmalloc "replicate (length name * NLS_MAX_CHARSET_SIZE + 1) 0"] l
    by (simp add: latin1_kmalloc_def)
  then show ?thesis unfolding l(1) by (simp add: name_def)
qed

end
