(* ===== verification/Ntfs_Upcase.thy ===== *)
theory Ntfs_Upcase
  imports Ntfs_Unistr
begin

text \<open>
  The default upcase table (\<^verbatim>\<open>ntfs/upcase.c\<close>): the 65536 characters, changed by three tables of
  runs, of alternating pairs and of single characters. The tables end in an entry that starts with
  0, as in the code.
\<close>

section \<open>Generating the table\<close>

definition default_upcase_len :: nat where
  "default_upcase_len = 0x10000"

definition uc_run_table :: "(nat \<times> nat \<times> int) list" where
  "uc_run_table =
    [(0x0061, 0x007B, - 32), (0x0451, 0x045D, - 80), (0x1F70, 0x1F72, 74),
     (0x00E0, 0x00F7, - 32), (0x045E, 0x0460, - 80), (0x1F72, 0x1F76, 86),
     (0x00F8, 0x00FF, - 32), (0x0561, 0x0587, - 48), (0x1F76, 0x1F78, 100),
     (0x0256, 0x0258, - 205), (0x1F00, 0x1F08, 8), (0x1F78, 0x1F7A, 128),
     (0x028A, 0x028C, - 217), (0x1F10, 0x1F16, 8), (0x1F7A, 0x1F7C, 112),
     (0x03AC, 0x03AD, - 38), (0x1F20, 0x1F28, 8), (0x1F7C, 0x1F7E, 126),
     (0x03AD, 0x03B0, - 37), (0x1F30, 0x1F38, 8), (0x1FB0, 0x1FB2, 8),
     (0x03B1, 0x03C2, - 32), (0x1F40, 0x1F46, 8), (0x1FD0, 0x1FD2, 8),
     (0x03C2, 0x03C3, - 31), (0x1F51, 0x1F52, 8), (0x1FE0, 0x1FE2, 8),
     (0x03C3, 0x03CC, - 32), (0x1F53, 0x1F54, 8), (0x1FE5, 0x1FE6, 7),
     (0x03CC, 0x03CD, - 64), (0x1F55, 0x1F56, 8), (0x2170, 0x2180, - 16),
     (0x03CD, 0x03CF, - 63), (0x1F57, 0x1F58, 8), (0x24D0, 0x24EA, - 26),
     (0x0430, 0x0450, - 32), (0x1F60, 0x1F68, 8), (0xFF41, 0xFF5B, - 32),
     (0, 0, 0)]"

definition uc_dup_table :: "(nat \<times> nat) list" where
  "uc_dup_table =
    [(0x0100, 0x012F), (0x01A0, 0x01A6), (0x03E2, 0x03EF), (0x04CB, 0x04CC),
     (0x0132, 0x0137), (0x01B3, 0x01B7), (0x0460, 0x0481), (0x04D0, 0x04EB),
     (0x0139, 0x0149), (0x01CD, 0x01DD), (0x0490, 0x04BF), (0x04EE, 0x04F5),
     (0x014A, 0x0178), (0x01DE, 0x01EF), (0x04BF, 0x04BF), (0x04F8, 0x04F9),
     (0x0179, 0x017E), (0x01F4, 0x01F5), (0x04C1, 0x04C4), (0x1E00, 0x1E95),
     (0x018B, 0x018B), (0x01FA, 0x0218), (0x04C7, 0x04C8), (0x1EA0, 0x1EF9),
     (0, 0)]"

definition uc_word_table :: "(nat \<times> nat) list" where
  "uc_word_table =
    [(0x00FF, 0x0178), (0x01AD, 0x01AC), (0x01F3, 0x01F1), (0x0269, 0x0196),
     (0x0183, 0x0182), (0x01B0, 0x01AF), (0x0253, 0x0181), (0x026F, 0x019C),
     (0x0185, 0x0184), (0x01B9, 0x01B8), (0x0254, 0x0186), (0x0272, 0x019D),
     (0x0188, 0x0187), (0x01BD, 0x01BC), (0x0259, 0x018F), (0x0275, 0x019F),
     (0x018C, 0x018B), (0x01C6, 0x01C4), (0x025B, 0x0190), (0x0283, 0x01A9),
     (0x0192, 0x0191), (0x01C9, 0x01C7), (0x0260, 0x0193), (0x0288, 0x01AE),
     (0x0199, 0x0198), (0x01CC, 0x01CA), (0x0263, 0x0194), (0x0292, 0x01B7),
     (0x01A8, 0x01A7), (0x01DD, 0x018E), (0x0268, 0x0197),
     (0, 0)]"

text \<open>\<^verbatim>\<open>le16_add_cpu\<close> on each of the given positions.\<close>

fun uc_add :: "nat list \<Rightarrow> int \<Rightarrow> ntfschar list \<Rightarrow> ntfschar list result" where
  "uc_add [] v uc = Ok uc"
| "uc_add (i # is) v uc =
     bind_result (rd uc i) (\<lambda>c. bind_result (wr uc i (c + of_int v)) (uc_add is v))"

fun uc_runs :: "(nat \<times> nat \<times> int) list \<Rightarrow> ntfschar list \<Rightarrow> ntfschar list result" where
  "uc_runs [] uc = Oob"
| "uc_runs ((a, b, v) # tab) uc =
     (if a = 0 then Ok uc else bind_result (uc_add [a..<b] v uc) (uc_runs tab))"

fun uc_dups :: "(nat \<times> nat) list \<Rightarrow> ntfschar list \<Rightarrow> ntfschar list result" where
  "uc_dups [] uc = Oob"
| "uc_dups ((a, b) # tab) uc =
     (if a = 0 then Ok uc
      else bind_result (uc_add (map (\<lambda>k. a + 2 * k + 1) [0..<(b + 1 - a) div 2]) (- 1) uc) (uc_dups tab))"

fun uc_words :: "(nat \<times> nat) list \<Rightarrow> ntfschar list \<Rightarrow> ntfschar list result" where
  "uc_words [] uc = Oob"
| "uc_words ((a, v) # tab) uc =
     (if a = 0 then Ok uc else bind_result (wr uc a (of_nat v)) (uc_words tab))"

definition generate_default_upcase :: "bool \<Rightarrow> ntfschar list option result" where
  "generate_default_upcase alloc_ok =
     (if alloc_ok then
        bind_result (uc_runs uc_run_table (map of_nat [0..<default_upcase_len])) (\<lambda>uc.
        bind_result (uc_dups uc_dup_table uc) (\<lambda>uc.
        bind_result (uc_words uc_word_table uc) (\<lambda>uc. Ok (Some uc))))
      else Ok None)"

section \<open>The characters of the table\<close>

text \<open>What the three tables do to one character, and where they do nothing.\<close>

fun run_add :: "(nat \<times> nat \<times> int) list \<Rightarrow> nat \<Rightarrow> int" where
  "run_add [] i = 0"
| "run_add ((a, b, v) # tab) i = (if a = 0 then 0 else (if a \<le> i \<and> i < b then v else 0) + run_add tab i)"

fun dup_sub :: "(nat \<times> nat) list \<Rightarrow> nat \<Rightarrow> int" where
  "dup_sub [] i = 0"
| "dup_sub ((a, b) # tab) i =
     (if a = 0 then 0 else (if a < i \<and> i \<le> b \<and> odd (i - a) then 1 else 0) + dup_sub tab i)"

fun word_at :: "(nat \<times> nat) list \<Rightarrow> nat \<Rightarrow> nat option" where
  "word_at [] i = None"
| "word_at ((a, v) # tab) i =
     (if a = 0 then None else case word_at tab i of Some w \<Rightarrow> Some w | None \<Rightarrow> if a = i then Some v else None)"

definition up_val :: "nat \<Rightarrow> int" where
  "up_val i = (case word_at uc_word_table i of
     Some w \<Rightarrow> int w | None \<Rightarrow> int i + run_add uc_run_table i - dup_sub uc_dup_table i)"

lemma uc_add_eq:
  assumes "distinct is" and "\<forall>i\<in>set is. i < length uc"
  shows "\<exists>uc'. uc_add is v uc = Ok uc' \<and> length uc' = length uc \<and>
    (\<forall>i<length uc. uc' ! i = uc ! i + of_int (if i \<in> set is then v else 0))"
  using assms
proof (induction "is" arbitrary: uc)
  case (Cons i "is")
  have "\<exists>uc'. uc_add is v (uc[i := uc ! i + of_int v]) = Ok uc' \<and> length uc' = length (uc[i := uc ! i + of_int v]) \<and>
    (\<forall>j<length (uc[i := uc ! i + of_int v]). uc' ! j = uc[i := uc ! i + of_int v] ! j + of_int (if j \<in> set is then v else 0))"
    using Cons.prems by (intro Cons.IH) auto
  then obtain uc' where "uc_add is v (uc[i := uc ! i + of_int v]) = Ok uc'" "length uc' = length uc"
    "\<forall>j<length uc. uc' ! j = uc[i := uc ! i + of_int v] ! j + of_int (if j \<in> set is then v else 0)" by auto
  then show ?case
    using Cons.prems by (intro exI [of _ uc']) (auto simp: nth_list_update)
qed auto

lemma uc_runs_eq:
  assumes "list_all (\<lambda>(a, b, v). b \<le> 0x10000) tab" and "(0, 0, 0) \<in> set tab" and "length uc = 0x10000"
  shows "\<exists>uc'. uc_runs tab uc = Ok uc' \<and> length uc' = 0x10000 \<and>
    (\<forall>i<0x10000. uc' ! i = uc ! i + of_int (run_add tab i))"
  using assms
proof (induction tab arbitrary: uc)
  case (Cons r tab)
  obtain a b v where r: "r = (a, b, v)" by (cases r)
  show ?case
  proof (cases "a = 0")
    case False
    obtain uc1 where u1: "uc_add [a..<b] v uc = Ok uc1" "length uc1 = length uc"
      "\<forall>i<length uc. uc1 ! i = uc ! i + of_int (if i \<in> set [a..<b] then v else 0)"
      using uc_add_eq [of "[a..<b]" uc v] Cons.prems r by auto
    obtain uc2 where u2: "uc_runs tab uc1 = Ok uc2" "length uc2 = 0x10000"
      "\<forall>i<0x10000. uc2 ! i = uc1 ! i + of_int (run_add tab i)"
      using Cons.IH [of uc1] Cons.prems r False u1(2) by auto
    show ?thesis using u1 u2 False r Cons.prems(3) by (intro exI [of _ uc2]) auto
  qed (use Cons.prems r in auto)
qed simp

lemma uc_dups_eq:
  assumes "list_all (\<lambda>(a, b). b < 0xffff) tab" and "(0, 0) \<in> set tab" and "length uc = 0x10000"
  shows "\<exists>uc'. uc_dups tab uc = Ok uc' \<and> length uc' = 0x10000 \<and>
    (\<forall>i<0x10000. uc' ! i = uc ! i - of_int (dup_sub tab i))"
  using assms
proof (induction tab arbitrary: uc)
  case (Cons r tab)
  obtain a b where r: "r = (a, b)" by (cases r)
  show ?case
  proof (cases "a = 0")
    case False
    define "is" where "is = map (\<lambda>k. a + 2 * k + 1) [0..<(b + 1 - a) div 2]"
    have m: "i \<in> set is \<longleftrightarrow> a < i \<and> i \<le> b \<and> odd (i - a)" for i
    proof
      assume "a < i \<and> i \<le> b \<and> odd (i - a)"
      then have "i = a + 2 * ((i - a) div 2) + 1" "(i - a) div 2 < (b + 1 - a) div 2" by presburger+
      then show "i \<in> set is" unfolding is_def by (metis (no_types, lifting) atLeastLessThan_iff image_eqI le0 list.set_map set_upt)
    qed (auto simp: is_def)
    have "distinct is" by (auto simp: is_def distinct_map inj_on_def)
    then obtain uc1 where u1: "uc_add is (- 1) uc = Ok uc1" "length uc1 = length uc"
      "\<forall>i<length uc. uc1 ! i = uc ! i + of_int (if i \<in> set is then - 1 else 0)"
      using uc_add_eq [of "is" uc "- 1"] Cons.prems r m by fastforce
    obtain uc2 where u2: "uc_dups tab uc1 = Ok uc2" "length uc2 = 0x10000"
      "\<forall>i<0x10000. uc2 ! i = uc1 ! i - of_int (dup_sub tab i)"
      using Cons.IH [of uc1] Cons.prems r False u1(2) by auto
    have "uc_dups (r # tab) uc = Ok uc2" using u1(1) u2(1) False r by (simp add: is_def)
    then show ?thesis using u1 u2 False r Cons.prems(3) m by (intro exI [of _ uc2]) auto
  qed (use Cons.prems r in auto)
qed simp

lemma uc_words_eq:
  assumes "list_all (\<lambda>(a, v). a < 0x10000) tab" and "(0, 0) \<in> set tab" and "length uc = 0x10000"
  shows "\<exists>uc'. uc_words tab uc = Ok uc' \<and> length uc' = 0x10000 \<and>
    (\<forall>i<0x10000. uc' ! i = (case word_at tab i of Some w \<Rightarrow> of_nat w | None \<Rightarrow> uc ! i))"
  using assms
proof (induction tab arbitrary: uc)
  case (Cons r tab)
  obtain a v where r: "r = (a, v)" by (cases r)
  show ?case
  proof (cases "a = 0")
    case False
    obtain uc2 where u2: "uc_words tab (uc[a := of_nat v]) = Ok uc2" "length uc2 = 0x10000"
      "\<forall>i<0x10000. uc2 ! i = (case word_at tab i of Some w \<Rightarrow> of_nat w | None \<Rightarrow> uc[a := of_nat v] ! i)"
      using Cons.IH [of "uc[a := of_nat v]"] Cons.prems r False by auto
    show ?thesis
      using u2 False r Cons.prems by (intro exI [of _ uc2]) (auto split: option.splits simp: nth_list_update)
  qed (use Cons.prems r in auto)
qed simp

lemma upcase_table_eq:
  "\<exists>uc. generate_default_upcase True = Ok (Some uc) \<and> length uc = 0x10000 \<and> (\<forall>i<0x10000. uc ! i = of_int (up_val i))"
proof -
  obtain u1 where u1: "uc_runs uc_run_table (map of_nat [0..<0x10000]) = Ok u1" "length u1 = 0x10000"
    "\<forall>i<0x10000. u1 ! i = of_nat i + of_int (run_add uc_run_table i)"
    using uc_runs_eq [of uc_run_table "map of_nat [0..<0x10000]"] by (auto simp: uc_run_table_def simp del: upt_rec_numeral)
  obtain u2 where u2: "uc_dups uc_dup_table u1 = Ok u2" "length u2 = 0x10000"
    "\<forall>i<0x10000. u2 ! i = u1 ! i - of_int (dup_sub uc_dup_table i)"
    using uc_dups_eq [OF _ _ u1(2), of uc_dup_table] by (auto simp: uc_dup_table_def)
  obtain u3 where u3: "uc_words uc_word_table u2 = Ok u3" "length u3 = 0x10000"
    "\<forall>i<0x10000. u3 ! i = (case word_at uc_word_table i of Some w \<Rightarrow> of_nat w | None \<Rightarrow> u2 ! i)"
    using uc_words_eq [OF _ _ u2(2), of uc_word_table] by (auto simp: uc_word_table_def)
  have "u3 ! i = of_int (up_val i)" if "i < 0x10000" for i
    using u1(3) u2(3) u3(3) that by (auto simp: up_val_def split: option.splits)
  then show ?thesis
    using u1(1) u2(1) u3(1,2) by (auto simp: generate_default_upcase_def default_upcase_len_def simp del: upt_rec_numeral)
qed

section \<open>Upcasing is idempotent\<close>

text \<open>
  The checks on the tables: the runs are disjoint, and no target of a run, of a pair or of a single
  character is itself changed.
\<close>

fun runs_disjoint :: "(nat \<times> nat \<times> int) list \<Rightarrow> bool" where
  "runs_disjoint [] \<longleftrightarrow> True"
| "runs_disjoint ((a, b, v) # tab) \<longleftrightarrow> list_all (\<lambda>(a', b', v'). b \<le> a' \<or> b' \<le> a) tab \<and> runs_disjoint tab"

fun dups_disjoint :: "(nat \<times> nat) list \<Rightarrow> bool" where
  "dups_disjoint [] \<longleftrightarrow> True"
| "dups_disjoint ((a, b) # tab) \<longleftrightarrow> list_all (\<lambda>(a', b'). b \<le> a' \<or> b' \<le> a) tab \<and> dups_disjoint tab"

definition run_free :: "int \<Rightarrow> int \<Rightarrow> bool" where
  "run_free lo hi \<longleftrightarrow> list_all (\<lambda>(a, b, v). hi \<le> int a \<or> int b \<le> lo) uc_run_table"

definition dup_free :: "int \<Rightarrow> int \<Rightarrow> bool" where
  "dup_free lo hi \<longleftrightarrow> list_all (\<lambda>(a, b). hi \<le> int a + 1 \<or> int b < lo) uc_dup_table"

definition word_free :: "int \<Rightarrow> int \<Rightarrow> bool" where
  "word_free lo hi \<longleftrightarrow> list_all (\<lambda>(a, v). hi \<le> int a \<or> int a < lo) uc_word_table"

lemma run_add_cases:
  "runs_disjoint tab \<Longrightarrow> run_add tab i = 0 \<or> (\<exists>(a, b, v)\<in>set tab. a \<noteq> 0 \<and> a \<le> i \<and> i < b \<and> run_add tab i = v)"
proof (induction tab)
  case (Cons r tab)
  obtain a b v where r: "r = (a, b, v)" by (cases r)
  show ?case
  proof (cases "a \<noteq> 0 \<and> a \<le> i \<and> i < b")
    case True
    then have "\<forall>(a', b', v')\<in>set tab. \<not> (a' \<le> i \<and> i < b')"
      using Cons.prems r by (fastforce simp: list_all_iff)
    then have "run_add tab i = 0" using Cons.IH Cons.prems r by fastforce
    then show ?thesis using True r by auto
  next
    case False
    then show ?thesis using Cons.IH Cons.prems r by (cases "a = 0") auto
  qed
qed simp

lemma dup_sub_cases:
  "dups_disjoint tab \<Longrightarrow> dup_sub tab i = 0 \<or> (\<exists>(a, b)\<in>set tab. a \<noteq> 0 \<and> a < i \<and> i \<le> b \<and> odd (i - a) \<and> dup_sub tab i = 1)"
proof (induction tab)
  case (Cons r tab)
  obtain a b where r: "r = (a, b)" by (cases r)
  show ?case
  proof (cases "a \<noteq> 0 \<and> a < i \<and> i \<le> b \<and> odd (i - a)")
    case True
    then have "\<forall>(a', b')\<in>set tab. \<not> (a' < i \<and> i \<le> b')"
      using Cons.prems r by (fastforce simp: list_all_iff)
    then have "dup_sub tab i = 0" using Cons.IH Cons.prems r by fastforce
    then show ?thesis using True r by auto
  next
    case False
    then show ?thesis using Cons.IH Cons.prems r by (cases "a = 0") auto
  qed
qed simp

lemma word_at_in: "word_at tab i = Some w \<Longrightarrow> (i, w) \<in> set tab \<and> i \<noteq> 0"
  by (induction tab) (auto split: if_splits option.splits)

lemma tables_disjoint: "runs_disjoint uc_run_table" "dups_disjoint uc_dup_table"
  by (simp_all add: uc_run_table_def uc_dup_table_def)

lemma run_targets:
  "list_all (\<lambda>(a, b, v). a = 0 \<or> dup_free (int a) (int b) \<and> 0 < int a + v \<and> int b + v \<le> 0x10000 \<and>
    run_free (int a + v) (int b + v) \<and> dup_free (int a + v) (int b + v) \<and> word_free (int a + v) (int b + v)) uc_run_table"
  by (simp add: uc_run_table_def uc_dup_table_def uc_word_table_def run_free_def dup_free_def
      word_free_def up_val_def)

lemma dup_targets:
  "list_all (\<lambda>(a, b). a = 0 \<or> a = b \<or> run_free (int a) (int b) \<and> word_free (int a) (int b) \<and>
    list_all (\<lambda>(a', b'). (a', b') = (a, b) \<or> b' < a \<or> b \<le> a') uc_dup_table) uc_dup_table"
  by (simp add: uc_run_table_def uc_dup_table_def uc_word_table_def run_free_def dup_free_def
      word_free_def up_val_def)

lemma word_targets:
  "list_all (\<lambda>(a, v). a = 0 \<or> 0 < v \<and> v < 0x10000 \<and> up_val v = int v) uc_word_table"
  by (simp add: uc_run_table_def uc_dup_table_def uc_word_table_def run_free_def dup_free_def
      word_free_def up_val_def)

lemma run_freeD: "run_free lo hi \<Longrightarrow> lo \<le> int i \<Longrightarrow> int i < hi \<Longrightarrow> run_add uc_run_table i = 0"
  using run_add_cases [OF tables_disjoint(1), of i] by (fastforce simp: run_free_def list_all_iff)

lemma dup_freeD: "dup_free lo hi \<Longrightarrow> lo \<le> int i \<Longrightarrow> int i < hi \<Longrightarrow> dup_sub uc_dup_table i = 0"
  using dup_sub_cases [OF tables_disjoint(2), of i] by (fastforce simp: dup_free_def list_all_iff)

lemma word_freeD: "word_free lo hi \<Longrightarrow> lo \<le> int i \<Longrightarrow> int i < hi \<Longrightarrow> word_at uc_word_table i = None"
  using word_at_in [of uc_word_table i] by (cases "word_at uc_word_table i") (fastforce simp: word_free_def list_all_iff)+

lemma up_val_id:
  "run_add uc_run_table i = 0 \<Longrightarrow> dup_sub uc_dup_table i = 0 \<Longrightarrow> word_at uc_word_table i = None \<Longrightarrow> up_val i = int i"
  by (simp add: up_val_def)

lemma up_val_fixed:
  assumes "i < 0x10000"
  shows "\<exists>j. up_val i = int j \<and> j < 0x10000 \<and> up_val j = int j \<and> (j = 0 \<longrightarrow> i = 0)"
proof (cases "word_at uc_word_table i")
  case (Some w)
  then have "(i, w) \<in> set uc_word_table" "i \<noteq> 0" using word_at_in by blast+
  then have "0 < w \<and> w < 0x10000 \<and> up_val w = int w" using word_targets by (fastforce simp: list_all_iff)
  then show ?thesis using Some by (auto simp: up_val_def)
next
  case None
  consider (none) "run_add uc_run_table i = 0" "dup_sub uc_dup_table i = 0"
    | (dup) a b where "run_add uc_run_table i = 0" "(a, b) \<in> set uc_dup_table" "a \<noteq> 0" "a < i" "i \<le> b" "odd (i - a)"
        "dup_sub uc_dup_table i = 1"
    | (run) a b v where "(a, b, v) \<in> set uc_run_table" "a \<noteq> 0" "a \<le> i" "i < b" "run_add uc_run_table i = v"
    using run_add_cases [OF tables_disjoint(1), of i] dup_sub_cases [OF tables_disjoint(2), of i] by blast
  then show ?thesis
  proof cases
    case none
    then show ?thesis using None assms up_val_id by auto
  next
    case dup
    have t: "run_free (int a) (int b)" "word_free (int a) (int b)"
      "\<forall>(a', b')\<in>set uc_dup_table. (a', b') = (a, b) \<or> b' < a \<or> b \<le> a'"
      using dup_targets dup(2-5) by (fastforce simp: list_all_iff)+
    define j where "j = i - 1"
    have j: "int j = int i - 1" "a \<le> j" "j < b" "even (j - a)" using dup(4-6) by (auto simp: j_def)
    have "dup_sub uc_dup_table j = 0"
    proof (rule ccontr)
      assume "dup_sub uc_dup_table j \<noteq> 0"
      then obtain a' b' where "(a', b') \<in> set uc_dup_table" "a' < j" "j \<le> b'" "odd (j - a')"
        using dup_sub_cases [OF tables_disjoint(2), of j] by blast
      then show False using t(3) j by auto
    qed
    then have "up_val j = int j" using run_freeD [OF t(1), of j] word_freeD [OF t(2), of j] j up_val_id by simp
    moreover have "up_val i = int j" using None dup j(1) by (simp add: up_val_def)
    ultimately show ?thesis using j dup(3,4) assms by (intro exI [of _ j]) (auto simp: j_def)
  next
    case run
    have t: "dup_free (int a) (int b)" "0 < int a + v" "int b + v \<le> 0x10000" "run_free (int a + v) (int b + v)"
      "dup_free (int a + v) (int b + v)" "word_free (int a + v) (int b + v)"
      using run_targets run(1,2) by (fastforce simp: list_all_iff)+
    define j where "j = nat (int i + v)"
    have j: "int j = int i + v" using t(2) run(3) by (simp add: j_def)
    have "up_val i = int j"
      using None run dup_freeD [OF t(1), of i] j by (simp add: up_val_def)
    moreover have "up_val j = int j"
      using run_freeD [OF t(4), of j] dup_freeD [OF t(5), of j] word_freeD [OF t(6), of j] j run(3,4) up_val_id by simp
    ultimately show ?thesis using j t(2,3) run(3,4) by (intro exI [of _ j]) auto
  qed
qed

lemma up_val_ascii: "list_all (\<lambda>i. up_val i = int (if 0x61 \<le> i \<and> i \<le> 0x7a then i - 0x20 else i)) [0..<0x80]"
proof -
  have r: "run_free 0 0x61" "run_free 0x7b 0x80" and d: "dup_free 1 0x80" and w: "word_free 1 0x80"
    by (simp_all add: run_free_def dup_free_def word_free_def uc_run_table_def uc_dup_table_def uc_word_table_def)
  have z: "word_at uc_word_table 0 = None" "dup_sub uc_dup_table 0 = 0"
    using word_at_in [of uc_word_table 0] dup_sub_cases [OF tables_disjoint(2), of 0]
    by (cases "word_at uc_word_table 0"; auto)+
  have a: "run_add uc_run_table i = - 32" if "0x61 \<le> i" "i < 0x7b" for i
    using that by (simp add: uc_run_table_def)
  have "up_val i = int (if 0x61 \<le> i \<and> i \<le> 0x7a then i - 0x20 else i)" if "i < 0x80" for i
    using dup_freeD [OF d, of i] word_freeD [OF w, of i] run_freeD [OF r(1), of i] run_freeD [OF r(2), of i] a [of i] z that
    by (cases "i = 0") (auto simp: up_val_def)
  then show ?thesis by (auto simp: list_all_iff simp del: upt_rec_numeral)
qed

text \<open>
  C28. The default upcase table. \<^verbatim>\<open>generate_default_upcase\<close> succeeds whenever it gets memory and
  never leaves the table of 65536 characters. Upcasing with the table is idempotent, maps no
  character other than NUL to NUL, and on ASCII it turns exactly the letters a to z into A to Z.
\<close>

theorem default_upcase_correct:
  "\<exists>uc. generate_default_upcase True = Ok (Some uc) \<and> length uc = 0x10000 \<and>
    list_all (\<lambda>c. uc ! unat (uc ! c) = uc ! c \<and> (uc ! c = 0 \<longleftrightarrow> c = 0)) [0..<0x10000] \<and>
    list_all (\<lambda>c. uc ! c = (if 0x61 \<le> c \<and> c \<le> 0x7a then of_nat (c - 0x20) else of_nat c)) [0..<0x80]"
proof -
  obtain uc where uc: "generate_default_upcase True = Ok (Some uc)" "length uc = 0x10000"
    "\<And>i. i < 0x10000 \<Longrightarrow> uc ! i = of_int (up_val i)" using upcase_table_eq by blast
  have f: "uc ! unat (uc ! c) = uc ! c \<and> (uc ! c = 0 \<longleftrightarrow> c = 0)" if c: "c < 0x10000" for c
  proof -
    obtain j where j: "up_val c = int j" "j < 0x10000" "up_val j = int j" "j = 0 \<longrightarrow> c = 0" using up_val_fixed [OF c] by blast
    then have cj: "uc ! c = of_nat j" "uc ! j = of_nat j" using uc(3) c by simp_all
    have un: "unat (of_nat j :: ntfschar) = j" using j(2) by (simp add: unat_of_nat)
    moreover have "uc ! 0 = 0" using uc(3) [of 0] up_val_ascii by (simp add: list_all_iff del: upt_rec_numeral)
    moreover have "(of_nat j :: ntfschar) = 0 \<Longrightarrow> j = 0" using un by (metis unat_0)
    ultimately show ?thesis using cj j(4) by auto
  qed
  have "uc ! c = (if 0x61 \<le> c \<and> c \<le> 0x7a then of_nat (c - 0x20) else of_nat c)" if "c < 0x80" for c
    using uc(3) [of c] up_val_ascii that by (auto simp: list_all_iff simp del: upt_rec_numeral)
  then show ?thesis using uc(1,2) f by (auto simp: list_all_iff simp del: upt_rec_numeral)
qed

end
