(* ===== verification/Ntfs_Bytes.thy ===== *)
theory Ntfs_Bytes
  imports Ntfs_Prelude
begin

text \<open>
  Little endian fields of a buffer of bytes. A read outside the buffer is \<open>Oob\<close>; the value of a
  field is a natural number, or an integer for the signed 64-bit fields.
\<close>

section \<open>Reading\<close>

fun le_val :: "u8 list \<Rightarrow> nat" where
  "le_val [] = 0"
| "le_val (b # bs) = unat b + 256 * le_val bs"

definition rd_le :: "u8 list \<Rightarrow> nat \<Rightarrow> nat \<Rightarrow> nat result" where
  "rd_le buf i n = bind_result (rd_bytes buf i n) (\<lambda>bs. Ok (le_val bs))"

abbreviation le16_at :: "u8 list \<Rightarrow> nat \<Rightarrow> nat result" where
  "le16_at buf i \<equiv> rd_le buf i 2"

abbreviation le32_at :: "u8 list \<Rightarrow> nat \<Rightarrow> nat result" where
  "le32_at buf i \<equiv> rd_le buf i 4"

abbreviation le64_at :: "u8 list \<Rightarrow> nat \<Rightarrow> nat result" where
  "le64_at buf i \<equiv> rd_le buf i 8"

definition sle64_at :: "u8 list \<Rightarrow> nat \<Rightarrow> int result" where
  "sle64_at buf i = bind_result (le64_at buf i) (\<lambda>v. Ok (s64 (int v)))"

lemma le_val_less: "le_val bs < 256 ^ length bs"
proof (induction bs)
  case (Cons b bs)
  have "unat b < 2 ^ LENGTH(8)" by (rule unsigned_less)
  then have "unat b < 256" by simp
  then have "unat b + 256 * le_val bs < 256 + 256 * le_val bs" by simp
  also have "\<dots> \<le> 256 * 256 ^ length bs" using Cons by (simp add: Suc_le_eq flip: mult_Suc_right)
  finally show ?case by simp
qed simp

lemma rd_le_Ok: "i + n \<le> length buf \<Longrightarrow> rd_le buf i n = Ok (le_val (take n (drop i buf)))"
  by (simp add: rd_le_def rd_bytes_def)

lemma rd_le_less: "rd_le buf i n = Ok v \<Longrightarrow> v < 256 ^ n \<and> i + n \<le> length buf"
  using le_val_less [of "take n (drop i buf)"]
  by (auto simp: rd_le_def rd_bytes_def split: if_splits)

lemma rd_le_cases: "rd_le buf i n = Oob \<and> \<not> i + n \<le> length buf \<or> (\<exists>v. rd_le buf i n = Ok v \<and> i + n \<le> length buf)"
  by (simp add: rd_le_def rd_bytes_def)

section \<open>Writing\<close>

fun le_bytes :: "nat \<Rightarrow> nat \<Rightarrow> u8 list" where
  "le_bytes 0 v = []"
| "le_bytes (Suc n) v = of_nat v # le_bytes n (v div 256)"

definition wr_bytes :: "u8 list \<Rightarrow> nat \<Rightarrow> u8 list \<Rightarrow> u8 list result" where
  "wr_bytes buf i bs = (if i + length bs \<le> length buf then Ok (take i buf @ bs @ drop (i + length bs) buf) else Oob)"

definition wr_le :: "u8 list \<Rightarrow> nat \<Rightarrow> nat \<Rightarrow> nat \<Rightarrow> u8 list result" where
  "wr_le buf i n v = wr_bytes buf i (le_bytes n v)"

lemma length_le_bytes [simp]: "length (le_bytes n v) = n"
  by (induction n arbitrary: v) auto

lemma le_val_le_bytes: "le_val (le_bytes n v) = v mod 256 ^ n"
proof (induction n arbitrary: v)
  case (Suc n)
  have "unat (of_nat v :: u8) = v mod 256" by (simp add: unat_of_nat)
  then show ?case using Suc [of "v div 256"] by (simp add: mod_mult2_eq)
qed simp

lemma rd_le_wr_le:
  "wr_le buf i n v = Ok buf' \<Longrightarrow> rd_le buf' i n = Ok (v mod 256 ^ n)"
  by (auto simp: wr_le_def wr_bytes_def rd_le_def rd_bytes_def le_val_le_bytes split: if_splits)

lemma length_wr_bytes: "wr_bytes buf i bs = Ok buf' \<Longrightarrow> length buf' = length buf"
  by (auto simp: wr_bytes_def split: if_splits)

section \<open>Bytes after a write\<close>

lemma wr_bytes_nth:
  assumes "wr_bytes buf i bs = Ok buf'" and "j < length buf"
  shows "buf' ! j = (if i \<le> j \<and> j < i + length bs then bs ! (j - i) else buf ! j)"
  using assms by (auto simp: wr_bytes_def nth_append min_def split: if_splits)

lemma wr_bytes_Ok: "i + length bs \<le> length buf \<Longrightarrow> \<exists>buf'. wr_bytes buf i bs = Ok buf' \<and> length buf' = length buf"
  by (simp add: wr_bytes_def)

lemma three_writes:
  assumes "wr_bytes m p bs = Ok m1" and "wr_bytes m1 q xs = Ok m2" and "wr_bytes m2 r ys = Ok m3" and "j < length m"
  shows "m3 ! j = (if r \<le> j \<and> j < r + length ys then ys ! (j - r)
    else if q \<le> j \<and> j < q + length xs then xs ! (j - q)
    else if p \<le> j \<and> j < p + length bs then bs ! (j - p) else m ! j)"
proof -
  have "length m1 = length m" "length m2 = length m"
    using length_wr_bytes [OF assms(1)] length_wr_bytes [OF assms(2)] by simp_all
  then show ?thesis
    using wr_bytes_nth [OF assms(3), of j] wr_bytes_nth [OF assms(2), of j] wr_bytes_nth [OF assms(1), of j] assms(4)
    by simp
qed

lemma rd_le_cong:
  assumes "length b' = length b" and "\<And>j. i \<le> j \<Longrightarrow> j < i + n \<Longrightarrow> j < length b \<Longrightarrow> b' ! j = b ! j"
  shows "rd_le b' i n = rd_le b i n"
proof (cases "i + n \<le> length b")
  case True
  then have "take n (drop i b') = take n (drop i b)" using assms by (intro nth_equalityI) auto
  then show ?thesis using assms(1) by (simp add: rd_le_def rd_bytes_def)
qed (use assms(1) in \<open>simp add: rd_le_def rd_bytes_def\<close>)

end
