(* ===== verification/Ntfs_Collate.thy ===== *)
theory Ntfs_Collate
  imports Ntfs_Bytes Ntfs_Unistr
begin

text \<open>
  Collation rules of indexes (\<^verbatim>\<open>ntfs/collate.c\<close>, \<^verbatim>\<open>ntfs/collate.h\<close>) and the contract every
  collation keeps: it is the comparison of a total order, so that a search in sorted entries may
  stop at the first entry that collates behind the key.
\<close>

section \<open>Collation rules\<close>

definition COLLATION_BINARY :: nat where
  "COLLATION_BINARY = 0x00"

definition COLLATION_NTOFS_ULONG :: nat where
  "COLLATION_NTOFS_ULONG = 0x10"

text \<open>
  \<^verbatim>\<open>memcmp\<close> of the kernel: the difference of the first two bytes that differ.
\<close>

fun memcmp :: "u8 list \<Rightarrow> u8 list \<Rightarrow> nat \<Rightarrow> int result" where
  "memcmp d1 d2 0 = Ok 0"
| "memcmp d1 d2 (Suc n) =
     bind_result (rd d1 0) (\<lambda>b1.
     bind_result (rd d2 0) (\<lambda>b2.
       if b1 \<noteq> b2 then Ok (int (unat b1) - int (unat b2)) else memcmp (tl d1) (tl d2) n))"

definition ntfs_collate_binary :: "u8 list \<Rightarrow> nat \<Rightarrow> u8 list \<Rightarrow> nat \<Rightarrow> int result" where
  "ntfs_collate_binary data1 data1_len data2 data2_len =
     bind_result (memcmp data1 data2 (min data1_len data2_len)) (\<lambda>rc.
       if rc = 0 \<and> data1_len \<noteq> data2_len then
         (if data1_len < data2_len then Ok (- 1) else Ok 1)
       else Ok rc)"

definition ntfs_collate_ntofs_ulong :: "u8 list \<Rightarrow> nat \<Rightarrow> u8 list \<Rightarrow> nat \<Rightarrow> int result" where
  "ntfs_collate_ntofs_ulong data1 data1_len data2 data2_len =
     (if data1_len \<noteq> data2_len then Bug
      else if data1_len \<noteq> 4 then Bug
      else bind_result (le32_at data1 0) (\<lambda>d1.
        bind_result (le32_at data2 0) (\<lambda>d2.
          if d1 < d2 then Ok (- 1) else if d1 = d2 then Ok 0 else Ok 1)))"

text \<open>The two tables of collation functions; \<open>None\<close> is a \<^verbatim>\<open>NULL\<close> entry.\<close>

definition ntfs_do_collate0x0 :: "(u8 list \<Rightarrow> nat \<Rightarrow> u8 list \<Rightarrow> nat \<Rightarrow> int result) option list" where
  "ntfs_do_collate0x0 = [Some ntfs_collate_binary, None, None]"

definition ntfs_do_collate0x1 :: "(u8 list \<Rightarrow> nat \<Rightarrow> u8 list \<Rightarrow> nat \<Rightarrow> int result) option list" where
  "ntfs_do_collate0x1 = [Some ntfs_collate_ntofs_ulong, None, None, None]"

definition call_collate ::
  "(u8 list \<Rightarrow> nat \<Rightarrow> u8 list \<Rightarrow> nat \<Rightarrow> int result) option \<Rightarrow> u8 list \<Rightarrow> nat \<Rightarrow> u8 list \<Rightarrow> nat \<Rightarrow> int result" where
  "call_collate f data1 data1_len data2 data2_len =
     (case f of None \<Rightarrow> Oob | Some g \<Rightarrow> g data1 data1_len data2 data2_len)"

definition ntfs_collate :: "nat \<Rightarrow> u8 list \<Rightarrow> nat \<Rightarrow> u8 list \<Rightarrow> nat \<Rightarrow> int result" where
  "ntfs_collate cr data1 data1_len data2 data2_len =
     (if cr \<noteq> COLLATION_BINARY \<and> cr \<noteq> COLLATION_NTOFS_ULONG then Bug
      else if cr \<le> 0x02 then
        bind_result (rd ntfs_do_collate0x0 cr) (\<lambda>f. call_collate f data1 data1_len data2 data2_len)
      else if cr < 0x10 then Bug
      else if cr - 0x10 \<le> 3 then
        bind_result (rd ntfs_do_collate0x1 (cr - 0x10)) (\<lambda>f. call_collate f data1 data1_len data2 data2_len)
      else Bug)"

definition ntfs_is_collation_rule_supported :: "nat \<Rightarrow> bool" where
  "ntfs_is_collation_rule_supported cr =
     (if cr \<noteq> COLLATION_BINARY \<and> cr \<noteq> COLLATION_NTOFS_ULONG then False
      else (0 \<le> cr \<and> cr \<le> 0x02) \<or> (0x10 \<le> cr \<and> cr \<le> 0x13))"

section \<open>The contract of a collation\<close>

locale collation =
  fixes valid :: "'a \<Rightarrow> bool" and cmp :: "'a \<Rightarrow> 'a \<Rightarrow> int"
  assumes cmp_sym: "valid x \<Longrightarrow> valid y \<Longrightarrow> cmp y x = - cmp x y"
    and cmp_trans: "valid x \<Longrightarrow> valid y \<Longrightarrow> valid z \<Longrightarrow> cmp x y < 0 \<Longrightarrow> cmp y z < 0 \<Longrightarrow> cmp x z < 0"
    and cmp_eq: "valid x \<Longrightarrow> valid y \<Longrightarrow> valid z \<Longrightarrow> cmp x y = 0 \<Longrightarrow> cmp x z < 0 \<longleftrightarrow> cmp y z < 0"
begin

lemma cmp_refl: "valid x \<Longrightarrow> cmp x x = 0"
  using cmp_sym [of x x] by simp

lemma cmp_le_trans:
  assumes "valid x" "valid y" "valid z" "cmp x y \<le> 0" "cmp y z < 0"
  shows "cmp x z < 0"
  using assms cmp_trans [of x y z] cmp_eq [of x y z] by (cases "cmp x y = 0") auto

text \<open>In sorted entries nothing matches behind the first entry that collates behind the key.\<close>

lemma stop_here:
  assumes "sorted_wrt (\<lambda>x y. cmp x y < 0) (e # es)" and "valid k" "list_all valid (e # es)" and "cmp k e \<le> 0"
  shows "\<forall>x\<in>set es. cmp k x < 0"
  using assms by (auto simp: list_all_iff intro: cmp_le_trans)

text \<open>A key matches at most one of the sorted entries.\<close>

lemma match_unique:
  assumes "sorted_wrt (\<lambda>x y. cmp x y < 0) es" and "valid k" "list_all valid es"
    and "i < length es" "j < length es" "cmp k (es ! i) = 0" "cmp k (es ! j) = 0"
  shows "i = j"
proof (rule ccontr)
  assume "i \<noteq> j"
  then consider "i < j" | "j < i" by linarith
  then show False
  proof cases
    case 1
    then have "cmp (es ! i) (es ! j) < 0" using assms by (auto simp: sorted_wrt_iff_nth_less)
    then show False using cmp_le_trans [of k "es ! i" "es ! j"] assms by (auto simp: list_all_length)
  next
    case 2
    then have "cmp (es ! j) (es ! i) < 0" using assms by (auto simp: sorted_wrt_iff_nth_less)
    then show False using cmp_le_trans [of k "es ! j" "es ! i"] assms by (auto simp: list_all_length)
  qed
qed

end

section \<open>The collations of the driver keep the contract\<close>

text \<open>The value of a comparison that returned.\<close>

definition ok_val :: "int result \<Rightarrow> int" where
  "ok_val r = (case r of Ok v \<Rightarrow> v | _ \<Rightarrow> 0)"

text \<open>The specification of the binary collation.\<close>

fun bytecmp :: "u8 list \<Rightarrow> u8 list \<Rightarrow> int" where
  "bytecmp [] [] = 0"
| "bytecmp [] (y # ys) = - 1"
| "bytecmp (x # xs) [] = 1"
| "bytecmp (x # xs) (y # ys) = (if x \<noteq> y then int (unat x) - int (unat y) else bytecmp xs ys)"

lemma memcmp_Ok: "n \<le> length xs \<Longrightarrow> n \<le> length ys \<Longrightarrow> \<exists>r. memcmp xs ys n = Ok r"
proof (induction n arbitrary: xs ys)
  case (Suc n)
  then obtain b1 r1 b2 r2 where "xs = b1 # r1" "ys = b2 # r2" by (auto simp: Suc_le_length_iff)
  then show ?case using Suc by auto
qed simp

lemma collate_binary_eq: "ntfs_collate_binary xs (length xs) ys (length ys) = Ok (bytecmp xs ys)"
proof (induction xs ys rule: bytecmp.induct)
  case (4 x xs y ys)
  obtain r where r: "memcmp xs ys (min (length xs) (length ys)) = Ok r" using memcmp_Ok [of _ xs ys] by fastforce
  show ?case
  proof (cases "x = y")
    case True
    then show ?thesis using 4 r by (auto simp: ntfs_collate_binary_def split: if_splits)
  next
    case False
    then have "int (unat x) - int (unat y) \<noteq> 0" by (simp add: word_uint_eq_iff)
    then show ?thesis using False by (simp add: ntfs_collate_binary_def)
  qed
qed (simp_all add: ntfs_collate_binary_def)

lemma lexcmp_sym: "lexcmp ys xs = - lexcmp xs ys"
  by (induction xs ys rule: lexcmp.induct) auto

lemma lexcmp_0: "lexcmp xs ys = 0 \<longleftrightarrow> xs = ys"
  by (induction xs ys rule: lexcmp.induct) auto

lemma lexcmp_trans: "lexcmp xs ys < 0 \<Longrightarrow> lexcmp ys zs < 0 \<Longrightarrow> lexcmp xs zs < 0"
proof (induction xs ys arbitrary: zs rule: lexcmp.induct)
  case (2 y ys)
  then show ?case by (cases zs) auto
next
  case (4 x xs y ys)
  then show ?case by (cases zs) (auto split: if_splits)
qed auto

lemma bytecmp_lexcmp: "bytecmp xs ys < 0 \<longleftrightarrow> lexcmp xs ys < 0" "bytecmp xs ys = 0 \<longleftrightarrow> lexcmp xs ys = 0"
  by (induction xs ys rule: bytecmp.induct) (auto simp: word_less_alt word_uint_eq_iff)

lemma bytecmp_sym: "bytecmp ys xs = - bytecmp xs ys"
  by (induction xs ys rule: bytecmp.induct) auto

definition binary_cmp :: "u8 list \<Rightarrow> u8 list \<Rightarrow> int" where
  "binary_cmp x y = ok_val (ntfs_collate COLLATION_BINARY x (length x) y (length y))"

definition ulong_cmp :: "u8 list \<Rightarrow> u8 list \<Rightarrow> int" where
  "ulong_cmp x y = ok_val (ntfs_collate COLLATION_NTOFS_ULONG x (length x) y (length y))"

definition names_cmp :: "IGNORE_CASE_BOOL \<Rightarrow> ntfschar list \<Rightarrow> ntfschar list \<Rightarrow> ntfschar list \<Rightarrow> int" where
  "names_cmp ic upcase x y = ok_val (ntfs_collate_names x (length x) y (length y) 1 ic upcase (length upcase))"

lemma collate_binary: "ntfs_collate COLLATION_BINARY x (length x) y (length y) = Ok (bytecmp x y)"
  by (simp add: ntfs_collate_def COLLATION_BINARY_def ntfs_do_collate0x0_def call_collate_def collate_binary_eq)

lemma collate_ulong:
  assumes "length x = 4" and "length y = 4"
  shows "ntfs_collate COLLATION_NTOFS_ULONG x 4 y 4 =
    Ok (if le_val x < le_val y then - 1 else if le_val x = le_val y then 0 else 1)"
  using assms by (simp add: ntfs_collate_def COLLATION_NTOFS_ULONG_def COLLATION_BINARY_def ntfs_do_collate0x1_def
      call_collate_def ntfs_collate_ntofs_ulong_def rd_le_Ok)

interpretation binary: collation "\<lambda>x. True" binary_cmp
proof
  fix x y z :: "u8 list"
  show "binary_cmp y x = - binary_cmp x y"
    using bytecmp_sym [of y x] by (simp add: binary_cmp_def collate_binary ok_val_def)
  show "binary_cmp x z < 0" if "binary_cmp x y < 0" "binary_cmp y z < 0"
    using that lexcmp_trans [of x y z] by (simp add: binary_cmp_def collate_binary ok_val_def bytecmp_lexcmp)
  show "binary_cmp x z < 0 \<longleftrightarrow> binary_cmp y z < 0" if "binary_cmp x y = 0"
    using that by (simp add: binary_cmp_def collate_binary ok_val_def bytecmp_lexcmp lexcmp_0)
qed

interpretation ulong: collation "\<lambda>x. length x = 4" ulong_cmp
  by unfold_locales (auto simp: ulong_cmp_def collate_ulong ok_val_def split: if_splits)

lemma names_cmp_eq:
  "legal_name ic upcase (length upcase) x \<Longrightarrow>
   names_cmp ic upcase x y = lexcmp (folded ic upcase (length upcase) x) (folded ic upcase (length upcase) y)"
  using collate_names_lexcmp [of "length upcase" upcase "length x" x "length y" y ic 1]
  by (simp add: names_cmp_def ok_val_def)

interpretation names: collation "legal_name ic upcase (length upcase)" "names_cmp ic upcase" for ic upcase
proof
  fix x y z :: "ntfschar list"
  let ?v = "legal_name ic upcase (length upcase)"
  show "names_cmp ic upcase y x = - names_cmp ic upcase x y" if "?v x" "?v y"
    using that lexcmp_sym by (simp add: names_cmp_eq)
  show "names_cmp ic upcase x z < 0" if "?v x" "?v y" "?v z" "names_cmp ic upcase x y < 0" "names_cmp ic upcase y z < 0"
    using that lexcmp_trans by (simp add: names_cmp_eq) blast
  show "names_cmp ic upcase x z < 0 \<longleftrightarrow> names_cmp ic upcase y z < 0"
    if "?v x" "?v y" "?v z" "names_cmp ic upcase x y = 0"
    using that by (simp add: names_cmp_eq lexcmp_0)
qed

text \<open>
  C29. Names collate in a total order. On names without invalid characters the collation that
  directories are sorted by is antisymmetric and transitive in both modes, and two names collate
  as equal exactly if they agree up to the case that is ignored.
\<close>

theorem names_total_order:
  assumes "legal_name ic upcase (length upcase) x" and "legal_name ic upcase (length upcase) y"
    and "legal_name ic upcase (length upcase) z"
  shows "names_cmp ic upcase y x = - names_cmp ic upcase x y \<and>
    (names_cmp ic upcase x y \<le> 0 \<and> names_cmp ic upcase y z < 0 \<longrightarrow> names_cmp ic upcase x z < 0) \<and>
    (names_cmp ic upcase x y = 0 \<longleftrightarrow> folded ic upcase (length upcase) x = folded ic upcase (length upcase) y)"
proof (intro conjI impI)
  show "names_cmp ic upcase y x = - names_cmp ic upcase x y" by (rule names.cmp_sym [OF assms(1,2)])
  show "names_cmp ic upcase x z < 0" if "names_cmp ic upcase x y \<le> 0 \<and> names_cmp ic upcase y z < 0"
    using names.cmp_le_trans [OF assms] that by blast
  show "names_cmp ic upcase x y = 0 \<longleftrightarrow> folded ic upcase (length upcase) x = folded ic upcase (length upcase) y"
    unfolding names_cmp_eq [OF assms(1)] by (rule lexcmp_0)
qed

theorem names_total_order_witness:
  "names_cmp IGNORE_CASE upcase_example [0x61] [0x62] < 0 \<and>
   names_cmp IGNORE_CASE upcase_example [0x62] [0x61] = - names_cmp IGNORE_CASE upcase_example [0x61] [0x62]"
proof -
  have l: "length upcase_example = 128" by (simp add: upcase_example_def)
  have v: "legal_name IGNORE_CASE upcase_example 128 [0x61]" "legal_name IGNORE_CASE upcase_example 128 [0x62]"
    by code_simp+
  have "lexcmp (folded IGNORE_CASE upcase_example 128 [0x61]) (folded IGNORE_CASE upcase_example 128 [0x62]) = - 1"
    by code_simp
  then have "names_cmp IGNORE_CASE upcase_example [0x61] [0x62] = - 1"
    using names_cmp_eq [of IGNORE_CASE upcase_example "[0x61]" "[0x62]", unfolded l, OF v(1)] by (simp only:)
  then show ?thesis
    using conjunct1 [OF names_total_order [of IGNORE_CASE upcase_example "[0x61]" "[0x62]" "[0x62]", unfolded l, OF v v(2)]]
    by simp
qed

end
