(* ===== verification/Ntfs_Time.thy ===== *)
theory Ntfs_Time
  imports Ntfs_Prelude
begin

text \<open>
  Conversion between NTFS time, 100 ns intervals since 1601, and the seconds and nanoseconds since
  1970 of the kernel (\<^verbatim>\<open>ntfs/time.h\<close>).
\<close>

section \<open>Conversions\<close>

record timespec =
  tv_sec :: int
  tv_nsec :: int

definition NTFS_TIME_OFFSET :: int where
  "NTFS_TIME_OFFSET = (369 * 365 + 89) * 24 * 3600 * 10000000"

text \<open>Division of C truncates towards zero.\<close>

definition c_div :: "int \<Rightarrow> int \<Rightarrow> int" where
  "c_div a b = sgn a * sgn b * (\<bar>a\<bar> div \<bar>b\<bar>)"

definition utc2ntfs :: "timespec \<Rightarrow> int" where
  "utc2ntfs ts = s64 (s64 (s64 (tv_sec ts * 10000000) + c_div (tv_nsec ts) 100) + NTFS_TIME_OFFSET)"

text \<open>The clock of the kernel is a parameter.\<close>

definition get_current_ntfs_time :: "timespec \<Rightarrow> int" where
  "get_current_ntfs_time current_kernel_time = utc2ntfs current_kernel_time"

text \<open>\<^verbatim>\<open>do_div\<close> divides an unsigned 64-bit number in place and returns the remainder.\<close>

definition do_div :: "int \<Rightarrow> int \<Rightarrow> int \<times> int" where
  "do_div t n = (t div n, t mod n)"

definition ntfs2utc :: "int \<Rightarrow> timespec" where
  "ntfs2utc time =
     (let t = s64 (time - NTFS_TIME_OFFSET) mod 18446744073709551616;
          (t', r) = do_div t 10000000
      in \<lparr>tv_sec = s64 t', tv_nsec = r * 100\<rparr>)"

section \<open>Round trips\<close>

lemma time_offset: "NTFS_TIME_OFFSET = 116444736000000000"
  by (simp add: NTFS_TIME_OFFSET_def)

text \<open>
  C30. Times from 1970 on survive the conversion. An NTFS time that is not before 1970 is converted
  to a valid kernel time and back to itself; a kernel time, as long as NTFS can represent it, comes
  back with its nanoseconds rounded down to a multiple of 100.
\<close>

theorem time_roundtrip:
  assumes "NTFS_TIME_OFFSET \<le> t" and "t < 9223372036854775808"
    and "0 \<le> tv_sec ts" and "tv_sec ts < 910692730085" and "0 \<le> tv_nsec ts" and "tv_nsec ts < 1000000000"
  shows "utc2ntfs (ntfs2utc t) = t \<and> 0 \<le> tv_nsec (ntfs2utc t) \<and> tv_nsec (ntfs2utc t) < 1000000000 \<and>
    ntfs2utc (utc2ntfs ts) = ts\<lparr>tv_nsec := tv_nsec ts div 100 * 100\<rparr>"
proof -
  define d where "d = t - 116444736000000000"
  have d: "0 \<le> d" "d < 9223372036854775808" "t = d + 116444736000000000" using assms by (auto simp: d_def time_offset)
  have n: "ntfs2utc t = \<lparr>tv_sec = d div 10000000, tv_nsec = d mod 10000000 * 100\<rparr>"
    using d by (simp add: ntfs2utc_def do_div_def time_offset s64_id mod_pos_pos_trivial)
  have c: "c_div (d mod 10000000 * 100) 100 = d mod 10000000" by (auto simp: c_div_def sgn_if)
  have "0 \<le> d div 10000000 * 10000000" "d div 10000000 * 10000000 \<le> d"
    using d(1) by (simp add: pos_imp_zdiv_nonneg_iff, metis div_mult_mod_eq le_add_same_cancel1 pos_mod_sign zero_less_numeral)
  then have m: "s64 (d div 10000000 * 10000000) = d div 10000000 * 10000000" using d(2) by (intro s64_id) linarith+
  have 1: "utc2ntfs (ntfs2utc t) = t"
    unfolding n utc2ntfs_def timespec.simps c m using d assms(2) by (simp add: time_offset s64_id)
  define s k where "s = tv_sec ts" and "k = tv_nsec ts div 100"
  have s: "0 \<le> s" "s < 910692730085" "0 \<le> k" "k < 10000000" "c_div (tv_nsec ts) 100 = k"
    using assms(3-6) by (auto simp: s_def k_def c_div_def sgn_if)
  have "utc2ntfs ts = s * 10000000 + k + 116444736000000000"
    using s by (simp add: utc2ntfs_def time_offset s64_id flip: s_def)
  then have "ntfs2utc (utc2ntfs ts) = \<lparr>tv_sec = s, tv_nsec = k * 100\<rparr>"
    using s by (simp add: ntfs2utc_def do_div_def time_offset s64_id mod_pos_pos_trivial)
  then have "ntfs2utc (utc2ntfs ts) = ts\<lparr>tv_nsec := tv_nsec ts div 100 * 100\<rparr>" by (cases ts) (simp add: s_def k_def)
  with 1 show ?thesis by (simp add: n)
qed

theorem time_roundtrip_witness:
  "utc2ntfs (ntfs2utc 130000000000000001) = 130000000000000001 \<and>
   ntfs2utc (utc2ntfs \<lparr>tv_sec = 1, tv_nsec = 150\<rparr>) = \<lparr>tv_sec = 1, tv_nsec = 100\<rparr>"
  using time_roundtrip [of 130000000000000001 "\<lparr>tv_sec = 1, tv_nsec = 150\<rparr>"] by (simp add: time_offset)

text \<open>
  Times before 1970 are converted wrongly. The difference to 1970 is divided as an unsigned
  number, so that a file dated one second before 1970 gets a time in the far future.
\<close>

lemma time_before_1970:
  "tv_sec (ntfs2utc (utc2ntfs \<lparr>tv_sec = - 1, tv_nsec = 0\<rparr>)) = 1844674407369"
  by (simp add: ntfs2utc_def utc2ntfs_def do_div_def c_div_def time_offset s64_def)

end
