(* ===== verification/Ntfs_Layout.thy ===== *)
theory Ntfs_Layout
  imports Ntfs_Bytes Ntfs_Unistr
begin

text \<open>
  The on-disk structures of \<^verbatim>\<open>ntfs/layout.h\<close> as views on a buffer of bytes: for each field the
  position and width it has in the packed structure. A pointer to a structure is the offset of its
  first byte in the buffer.
\<close>

section \<open>MFT references and record types\<close>

definition MREF :: "nat \<Rightarrow> nat" where
  "MREF x = x mod 2 ^ 48"

definition MSEQNO :: "nat \<Rightarrow> nat" where
  "MSEQNO x = (x div 2 ^ 48) mod 2 ^ 16"

definition MK_MREF :: "nat \<Rightarrow> nat \<Rightarrow> nat" where
  "MK_MREF m s = (s mod 2 ^ 16) * 2 ^ 48 + m mod 2 ^ 48"

definition magic_FILE :: nat where
  "magic_FILE = 0x454c4946"

definition magic_INDX :: nat where
  "magic_INDX = 0x58444e49"

definition AT_ATTRIBUTE_LIST :: nat where
  "AT_ATTRIBUTE_LIST = 0x20"

definition AT_DATA :: nat where
  "AT_DATA = 0x80"

definition AT_INDEX_ROOT :: nat where
  "AT_INDEX_ROOT = 0x90"

definition AT_INDEX_ALLOCATION :: nat where
  "AT_INDEX_ALLOCATION = 0xa0"

definition AT_END :: nat where
  "AT_END = 0xffffffff"

section \<open>The mft record header\<close>

definition m_sequence_number :: "u8 list \<Rightarrow> nat result" where
  "m_sequence_number m = le16_at m 16"

definition m_link_count :: "u8 list \<Rightarrow> nat result" where
  "m_link_count m = le16_at m 18"

definition m_attrs_offset :: "u8 list \<Rightarrow> nat result" where
  "m_attrs_offset m = le16_at m 20"

definition m_flags :: "u8 list \<Rightarrow> nat result" where
  "m_flags m = le16_at m 22"

definition m_bytes_in_use :: "u8 list \<Rightarrow> nat result" where
  "m_bytes_in_use m = le32_at m 24"

definition m_bytes_allocated :: "u8 list \<Rightarrow> nat result" where
  "m_bytes_allocated m = le32_at m 28"

definition m_base_mft_record :: "u8 list \<Rightarrow> nat result" where
  "m_base_mft_record m = le64_at m 32"

definition m_next_attr_instance :: "u8 list \<Rightarrow> nat result" where
  "m_next_attr_instance m = le16_at m 40"

section \<open>Attribute records\<close>

definition a_type :: "u8 list \<Rightarrow> nat \<Rightarrow> nat result" where
  "a_type m a = le32_at m a"

definition a_length :: "u8 list \<Rightarrow> nat \<Rightarrow> nat result" where
  "a_length m a = le32_at m (a + 4)"

definition a_non_resident :: "u8 list \<Rightarrow> nat \<Rightarrow> u8 result" where
  "a_non_resident m a = rd m (a + 8)"

definition a_name_length :: "u8 list \<Rightarrow> nat \<Rightarrow> u8 result" where
  "a_name_length m a = rd m (a + 9)"

definition a_name_offset :: "u8 list \<Rightarrow> nat \<Rightarrow> nat result" where
  "a_name_offset m a = le16_at m (a + 10)"

definition a_instance :: "u8 list \<Rightarrow> nat \<Rightarrow> nat result" where
  "a_instance m a = le16_at m (a + 14)"

definition a_value_length :: "u8 list \<Rightarrow> nat \<Rightarrow> nat result" where
  "a_value_length m a = le32_at m (a + 16)"

definition a_value_offset :: "u8 list \<Rightarrow> nat \<Rightarrow> nat result" where
  "a_value_offset m a = le16_at m (a + 20)"

definition a_lowest_vcn :: "u8 list \<Rightarrow> nat \<Rightarrow> int result" where
  "a_lowest_vcn m a = sle64_at m (a + 16)"

definition a_highest_vcn :: "u8 list \<Rightarrow> nat \<Rightarrow> int result" where
  "a_highest_vcn m a = sle64_at m (a + 24)"

definition a_mapping_pairs_offset :: "u8 list \<Rightarrow> nat \<Rightarrow> nat result" where
  "a_mapping_pairs_offset m a = le16_at m (a + 32)"

definition a_allocated_size :: "u8 list \<Rightarrow> nat \<Rightarrow> int result" where
  "a_allocated_size m a = sle64_at m (a + 40)"

section \<open>Attribute list entries\<close>

definition al_type :: "u8 list \<Rightarrow> nat \<Rightarrow> nat result" where
  "al_type l e = le32_at l e"

definition al_length :: "u8 list \<Rightarrow> nat \<Rightarrow> nat result" where
  "al_length l e = le16_at l (e + 4)"

definition al_name_length :: "u8 list \<Rightarrow> nat \<Rightarrow> u8 result" where
  "al_name_length l e = rd l (e + 6)"

definition al_name_offset :: "u8 list \<Rightarrow> nat \<Rightarrow> u8 result" where
  "al_name_offset l e = rd l (e + 7)"

definition al_lowest_vcn :: "u8 list \<Rightarrow> nat \<Rightarrow> int result" where
  "al_lowest_vcn l e = sle64_at l (e + 8)"

definition al_mft_reference :: "u8 list \<Rightarrow> nat \<Rightarrow> nat result" where
  "al_mft_reference l e = le64_at l (e + 16)"

definition al_instance :: "u8 list \<Rightarrow> nat \<Rightarrow> nat result" where
  "al_instance l e = le16_at l (e + 24)"

section \<open>Indexes\<close>

definition ih_entries_offset :: "u8 list \<Rightarrow> nat \<Rightarrow> nat result" where
  "ih_entries_offset b h = le32_at b h"

definition ih_index_length :: "u8 list \<Rightarrow> nat \<Rightarrow> nat result" where
  "ih_index_length b h = le32_at b (h + 4)"

definition ih_allocated_size :: "u8 list \<Rightarrow> nat \<Rightarrow> nat result" where
  "ih_allocated_size b h = le32_at b (h + 8)"

definition ih_flags :: "u8 list \<Rightarrow> nat \<Rightarrow> u8 result" where
  "ih_flags b h = rd b (h + 12)"

text \<open>The index header inside an index root and inside an index block.\<close>

definition ir_index :: "nat \<Rightarrow> nat" where
  "ir_index ir = ir + 16"

definition ia_index :: "nat \<Rightarrow> nat" where
  "ia_index ia = ia + 24"

definition ia_magic :: "u8 list \<Rightarrow> nat \<Rightarrow> nat result" where
  "ia_magic b ia = le32_at b ia"

definition ia_index_block_vcn :: "u8 list \<Rightarrow> nat \<Rightarrow> int result" where
  "ia_index_block_vcn b ia = sle64_at b (ia + 16)"

definition ie_indexed_file :: "u8 list \<Rightarrow> nat \<Rightarrow> nat result" where
  "ie_indexed_file b e = le64_at b e"

definition ie_data_offset :: "u8 list \<Rightarrow> nat \<Rightarrow> nat result" where
  "ie_data_offset b e = le16_at b e"

definition ie_data_length :: "u8 list \<Rightarrow> nat \<Rightarrow> nat result" where
  "ie_data_length b e = le16_at b (e + 2)"

definition ie_length :: "u8 list \<Rightarrow> nat \<Rightarrow> nat result" where
  "ie_length b e = le16_at b (e + 8)"

definition ie_key_length :: "u8 list \<Rightarrow> nat \<Rightarrow> nat result" where
  "ie_key_length b e = le16_at b (e + 10)"

definition ie_flags :: "u8 list \<Rightarrow> nat \<Rightarrow> nat result" where
  "ie_flags b e = le16_at b (e + 12)"

definition ie_key :: "nat \<Rightarrow> nat" where
  "ie_key e = e + 16"

abbreviation SIZEOF_INDEX_ENTRY_HEADER :: nat where
  "SIZEOF_INDEX_ENTRY_HEADER \<equiv> 16"

text \<open>The two flags of an index entry.\<close>

definition INDEX_ENTRY_NODE :: "nat \<Rightarrow> bool" where
  "INDEX_ENTRY_NODE flags \<longleftrightarrow> odd flags"

definition INDEX_ENTRY_END :: "nat \<Rightarrow> bool" where
  "INDEX_ENTRY_END flags \<longleftrightarrow> odd (flags div 2)"

text \<open>\<^verbatim>\<open>(flags & NODE_MASK) == LEAF_NODE\<close>\<close>

definition is_leaf_node :: "u8 \<Rightarrow> bool" where
  "is_leaf_node flags \<longleftrightarrow> flags AND 1 = 0"

section \<open>File names\<close>

definition fn_file_name_length :: "u8 list \<Rightarrow> nat \<Rightarrow> u8 result" where
  "fn_file_name_length b f = rd b (f + 0x40)"

definition fn_file_name_type :: "u8 list \<Rightarrow> nat \<Rightarrow> u8 result" where
  "fn_file_name_type b f = rd b (f + 0x41)"

definition fn_file_name :: "nat \<Rightarrow> nat" where
  "fn_file_name f = f + 0x42"

definition FILE_NAME_DOS :: u8 where
  "FILE_NAME_DOS = 2"

text \<open>The characters that can be read from a position of the buffer on.\<close>

fun u16s :: "u8 list \<Rightarrow> ntfschar list" where
  "u16s (a # b # rest) = of_nat (le_val [a, b]) # u16s rest"
| "u16s bs = []"

definition chars_at :: "u8 list \<Rightarrow> nat \<Rightarrow> ntfschar list" where
  "chars_at b i = u16s (drop i b)"

lemma length_u16s: "length (u16s bs) = length bs div 2"
  by (induction bs rule: u16s.induct) auto

lemma take_u16s: "take n (u16s bs) = u16s (take (2 * n) bs)"
proof (induction bs arbitrary: n rule: u16s.induct)
  case (1 a b rest)
  then show ?case by (cases n) auto
qed (auto simp: take_Cons')

lemmas field_defs =
  m_sequence_number_def m_link_count_def m_attrs_offset_def m_bytes_in_use_def m_bytes_allocated_def m_base_mft_record_def
  m_next_attr_instance_def m_flags_def a_type_def
  a_length_def a_non_resident_def a_name_length_def a_name_offset_def a_instance_def a_value_length_def
  a_value_offset_def a_lowest_vcn_def a_highest_vcn_def a_mapping_pairs_offset_def a_allocated_size_def
  al_type_def al_length_def al_name_length_def al_name_offset_def al_lowest_vcn_def al_mft_reference_def
  al_instance_def ih_entries_offset_def ih_index_length_def ih_allocated_size_def ih_flags_def
  ir_index_def ia_index_def ia_magic_def ia_index_block_vcn_def ie_indexed_file_def ie_data_offset_def
  ie_data_length_def ie_length_def ie_key_length_def ie_flags_def ie_key_def
  fn_file_name_length_def fn_file_name_type_def fn_file_name_def

end
