(* ===== verification/Ntfs_Attr_Resize.thy ===== *)
theory Ntfs_Attr_Resize
  imports Ntfs_Layout Ntfs_Volume
begin

text \<open>
  Attribute definitions and resizing of attribute records (\<^verbatim>\<open>ntfs/attrib.c\<close>): the checks against
  the attribute definition table, and changing the size of an attribute record or of a resident
  value inside an mft record. Unsigned 32-bit arithmetic wraps where the code's does.
\<close>

section \<open>The attribute definition table\<close>

fun attrdef_loop :: "attr_def list \<Rightarrow> nat \<Rightarrow> attr_def option" where
  "attrdef_loop [] type = None"
| "attrdef_loop (ad # rest) type =
     (if ad_type ad = 0 then None
      else if ad_type ad < type then attrdef_loop rest type
      else if ad_type ad = type then Some ad
      else None)"

definition ntfs_attr_find_in_attrdef :: "ntfs_volume \<Rightarrow> nat \<Rightarrow> attr_def option result" where
  "ntfs_attr_find_in_attrdef vol type = (if type = 0 then Bug else Ok (attrdef_loop (attrdef vol) type))"

text \<open>\<open>Ok ()\<close> is the return value 0.\<close>

definition ntfs_attr_size_bounds_check :: "ntfs_volume \<Rightarrow> nat \<Rightarrow> int \<Rightarrow> unit result" where
  "ntfs_attr_size_bounds_check vol type sz =
     (if sz < 0 then Bug
      else if type = AT_ATTRIBUTE_LIST \<and> sz > 256 * 1024 then Error ERANGE
      else bind_result (ntfs_attr_find_in_attrdef vol type) (\<lambda>ado.
        case ado of
          None \<Rightarrow> Error ENOENT
        | Some ad \<Rightarrow>
            if (ad_min_size ad > 0 \<and> sz < ad_min_size ad) \<or> (ad_max_size ad > 0 \<and> sz > ad_max_size ad)
            then Error ERANGE else Ok ()))"

definition ATTR_DEF_RESIDENT :: "nat \<Rightarrow> bool" where
  "ATTR_DEF_RESIDENT flags \<longleftrightarrow> odd (flags div 0x40)"

definition ntfs_attr_can_be_non_resident :: "ntfs_volume \<Rightarrow> nat \<Rightarrow> unit result" where
  "ntfs_attr_can_be_non_resident vol type =
     bind_result (ntfs_attr_find_in_attrdef vol type) (\<lambda>ado.
       case ado of
         None \<Rightarrow> Error ENOENT
       | Some ad \<Rightarrow> if ATTR_DEF_RESIDENT (ad_flags ad) then Error EPERM else Ok ())"

definition ntfs_attr_can_be_resident :: "ntfs_volume \<Rightarrow> nat \<Rightarrow> unit result" where
  "ntfs_attr_can_be_resident vol type = (if type = AT_INDEX_ALLOCATION then Error EPERM else Ok ())"

section \<open>Resizing\<close>

definition memmove :: "u8 list \<Rightarrow> nat \<Rightarrow> nat \<Rightarrow> nat \<Rightarrow> u8 list result" where
  "memmove m dst src n = bind_result (rd_bytes m src n) (wr_bytes m dst)"

definition u32 :: "int \<Rightarrow> nat" where
  "u32 x = nat (x mod 4294967296)"

text \<open>\<open>a\<close> is the offset of the attribute record in the mft record \<open>m\<close>.\<close>

definition ntfs_attr_record_resize :: "u8 list \<Rightarrow> nat \<Rightarrow> nat \<Rightarrow> u8 list result" where
  "ntfs_attr_record_resize m a new_size =
     (let new_size = if new_size mod 8 \<noteq> 0 then u32 (int new_size + 7) div 8 * 8 else new_size in
      bind_result (a_length m a) (\<lambda>len.
      if new_size \<noteq> len then
        bind_result (m_bytes_in_use m) (\<lambda>biu.
        bind_result (m_bytes_allocated m) (\<lambda>ballocated.
        let new_muse = u32 (int biu - int len + int new_size) in
        if new_muse > ballocated then Error ENOSPC
        else if biu < a + len then Oob
        else
          bind_result (memmove m (a + new_size) (a + len) (biu - a - len)) (\<lambda>m.
          bind_result (wr_le m 24 4 new_muse) (\<lambda>m.
            if new_size \<ge> 8 then wr_le m (a + 4) 4 new_size else Ok m))))
      else Ok m))"

definition ntfs_resident_attr_value_resize :: "u8 list \<Rightarrow> nat \<Rightarrow> nat \<Rightarrow> u8 list result" where
  "ntfs_resident_attr_value_resize m a new_size =
     bind_result (a_value_offset m a) (\<lambda>voff.
     bind_result
       (case ntfs_attr_record_resize m a (u32 (int voff + int new_size)) of
          Error _ \<Rightarrow> Error ENOSPC | r \<Rightarrow> r) (\<lambda>m.
     bind_result (a_value_length m a) (\<lambda>old_size.
     bind_result
       (if new_size > old_size then
          bind_result (a_value_offset m a) (\<lambda>voff.
            wr_bytes m (a + voff + old_size) (replicate (new_size - old_size) 0))
        else Ok m) (\<lambda>m.
       wr_le m (a + 16) 4 new_size))))"

section \<open>Resizing an attribute record\<close>

text \<open>
  The layout a resize relies on: the record lies behind the mft record header and inside the part
  in use, which lies inside the allocated part and the buffer.
\<close>

definition attr_in_record :: "u8 list \<Rightarrow> nat \<Rightarrow> nat \<Rightarrow> nat \<Rightarrow> nat \<Rightarrow> bool" where
  "attr_in_record m a len biu ballocated \<longleftrightarrow>
     a_length m a = Ok len \<and> m_bytes_in_use m = Ok biu \<and> m_bytes_allocated m = Ok ballocated \<and>
     48 \<le> a \<and> 8 \<le> len \<and> a + len \<le> biu \<and> biu \<le> ballocated \<and> ballocated \<le> length m \<and>
     length m < 2147483648"

lemma attr_in_recordD:
  assumes "attr_in_record m a len biu ballocated"
  shows "a_length m a = Ok len" and "m_bytes_in_use m = Ok biu" and "m_bytes_allocated m = Ok ballocated"
    and "48 \<le> a" and "8 \<le> len" and "a + len \<le> biu" and "biu \<le> ballocated" and "ballocated \<le> length m"
    and "length m < 2147483648"
  using assms by (simp_all add: attr_in_record_def)

definition align8 :: "nat \<Rightarrow> nat" where
  "align8 n = (n + 7) div 8 * 8"

lemma align8_bounds: "n \<le> align8 n" "align8 n < n + 8" "n mod 8 = 0 \<Longrightarrow> align8 n = n"
  unfolding align8_def by presburger+

lemma resize_aligned:
  "n < 2147483640 \<Longrightarrow> (if n mod 8 \<noteq> 0 then u32 (int n + 7) div 8 * 8 else n) = align8 n"
proof -
  assume n: "n < 2147483640"
  then have "u32 (int n + 7) = n + 7" by (simp add: u32_def nat_add_distrib)
  then show ?thesis using align8_bounds(3) [of n] by (simp add: align8_def)
qed

lemma u32_int: "x < 4294967296 \<Longrightarrow> u32 (int x) = x"
  by (simp add: u32_def)

lemma resize_u32:
  assumes "attr_in_record m a len biu ballocated" and "ns < 2147483648"
  shows "u32 (int biu - int len + int ns) = biu - len + ns"
proof -
  have "len \<le> biu" "biu < 2147483648" using assms(1) by (auto simp: attr_in_record_def)
  then have e: "int biu - int len + int ns = int (biu - len + ns)" and l: "biu - len + ns < 4294967296"
    using assms(2) by linarith+
  show ?thesis unfolding e by (rule u32_int [OF l])
qed

text \<open>What a successful resize of the record at \<open>a\<close> to \<open>ns\<close> bytes leaves behind.\<close>

definition resized :: "u8 list \<Rightarrow> nat \<Rightarrow> nat \<Rightarrow> nat \<Rightarrow> nat \<Rightarrow> u8 list \<Rightarrow> bool" where
  "resized m a len biu ns m' \<longleftrightarrow>
     length m' = length m \<and> a_length m' a = Ok ns \<and> m_bytes_in_use m' = Ok (biu - len + ns) \<and>
     (\<forall>j<a + min len ns. \<not> (24 \<le> j \<and> j < 28) \<and> \<not> (a + 4 \<le> j \<and> j < a + 8) \<longrightarrow> m' ! j = m ! j) \<and>
     (\<forall>j<biu - a - len. m' ! (a + ns + j) = m ! (a + len + j))"

lemma record_resize_fail:
  assumes "attr_in_record m a len biu ballocated" and "n < 2147483640" and "ballocated < biu - len + align8 n"
  shows "ntfs_attr_record_resize m a n = Error ENOSPC"
proof -
  have "align8 n \<noteq> len" using assms by (auto simp: attr_in_record_def)
  moreover have "align8 n < 2147483648" using align8_bounds(2) [of n] assms(2) by linarith
  ultimately show ?thesis
    using assms resize_u32 [OF assms(1)] unfolding ntfs_attr_record_resize_def resize_aligned [OF assms(2)]
    by (simp add: attr_in_record_def)
qed

lemma record_resize_ok:
  assumes "attr_in_record m a len biu ballocated" and "0 < n" and "n < 2147483640"
    and "biu - len + align8 n \<le> ballocated"
  shows "\<exists>m'. ntfs_attr_record_resize m a n = Ok m' \<and> resized m a len biu (align8 n) m'"
proof -
  note A = attr_in_recordD [OF assms(1)]
  define ns where "ns = align8 n"
  have ns: "n \<le> ns" "ns < n + 8" "8 \<le> ns" using align8_bounds [of n] assms(2) by (auto simp: ns_def align8_def)
  have fit: "biu - len + ns \<le> ballocated" using assms(4) by (simp add: ns_def)
  note rz = resize_aligned [OF assms(3), folded ns_def]
  show ?thesis
  proof (cases "ns = len")
    case True
    then have "ntfs_attr_record_resize m a n = Ok m" using A unfolding ntfs_attr_record_resize_def rz by simp
    moreover have "resized m a len biu ns m" using A True by (simp add: resized_def)
    ultimately show ?thesis unfolding ns_def by blast
  next
    case False
    let ?c = "biu - a - len"
    let ?bs = "take ?c (drop (a + len) m)"
    have rb: "rd_bytes m (a + len) ?c = Ok ?bs" using A by (simp add: rd_bytes_def)
    have lb: "length ?bs = ?c" using A(6-8) by simp
    obtain m1 where m1: "wr_bytes m (a + ns) ?bs = Ok m1" "length m1 = length m"
      using wr_bytes_Ok [of "a + ns" ?bs m] A fit lb by fastforce
    obtain m2 where m2: "wr_bytes m1 24 (le_bytes 4 (biu - len + ns)) = Ok m2" "length m2 = length m1"
      using wr_bytes_Ok [of 24 "le_bytes 4 (biu - len + ns)" m1] A m1(2) by fastforce
    obtain m3 where m3: "wr_bytes m2 (a + 4) (le_bytes 4 ns) = Ok m3" "length m3 = length m2"
      using wr_bytes_Ok [of "a + 4" "le_bytes 4 ns" m2] A m1(2) m2(2) by fastforce
    have len3: "length m3 = length m" using m1 m2 m3 by simp
    have u: "u32 (int biu - int len + int ns) = biu - len + ns" using resize_u32 [OF assms(1), of ns] ns assms(3) by simp
    have "ntfs_attr_record_resize m a n = Ok m3"
      using A False fit ns(3) m1(1) m2(1) m3(1) rb
      unfolding ntfs_attr_record_resize_def rz by (simp add: u memmove_def wr_le_def)
    have nth: "m3 ! j = (if a + 4 \<le> j \<and> j < a + 4 + 4 then le_bytes 4 ns ! (j - (a + 4))
        else if 24 \<le> j \<and> j < 24 + 4 then le_bytes 4 (biu - len + ns) ! (j - 24)
        else if a + ns \<le> j \<and> j < a + ns + ?c then ?bs ! (j - (a + ns)) else m ! j)" if "j < length m" for j
      using three_writes [OF m1(1) m2(1) m3(1) that] unfolding lb length_le_bytes .
    have "a_length m3 a = Ok ns"
      using rd_le_wr_le [of m2 "a + 4" 4 ns m3] m3(1) ns assms(3) by (simp add: wr_le_def field_defs)
    moreover have "m_bytes_in_use m3 = Ok (biu - len + ns)"
    proof -
      have "m_bytes_in_use m3 = m_bytes_in_use m2"
        unfolding field_defs by (rule rd_le_cong) (use m3(2) A wr_bytes_nth [OF m3(1)] in auto)
      then show ?thesis
        using rd_le_wr_le [of m1 24 4 "biu - len + ns" m2] m2(1) A fit by (simp add: wr_le_def field_defs)
    qed
    moreover have "m3 ! j = m ! j" if "j < a + min len ns" "\<not> (24 \<le> j \<and> j < 28)" "\<not> (a + 4 \<le> j \<and> j < a + 8)" for j
    proof -
      have j: "j < length m" and c: "\<not> (a + 4 \<le> j \<and> j < a + 4 + 4)" "\<not> (24 \<le> j \<and> j < 24 + 4)"
          "\<not> (a + ns \<le> j \<and> j < a + ns + ?c)" using that A(6-8) by linarith+
      show ?thesis unfolding nth [OF j] if_not_P [OF c(1)] if_not_P [OF c(2)] if_not_P [OF c(3)] by (rule refl)
    qed
    moreover have "m3 ! (a + ns + j) = m ! (a + len + j)" if j: "j < ?c" for j
    proof -
      have i: "a + ns + j < length m" using j A(4-8) fit by linarith
      have c: "\<not> (a + 4 \<le> a + ns + j \<and> a + ns + j < a + 4 + 4)" "\<not> (24 \<le> a + ns + j \<and> a + ns + j < 24 + 4)"
          "a + ns \<le> a + ns + j \<and> a + ns + j < a + ns + ?c"
        using A(4) ns(3) j by linarith+
      have "?bs ! j = m ! (a + len + j)" using j A(6-8) by simp
      then show ?thesis unfolding nth [OF i] if_not_P [OF c(1)] if_not_P [OF c(2)] if_P [OF c(3)] by simp
    qed
    ultimately have "resized m a len biu ns m3" unfolding resized_def using len3 by simp
    with \<open>ntfs_attr_record_resize m a n = Ok m3\<close> show ?thesis unfolding ns_def by blast
  qed
qed

lemma resized_keeps:
  assumes "resized m a len biu ns m'" and "28 \<le> a + i" and "8 \<le> i" and "i + k \<le> len" and "i + k \<le> ns"
  shows "rd_le m' (a + i) k = rd_le m (a + i) k"
proof (rule rd_le_cong)
  fix j assume j: "a + i \<le> j" "j < a + i + k"
  then have "j < a + min len ns" "\<not> (24 \<le> j \<and> j < 28)" "\<not> (a + 4 \<le> j \<and> j < a + 8)" using assms(2-5) by linarith+
  then show "m' ! j = m ! j" using assms(1) unfolding resized_def by blast
qed (use assms(1) in \<open>simp add: resized_def\<close>)

text \<open>What a successful resize of the value leaves behind.\<close>

definition value_resized :: "u8 list \<Rightarrow> nat \<Rightarrow> nat \<Rightarrow> nat \<Rightarrow> nat \<Rightarrow> nat \<Rightarrow> nat \<Rightarrow> u8 list \<Rightarrow> bool" where
  "value_resized m a len biu voff vl n m' \<longleftrightarrow>
     (let ns = align8 (voff + n) in
      a_length m' a = Ok ns \<and> m_bytes_in_use m' = Ok (biu - len + ns) \<and>
      a_value_offset m' a = Ok voff \<and> a_value_length m' a = Ok n \<and>
      (\<forall>j<n. m' ! (a + voff + j) = (if j < vl then m ! (a + voff + j) else 0)) \<and>
      (\<forall>j<biu - a - len. m' ! (a + ns + j) = m ! (a + len + j)))"

lemma value_resize_ok:
  assumes R: "attr_in_record m a len biu ballocated" and v: "a_value_offset m a = Ok voff" "a_value_length m a = Ok vl"
    and b: "24 \<le> voff" "voff + vl \<le> len" "voff + n < 2147483640" and fit: "biu - len + align8 (voff + n) \<le> ballocated"
  shows "\<exists>m'. ntfs_resident_attr_value_resize m a n = Ok m' \<and> value_resized m a len biu voff vl n m'"
proof -
  note A = attr_in_recordD [OF R]
  define ns where "ns = align8 (voff + n)"
  have ns: "voff + n \<le> ns" using align8_bounds(1) [of "voff + n"] by (simp add: ns_def)
  have fit': "biu - len + ns \<le> ballocated" using fit by (simp add: ns_def)
  have "0 < voff + n" using b by linarith
  from record_resize_ok [OF R this b(3) fit] obtain m1
    where m1: "ntfs_attr_record_resize m a (voff + n) = Ok m1" and rz: "resized m a len biu ns m1"
    unfolding ns_def by blast
  have u: "u32 (int voff + int n) = voff + n" using u32_int [of "voff + n"] b(3) by simp
  have l1: "length m1 = length m" using rz by (simp add: resized_def)
  have v1: "a_value_offset m1 a = Ok voff" "a_value_length m1 a = Ok vl"
    using resized_keeps [OF rz, of 20 2] resized_keeps [OF rz, of 16 4] v A(4) b ns
    by (simp_all add: field_defs)
  define m2 where "m2 = (if vl < n then take (a + voff + vl) m1 @ replicate (n - vl) 0 @ drop (a + voff + n) m1 else m1)"
  have in_m: "a + voff + n \<le> length m" using ns fit' A(6,7,8) by linarith
  have l2: "length m2 = length m" using in_m l1 by (simp add: m2_def)
  have z: "(if vl < n then wr_bytes m1 (a + voff + vl) (replicate (n - vl) 0) else Ok m1) = Ok m2"
    using in_m l1 by (simp add: m2_def wr_bytes_def add.assoc)
  obtain m3 where m3: "wr_bytes m2 (a + 16) (le_bytes 4 n) = Ok m3" and l3: "length m3 = length m"
    using wr_bytes_Ok [of "a + 16" "le_bytes 4 n" m2] in_m b(1) l2 by auto
  have w: "m3 ! j = (if a + 16 \<le> j \<and> j < a + 16 + 4 then le_bytes 4 n ! (j - (a + 16)) else m2 ! j)" if "j < length m" for j
    using wr_bytes_nth [OF m3, of j] that l2 by simp
  have n2: "m2 ! j = (if a + voff + vl \<le> j \<and> j < a + voff + n then 0 else m1 ! j)" if "j < length m" for j
    using that in_m l1 by (auto simp: m2_def nth_append min_def)
  have eq: "m3 ! j = m1 ! j" if "j < length m" "\<not> (a + 16 \<le> j \<and> j < a + 20)" "\<not> (a + voff + vl \<le> j \<and> j < a + voff + n)" for j
    using w [OF that(1)] n2 [OF that(1)] that by auto
  have keep: "rd_le m3 i k = rd_le m1 i k" if "i + k \<le> a + 16 \<or> a + 20 \<le> i \<and> i + k \<le> a + voff" for i k
    using that b(1) by (intro rd_le_cong) (auto simp: l3 l1 intro!: eq)
  have "ntfs_resident_attr_value_resize m a n = Ok m3"
    using z m3 v1 unfolding ntfs_resident_attr_value_resize_def by (cases "vl < n") (simp_all add: v u m1 wr_le_def)
  moreover have "a_length m3 a = Ok ns" "m_bytes_in_use m3 = Ok (biu - len + ns)" "a_value_offset m3 a = Ok voff"
    using rz v1(1) keep [of "a + 4" 4] keep [of 24 4] keep [of "a + 20" 2] A(4) b(1)
    by (simp_all add: resized_def field_defs)
  moreover have "a_value_length m3 a = Ok n"
    using rd_le_wr_le [of m2 "a + 16" 4 n m3] m3 b(3) by (simp add: wr_le_def field_defs)
  moreover have "m3 ! (a + voff + j) = (if j < vl then m ! (a + voff + j) else 0)" if j: "j < n" for j
  proof -
    have i: "a + voff + j < length m" "\<not> (a + 16 \<le> a + voff + j \<and> a + voff + j < a + 16 + 4)"
      using j in_m b(1) by linarith+
    have "m1 ! (a + voff + j) = m ! (a + voff + j)" if "j < vl"
    proof -
      have "a + voff + j < a + min len ns" "\<not> (24 \<le> a + voff + j \<and> a + voff + j < 28)"
        "\<not> (a + 4 \<le> a + voff + j \<and> a + voff + j < a + 8)" using that j ns b A(4) by linarith+
      then show ?thesis using rz unfolding resized_def by blast
    qed
    then show ?thesis using n2 [OF i(1)] j unfolding w [OF i(1)] if_not_P [OF i(2)] by simp
  qed
  moreover have "m3 ! (a + ns + j) = m ! (a + len + j)" if j: "j < biu - a - len" for j
  proof -
    have i: "a + ns + j < length m" "\<not> (a + 16 \<le> a + ns + j \<and> a + ns + j < a + 20)"
       "\<not> (a + voff + vl \<le> a + ns + j \<and> a + ns + j < a + voff + n)" using j A(6,7,8) fit' b(1) ns by linarith+
    show ?thesis using eq [OF i] rz j by (simp add: resized_def)
  qed
  ultimately show ?thesis unfolding value_resized_def Let_def ns_def [symmetric] by blast
qed


section \<open>Correctness\<close>

text \<open>
  C31. Resizing an attribute record to \<open>n\<close> bytes either reports that the mft record has no room, exactly
  when the record rounded up to eight bytes does not fit, and changes nothing, or it gives the
  record that length, moves everything behind it to its new end, adjusts \<open>bytes_in_use\<close> and leaves the
  other bytes in front of both ends as they are.
\<close>

theorem record_resize_correct:
  assumes "attr_in_record m a len biu ballocated" and "0 < n" and "n < 2147483640"
  shows "if ballocated < biu - len + align8 n then ntfs_attr_record_resize m a n = Error ENOSPC
    else \<exists>m'. ntfs_attr_record_resize m a n = Ok m' \<and> resized m a len biu (align8 n) m'"
  using record_resize_ok [OF assms] record_resize_fail [OF assms(1,3)] by simp

text \<open>
  A record with one resident attribute of 32 bytes at offset 48 (value \<open>1, 2, 3\<close> at offset 24) and the end marker, 88 of
  104 bytes in use.
\<close>

definition example_mrec :: "u8 list" where
  "example_mrec = replicate 24 0 @ le_bytes 4 88 @ le_bytes 4 104 @ replicate 16 0 @
     le_bytes 4 0x30 @ le_bytes 4 32 @ replicate 8 0 @ le_bytes 4 3 @ le_bytes 2 24 @ [0, 0] @ [1, 2, 3, 0, 0, 0, 0, 0] @
     [255, 255, 255, 255] @ replicate 20 0"

lemma example_mrec_fields:
  "a_length example_mrec 48 = Ok 32" "m_bytes_in_use example_mrec = Ok 88" "m_bytes_allocated example_mrec = Ok 104"
  "a_value_offset example_mrec 48 = Ok 24" "a_value_length example_mrec 48 = Ok 3" "length example_mrec = 104"
  by code_simp+

lemma example_mrec_layout: "attr_in_record example_mrec 48 32 88 104"
  by (simp add: attr_in_record_def example_mrec_fields)

theorem record_resize_correct_witness:
  "ntfs_attr_record_resize example_mrec 48 60 = Error ENOSPC \<and>
   (\<exists>m'. ntfs_attr_record_resize example_mrec 48 41 = Ok m' \<and> resized example_mrec 48 32 88 48 m')"
  using record_resize_correct [OF example_mrec_layout, of 60] record_resize_correct [OF example_mrec_layout, of 41]
  by (simp add: align8_def)

text \<open>
  C18. Resizing the value of a resident attribute reports \<open>ENOSPC\<close> exactly when the record with the new value does not fit;
  otherwise the new value is the old one cut off or extended by zero bytes, the lengths of the
  value, the record and the used part are updated and the attributes behind it are moved intact.
\<close>

theorem value_resize_correct:
  assumes "attr_in_record m a len biu ballocated" and "a_value_offset m a = Ok voff" and "a_value_length m a = Ok vl"
    and "24 \<le> voff" and "voff + vl \<le> len" and "voff + n < 2147483640"
  shows "if ballocated < biu - len + align8 (voff + n) then ntfs_resident_attr_value_resize m a n = Error ENOSPC
    else \<exists>m'. ntfs_resident_attr_value_resize m a n = Ok m' \<and> value_resized m a len biu voff vl n m'"
proof (cases "ballocated < biu - len + align8 (voff + n)")
  case True
  have "u32 (int voff + int n) = voff + n" using u32_int [of "voff + n"] assms(6) by simp
  then show ?thesis using True record_resize_fail [OF assms(1,6) True] assms(2)
    by (simp add: ntfs_resident_attr_value_resize_def)
qed (use value_resize_ok [OF assms] in simp)

theorem value_resize_correct_witness:
  "ntfs_resident_attr_value_resize example_mrec 48 60 = Error ENOSPC \<and>
   (\<exists>m'. ntfs_resident_attr_value_resize example_mrec 48 17 = Ok m' \<and> value_resized example_mrec 48 32 88 24 3 17 m')"
  using value_resize_correct [OF example_mrec_layout example_mrec_fields(4,5), of 60] value_resize_correct [OF example_mrec_layout example_mrec_fields(4,5), of 17]
  by (simp add: align8_def)


section \<open>The definition table\<close>

lemma attrdef_loop_find:
  assumes "sorted_wrt (\<lambda>x y. ad_type x < ad_type y) ads" and "\<forall>ad\<in>set ads. ad_type ad \<noteq> 0"
    and "terminator = [] \<or> ad_type (hd terminator) = 0"
  shows "attrdef_loop (ads @ terminator) type = find (\<lambda>ad. ad_type ad = type) ads"
  using assms
proof (induction ads)
  case Nil
  then show ?case by (cases terminator) auto
next
  case (Cons ad ads)
  then have "find (\<lambda>x. ad_type x = type) ads = None" if "type < ad_type ad"
    using that by (auto simp: find_None_iff)
  then show ?case using Cons by auto
qed

text \<open>
  C32. On a definition table whose types ascend up to its zero terminator, the size check of an
  attribute accepts a size exactly when the table defines the type and the size lies within the
  limits of its entry (and within 256 KiB for an attribute list); it reports \<open>ERANGE\<close> for a
  size outside the limits and \<open>ENOENT\<close> for a type without an entry.
\<close>

theorem size_bounds_check_correct:
  assumes "attrdef vol = ads @ terminator" and "sorted_wrt (\<lambda>x y. ad_type x < ad_type y) ads"
    and "\<forall>ad\<in>set ads. ad_type ad \<noteq> 0" and "terminator = [] \<or> ad_type (hd terminator) = 0" and "0 < type" and "0 \<le> sz"
  shows "ntfs_attr_size_bounds_check vol type sz =
    (if type = AT_ATTRIBUTE_LIST \<and> 262144 < sz then Error ERANGE
     else case find (\<lambda>ad. ad_type ad = type) ads of
       None \<Rightarrow> Error ENOENT
     | Some ad \<Rightarrow> if (0 < ad_min_size ad \<longrightarrow> ad_min_size ad \<le> sz) \<and> (0 < ad_max_size ad \<longrightarrow> sz \<le> ad_max_size ad)
                 then Ok () else Error ERANGE)"
  using assms(5,6) attrdef_loop_find [OF assms(2-4), of type]
  unfolding ntfs_attr_size_bounds_check_def ntfs_attr_find_in_attrdef_def assms(1)
  by (auto split: option.split)


definition example_vol :: ntfs_volume where
  "example_vol = zero_volume \<lparr>attrdef := [\<lparr>ad_type = 0x10, ad_flags = 0x40, ad_min_size = 48, ad_max_size = 72\<rparr>,
     \<lparr>ad_type = 0x20, ad_flags = 0x80, ad_min_size = 0, ad_max_size = -1\<rparr>,
     \<lparr>ad_type = 0, ad_flags = 0, ad_min_size = 0, ad_max_size = 0\<rparr>]\<rparr>"

theorem size_bounds_check_correct_witness:
  "ntfs_attr_size_bounds_check example_vol 0x10 72 = Ok () \<and> ntfs_attr_size_bounds_check example_vol 0x10 73 = Error ERANGE \<and>
   ntfs_attr_size_bounds_check example_vol 0x20 262145 = Error ERANGE \<and> ntfs_attr_size_bounds_check example_vol 0x30 5 = Error ENOENT"
  using size_bounds_check_correct [of example_vol "take 2 (attrdef example_vol)" "drop 2 (attrdef example_vol)"]
  by (simp add: example_vol_def AT_ATTRIBUTE_LIST_def)

end
