(* ===== verification/Ntfs_Inode.thy ===== *)
theory Ntfs_Inode
  imports Ntfs_Layout Ntfs_Volume Ntfs_Runlist
begin

text \<open>
  The in-memory inode (\<^verbatim>\<open>ntfs/inode.h\<close>), its state bits, and the creation and destruction of extent
  inodes (\<^verbatim>\<open>ntfs/inode.c\<close>). Inodes live in a store that maps addresses to inodes, because base and
  extent inodes point to each other and are compared as pointers; an access through an address the
  store does not hold is \<open>Oob\<close>. The store also counts how often each page of the \<^verbatim>\<open>$MFT\<close> is pinned.
\<close>

section \<open>State bits\<close>

datatype ni_flag =
    NI_Dirty | NI_AttrList | NI_AttrListNonResident | NI_Attr | NI_MstProtected | NI_NonResident
  | NI_Compressed | NI_Encrypted | NI_Sparse | NI_SparseDisabled | NI_TruncateFailed

abbreviation NI_IndexAllocPresent :: ni_flag where
  "NI_IndexAllocPresent \<equiv> NI_NonResident"

text \<open>The two readings of the union \<^verbatim>\<open>itype\<close> and the three of the union \<^verbatim>\<open>ext\<close>.\<close>

datatype ni_itype =
    Itype_Index (it_block_size: nat) (it_vcn_size: nat) (it_collation_rule: nat)
      (it_block_size_bits: nat) (it_vcn_size_bits: nat)
  | Itype_Compressed (it_size: int) (it_cb_size: nat) (it_cb_size_bits: nat) (it_cb_clusters: nat)

datatype ni_ext = Ext_Null | Ext_Inos "nat option list" | Ext_Base nat

record ntfs_inode =
  ni_initialized_size :: int
  ni_allocated_size :: int
  ni_state :: "ni_flag list"
  ni_mft_no :: nat
  ni_seq_no :: nat
  ni_count :: int
  ni_type :: nat
  ni_name :: "ntfschar list option"
  ni_name_len :: nat
  ni_runlist :: "runlist option"
  ni_mrec_lock :: bool
  ni_page :: "nat option"
  ni_page_ofs :: nat
  ni_attr_list_size :: nat
  ni_attr_list :: "u8 list option"
  ni_attr_list_rl :: "runlist option"
  ni_itype :: ni_itype
  ni_extent_lock :: bool
  ni_nr_extents :: int
  ni_ext :: ni_ext

definition NIno :: "ni_flag \<Rightarrow> ntfs_inode \<Rightarrow> bool" where
  "NIno f ni \<longleftrightarrow> f \<in> set (ni_state ni)"

definition NInoSet :: "ni_flag \<Rightarrow> ntfs_inode \<Rightarrow> ntfs_inode" where
  "NInoSet f ni = ni\<lparr>ni_state := List.insert f (ni_state ni)\<rparr>"

definition NInoClear :: "ni_flag \<Rightarrow> ntfs_inode \<Rightarrow> ntfs_inode" where
  "NInoClear f ni = ni\<lparr>ni_state := removeAll f (ni_state ni)\<rparr>"

definition NInoTestSet :: "ni_flag \<Rightarrow> ntfs_inode \<Rightarrow> bool \<times> ntfs_inode" where
  "NInoTestSet f ni = (NIno f ni, NInoSet f ni)"

definition NInoTestClear :: "ni_flag \<Rightarrow> ntfs_inode \<Rightarrow> bool \<times> ntfs_inode" where
  "NInoTestClear f ni = (NIno f ni, NInoClear f ni)"

lemma NIno_set [simp]: "NIno f (NInoSet g ni) \<longleftrightarrow> f = g \<or> NIno f ni"
  by (auto simp: NIno_def NInoSet_def)

lemma NIno_clear [simp]: "NIno f (NInoClear g ni) \<longleftrightarrow> f \<noteq> g \<and> NIno f ni"
  by (auto simp: NIno_def NInoClear_def)

section \<open>The store\<close>

record mft_store =
  ms_vol :: ntfs_volume
  ms_inodes :: "nat \<Rightarrow> ntfs_inode option"
  ms_pins :: "nat \<Rightarrow> nat"

text \<open>
  What the code takes from the kernel: the size of the \<^verbatim>\<open>$MFT\<close>, the outcome of reading one of its
  pages (an error, or the bytes and the \<^verbatim>\<open>PG_error\<close> flag), the slab allocator of inodes with the
  content of a fresh object, and \<^verbatim>\<open>kmalloc\<close>.
\<close>

record kernel =
  mft_i_size :: nat
  read_mapping_page :: "nat \<Rightarrow> errno + u8 list \<times> bool"
  alloc_inode :: "mft_store \<Rightarrow> nat option"
  slab_object :: ntfs_inode
  kmalloc_ok :: "nat \<Rightarrow> bool"

definition deref :: "mft_store \<Rightarrow> nat \<Rightarrow> ntfs_inode result" where
  "deref st p = (case ms_inodes st p of None \<Rightarrow> Oob | Some ni \<Rightarrow> Ok ni)"

definition upd :: "nat \<Rightarrow> (ntfs_inode \<Rightarrow> ntfs_inode) \<Rightarrow> mft_store \<Rightarrow> mft_store result" where
  "upd p f st = bind_result (deref st p) (\<lambda>ni. Ok (st\<lparr>ms_inodes := (ms_inodes st)(p \<mapsto> f ni)\<rparr>))"

abbreviation atomic_inc :: "nat \<Rightarrow> mft_store \<Rightarrow> mft_store result" where
  "atomic_inc p \<equiv> upd p (\<lambda>ni. ni\<lparr>ni_count := ni_count ni + 1\<rparr>)"

abbreviation atomic_dec :: "nat \<Rightarrow> mft_store \<Rightarrow> mft_store result" where
  "atomic_dec p \<equiv> upd p (\<lambda>ni. ni\<lparr>ni_count := ni_count ni - 1\<rparr>)"

text \<open>
  Mutexes. One task runs at a time, so that taking a mutex that is held never returns; this and
  releasing a mutex that is not held are \<open>Bug\<close>.
\<close>

definition mrec_lock :: "nat \<Rightarrow> mft_store \<Rightarrow> mft_store result" where
  "mrec_lock p st = bind_result (deref st p) (\<lambda>ni.
     if ni_mrec_lock ni then Bug else upd p (\<lambda>ni. ni\<lparr>ni_mrec_lock := True\<rparr>) st)"

definition mrec_unlock :: "nat \<Rightarrow> mft_store \<Rightarrow> mft_store result" where
  "mrec_unlock p st = bind_result (deref st p) (\<lambda>ni.
     if ni_mrec_lock ni then upd p (\<lambda>ni. ni\<lparr>ni_mrec_lock := False\<rparr>) st else Bug)"

definition extent_lock :: "nat \<Rightarrow> mft_store \<Rightarrow> mft_store result" where
  "extent_lock p st = bind_result (deref st p) (\<lambda>ni.
     if ni_extent_lock ni then Bug else upd p (\<lambda>ni. ni\<lparr>ni_extent_lock := True\<rparr>) st)"

definition extent_unlock :: "nat \<Rightarrow> mft_store \<Rightarrow> mft_store result" where
  "extent_unlock p st = bind_result (deref st p) (\<lambda>ni.
     if ni_extent_lock ni then upd p (\<lambda>ni. ni\<lparr>ni_extent_lock := False\<rparr>) st else Bug)"

section \<open>Creating and destroying extent inodes\<close>

definition ntfs_alloc_extent_inode :: "kernel \<Rightarrow> mft_store \<Rightarrow> nat option \<times> mft_store" where
  "ntfs_alloc_extent_inode k st =
     (case alloc_inode k st of
        Some p \<Rightarrow> (Some p, st\<lparr>ms_inodes := (ms_inodes st)(p \<mapsto> (slab_object k)\<lparr>ni_state := []\<rparr>)\<rparr>)
      | None \<Rightarrow> (None, st))"

text \<open>\<^verbatim>\<open>__ntfs_init_inode\<close>\<close>

definition ntfs_init_inode :: "ntfs_inode \<Rightarrow> ntfs_inode" where
  "ntfs_init_inode ni =
     ni\<lparr>ni_initialized_size := 0, ni_allocated_size := 0, ni_seq_no := 0, ni_count := 1,
        ni_runlist := None, ni_mrec_lock := False, ni_page := None, ni_page_ofs := 0,
        ni_attr_list_size := 0, ni_attr_list := None, ni_attr_list_rl := None,
        ni_itype := Itype_Index 0 0 0 0 0, ni_extent_lock := False, ni_nr_extents := 0,
        ni_ext := Ext_Null\<rparr>"

definition AT_UNUSED :: nat where
  "AT_UNUSED = 0"

definition ntfs_new_extent_inode :: "kernel \<Rightarrow> mft_store \<Rightarrow> nat \<Rightarrow> (nat option \<times> mft_store) result" where
  "ntfs_new_extent_inode k st mft_no =
     (case ntfs_alloc_extent_inode k st of
        (None, st) \<Rightarrow> Ok (None, st)
      | (Some p, st) \<Rightarrow>
          bind_result
            (upd p (\<lambda>ni. (ntfs_init_inode ni)
               \<lparr>ni_mft_no := mft_no, ni_type := AT_UNUSED, ni_name := None, ni_name_len := 0\<rparr>) st)
            (\<lambda>st. Ok (Some p, st)))"

definition ntfs_destroy_extent_inode :: "nat \<Rightarrow> mft_store \<Rightarrow> mft_store result" where
  "ntfs_destroy_extent_inode p st =
     bind_result (deref st p) (\<lambda>ni.
       if ni_page ni \<noteq> None then Bug
       else if ni_count ni - 1 \<noteq> 0 then Bug
       else Ok (st\<lparr>ms_inodes := (ms_inodes st)(p := None)\<rparr>))"

text \<open>\<^verbatim>\<open>__ntfs_clear_inode\<close>\<close>

definition ntfs_clear_inode :: "nat \<Rightarrow> mft_store \<Rightarrow> mft_store result" where
  "ntfs_clear_inode p st =
     bind_result (upd p (\<lambda>ni. ni\<lparr>ni_runlist := None, ni_attr_list := None, ni_attr_list_rl := None\<rparr>) st) (\<lambda>st.
     bind_result (deref st p) (\<lambda>ni.
       if ni_name_len ni \<noteq> 0 \<and> ni_name ni = None then Bug else Ok st))"

definition ntfs_clear_extent_inode :: "nat \<Rightarrow> mft_store \<Rightarrow> mft_store result" where
  "ntfs_clear_extent_inode p st =
     bind_result (deref st p) (\<lambda>ni.
       if NIno NI_Attr ni then Bug
       else if ni_nr_extents ni \<noteq> - 1 then Bug
       else bind_result (ntfs_clear_inode p st) (ntfs_destroy_extent_inode p))"

end
