(* ===== verification/Ntfs_Mft_Map.thy ===== *)
theory Ntfs_Mft_Map
  imports Ntfs_Inode
begin

text \<open>
  Mapping mft records into memory (\<^verbatim>\<open>ntfs/mft.c\<close>, \<^verbatim>\<open>ntfs/mft.h\<close>, \<^verbatim>\<open>ntfs/aops.h\<close>): pinning the page of a
  record, taking the record's mutex and a reference to its inode, and finding, loading and attaching
  the extent inodes of a base inode. A mapped record is the part of its page from its first byte on.
\<close>

section \<open>Pages of the \<open>$MFT\<close>\<close>

definition ntfs_unmap_page :: "nat \<Rightarrow> mft_store \<Rightarrow> mft_store result" where
  "ntfs_unmap_page i st =
     (if ms_pins st i = 0 then Bug else Ok (st\<lparr>ms_pins := (ms_pins st)(i := ms_pins st i - 1)\<rparr>))"

definition ntfs_map_page :: "kernel \<Rightarrow> nat \<Rightarrow> mft_store \<Rightarrow> ((errno + u8 list) \<times> mft_store) result" where
  "ntfs_map_page k i st =
     (case read_mapping_page k i of
        Inl e \<Rightarrow> Ok (Inl e, st)
      | Inr (pg, page_error) \<Rightarrow>
          let st = st\<lparr>ms_pins := (ms_pins st)(i := ms_pins st i + 1)\<rparr> in
          if \<not> page_error then Ok (Inr pg, st)
          else bind_result (ntfs_unmap_page i st) (\<lambda>st. Ok (Inl EIO, st)))"

definition ntfs_is_mft_recordp :: "u8 list \<Rightarrow> nat \<Rightarrow> bool result" where
  "ntfs_is_mft_recordp pg ofs = bind_result (le32_at pg ofs) (\<lambda>x. Ok (x = magic_FILE))"

section \<open>Mapping one record\<close>

definition map_err_out :: "nat \<Rightarrow> errno \<Rightarrow> mft_store \<Rightarrow> ((errno + u8 list) \<times> mft_store) result" where
  "map_err_out p e st =
     bind_result (upd p (\<lambda>ni. ni\<lparr>ni_page := None, ni_page_ofs := 0\<rparr>) st) (\<lambda>st. Ok (Inl e, st))"

text \<open>The position of a record in the \<^verbatim>\<open>$MFT\<close>, from which its page and the offset in the page are taken.\<close>

definition mrec_pos :: "ntfs_volume \<Rightarrow> ntfs_inode \<Rightarrow> nat" where
  "mrec_pos vol ni = ni_mft_no ni * 2 ^ mft_record_size_bits vol mod 2 ^ 64"

definition beyond_mft :: "kernel \<Rightarrow> ntfs_volume \<Rightarrow> nat \<Rightarrow> nat \<Rightarrow> bool" where
  "beyond_mft k vol index ofs \<longleftrightarrow>
     (let end_index = mft_i_size k div PAGE_SIZE in
      index \<ge> end_index \<and> (index > end_index \<or> mft_i_size k mod PAGE_SIZE < ofs + mft_record_size vol))"

text \<open>Reading the page and checking the record.\<close>

definition map_checked_page ::
    "kernel \<Rightarrow> nat \<Rightarrow> nat \<Rightarrow> nat \<Rightarrow> mft_store \<Rightarrow> ((errno + u8 list) \<times> mft_store) result" where
  "map_checked_page k p index ofs st =
     bind_result (ntfs_map_page k index st) (\<lambda>(page, st).
     case page of
       Inl e \<Rightarrow> map_err_out p e st
     | Inr pg \<Rightarrow>
         bind_result (ntfs_is_mft_recordp pg ofs) (\<lambda>is_mft.
         if is_mft then
           bind_result (upd p (\<lambda>ni. ni\<lparr>ni_page := Some index, ni_page_ofs := ofs\<rparr>) st) (\<lambda>st.
             Ok (Inr (drop ofs pg), st))
         else
           bind_result (ntfs_unmap_page index st) (\<lambda>st.
             map_err_out p EIO (st\<lparr>ms_vol := NVolSet NV_Errors (ms_vol st)\<rparr>))))"

definition map_mft_record_page :: "kernel \<Rightarrow> nat \<Rightarrow> mft_store \<Rightarrow> ((errno + u8 list) \<times> mft_store) result" where
  "map_mft_record_page k p st =
     bind_result (deref st p) (\<lambda>ni.
     if ni_page ni \<noteq> None then Bug
     else
       let index = mrec_pos (ms_vol st) ni div PAGE_SIZE;
           ofs = mrec_pos (ms_vol st) ni mod PAGE_SIZE in
       if beyond_mft k (ms_vol st) index ofs then map_err_out p ENOENT st
       else map_checked_page k p index ofs st)"

definition map_mft_record :: "kernel \<Rightarrow> nat \<Rightarrow> mft_store \<Rightarrow> ((errno + u8 list) \<times> mft_store) result" where
  "map_mft_record k p st =
     bind_result (atomic_inc p st) (\<lambda>st.
     bind_result (mrec_lock p st) (\<lambda>st.
     bind_result (map_mft_record_page k p st) (\<lambda>(m, st).
     case m of
       Inr m \<Rightarrow> Ok (Inr m, st)
     | Inl e \<Rightarrow>
         bind_result (mrec_unlock p st) (\<lambda>st.
         bind_result (atomic_dec p st) (\<lambda>st. Ok (Inl e, st))))))"

definition unmap_mft_record_page :: "nat \<Rightarrow> mft_store \<Rightarrow> mft_store result" where
  "unmap_mft_record_page p st =
     bind_result (deref st p) (\<lambda>ni.
     case ni_page ni of
       None \<Rightarrow> Bug
     | Some i \<Rightarrow>
         bind_result (ntfs_unmap_page i st) (upd p (\<lambda>ni. ni\<lparr>ni_page := None, ni_page_ofs := 0\<rparr>)))"

definition unmap_mft_record :: "nat \<Rightarrow> mft_store \<Rightarrow> mft_store result" where
  "unmap_mft_record p st =
     bind_result (deref st p) (\<lambda>ni.
     if ni_page ni = None then Bug
     else
       bind_result (unmap_mft_record_page p st) (\<lambda>st.
       bind_result (mrec_unlock p st) (atomic_dec p)))"

definition unmap_extent_mft_record :: "nat \<Rightarrow> mft_store \<Rightarrow> mft_store result" where
  "unmap_extent_mft_record p st = unmap_mft_record p st"

section \<open>Mapping an extent record\<close>

text \<open>The search for an attached extent inode; \<open>n\<close> cells of the array are still to be searched.\<close>

fun find_extent :: "mft_store \<Rightarrow> nat option list \<Rightarrow> nat \<Rightarrow> nat \<Rightarrow> nat option result" where
  "find_extent st cells 0 mft_no = Ok None"
| "find_extent st [] (Suc n) mft_no = Oob"
| "find_extent st (None # cells) (Suc n) mft_no = Oob"
| "find_extent st (Some p # cells) (Suc n) mft_no =
     bind_result (deref st p) (\<lambda>ni.
       if mft_no \<noteq> ni_mft_no ni then find_extent st cells n mft_no else Ok (Some p))"

definition extent_cells :: "ntfs_inode \<Rightarrow> nat option list result" where
  "extent_cells ni = (case ni_ext ni of Ext_Inos cells \<Rightarrow> Ok cells | _ \<Rightarrow> Oob)"

text \<open>Mapping an extent inode that is attached already.\<close>

definition map_found_extent ::
    "kernel \<Rightarrow> nat \<Rightarrow> nat \<Rightarrow> nat \<Rightarrow> mft_store \<Rightarrow> ((errno + u8 list \<times> nat) \<times> mft_store) result" where
  "map_found_extent k base p seq_no st =
     bind_result (extent_unlock base st) (\<lambda>st.
     bind_result (atomic_dec base st) (\<lambda>st.
     bind_result (map_mft_record k p st) (\<lambda>(m, st).
     bind_result (atomic_dec p st) (\<lambda>st.
     case m of
       Inl e \<Rightarrow> Ok (Inl e, st)
     | Inr m \<Rightarrow>
         bind_result (m_sequence_number m) (\<lambda>sn.
         if sn = seq_no then Ok (Inr (m, p), st)
         else bind_result (unmap_mft_record p st) (\<lambda>st. Ok (Inl EIO, st)))))))"

text \<open>Making room for one more extent inode; \<open>None\<close> when there is no memory.\<close>

definition grow_extents :: "kernel \<Rightarrow> nat \<Rightarrow> mft_store \<Rightarrow> mft_store option result" where
  "grow_extents k base st =
     bind_result (deref st base) (\<lambda>bni.
     if ni_nr_extents bni mod 4 = 0 then
       if \<not> kmalloc_ok k (nat ((ni_nr_extents bni + 4) * 8)) then Ok None
       else
         bind_result
           (if ni_nr_extents bni \<noteq> 0 then
              (case ni_ext bni of
                 Ext_Null \<Rightarrow> Bug
               | Ext_Base _ \<Rightarrow> Oob
               | Ext_Inos cells \<Rightarrow> rd_bytes cells 0 (nat (ni_nr_extents bni)))
            else Ok []) (\<lambda>old.
         bind_result (upd base (\<lambda>ni. ni\<lparr>ni_ext := Ext_Inos (old @ replicate 4 None)\<rparr>) st) (\<lambda>st. Ok (Some st)))
     else Ok (Some st))"

definition attach_extent :: "nat \<Rightarrow> nat \<Rightarrow> mft_store \<Rightarrow> mft_store result" where
  "attach_extent base p st =
     bind_result (deref st base) (\<lambda>bni.
     bind_result (extent_cells bni) (\<lambda>cells.
     if ni_nr_extents bni < 0 then Oob
     else
       bind_result (wr cells (nat (ni_nr_extents bni)) (Some p)) (\<lambda>cells.
         upd base (\<lambda>ni. ni\<lparr>ni_ext := Ext_Inos cells, ni_nr_extents := ni_nr_extents ni + 1\<rparr>) st)))"

text \<open>The exits behind the label \<^verbatim>\<open>unm_err_out\<close>, always with \<^verbatim>\<open>destroy_ni\<close> set.\<close>

definition unm_err_out ::
    "nat \<Rightarrow> nat \<Rightarrow> errno \<Rightarrow> mft_store \<Rightarrow> ((errno + u8 list \<times> nat) \<times> mft_store) result" where
  "unm_err_out base p e st =
     bind_result (unmap_mft_record p st) (\<lambda>st.
     bind_result (extent_unlock base st) (\<lambda>st.
     bind_result (atomic_dec base st) (\<lambda>st.
     bind_result (ntfs_clear_extent_inode p st) (\<lambda>st. Ok (Inl e, st)))))"

definition load_extent ::
    "kernel \<Rightarrow> nat \<Rightarrow> nat \<Rightarrow> nat \<Rightarrow> mft_store \<Rightarrow> ((errno + u8 list \<times> nat) \<times> mft_store) result" where
  "load_extent k base mft_no seq_no st =
     bind_result (ntfs_new_extent_inode k st mft_no) (\<lambda>(po, st).
     case po of
       None \<Rightarrow>
         bind_result (extent_unlock base st) (\<lambda>st.
         bind_result (atomic_dec base st) (\<lambda>st. Ok (Inl ENOMEM, st)))
     | Some p \<Rightarrow>
         bind_result (upd p (\<lambda>ni. ni\<lparr>ni_seq_no := seq_no, ni_nr_extents := - 1, ni_ext := Ext_Base base\<rparr>) st) (\<lambda>st.
         bind_result (map_mft_record k p st) (\<lambda>(m, st).
         case m of
           Inl e \<Rightarrow>
             bind_result (extent_unlock base st) (\<lambda>st.
             bind_result (atomic_dec base st) (\<lambda>st.
             bind_result (ntfs_clear_extent_inode p st) (\<lambda>st. Ok (Inl e, st))))
         | Inr m \<Rightarrow>
             bind_result (m_sequence_number m) (\<lambda>sn.
             if seq_no \<noteq> 0 \<and> sn \<noteq> seq_no then unm_err_out base p EIO st
             else
               bind_result (grow_extents k base st) (\<lambda>sto.
               case sto of
                 None \<Rightarrow> unm_err_out base p ENOMEM st
               | Some st \<Rightarrow>
                   bind_result (attach_extent base p st) (\<lambda>st.
                   bind_result (extent_unlock base st) (\<lambda>st.
                   bind_result (atomic_dec base st) (\<lambda>st. Ok (Inr (m, p), st)))))))))"

definition map_extent_mft_record ::
    "kernel \<Rightarrow> nat \<Rightarrow> nat \<Rightarrow> mft_store \<Rightarrow> ((errno + u8 list \<times> nat) \<times> mft_store) result" where
  "map_extent_mft_record k base mref st =
     bind_result (atomic_inc base st) (\<lambda>st.
     bind_result (extent_lock base st) (\<lambda>st.
     bind_result (deref st base) (\<lambda>bni.
     bind_result
       (if ni_nr_extents bni > 0
        then bind_result (extent_cells bni) (\<lambda>cells. find_extent st cells (nat (ni_nr_extents bni)) (MREF mref))
        else Ok None) (\<lambda>found.
     case found of
       Some p \<Rightarrow> bind_result (atomic_inc p st) (map_found_extent k base p (MSEQNO mref))
     | None \<Rightarrow> load_extent k base (MREF mref) (MSEQNO mref) st))))"

section \<open>Accesses to the store\<close>

lemma deref_Some [simp]: "ms_inodes st p = Some ni \<Longrightarrow> deref st p = Ok ni"
  by (simp add: deref_def)

lemma deref_Ok_iff [outcome_simps]: "deref st p = Ok ni \<longleftrightarrow> ms_inodes st p = Some ni"
  by (simp add: deref_def split: option.split)

lemma upd_Some [simp]: "ms_inodes st p = Some ni \<Longrightarrow> upd p f st = Ok (st\<lparr>ms_inodes := (ms_inodes st)(p \<mapsto> f ni)\<rparr>)"
  by (simp add: upd_def)

lemmas lock_defs = mrec_lock_def mrec_unlock_def extent_lock_def extent_unlock_def

section \<open>Mapping and unmapping\<close>

text \<open>
  What the code relies on: a page has \<^verbatim>\<open>PAGE_SIZE\<close> bytes, an mft record at least 32, and the
  allocator returns addresses that are not in use.
\<close>

definition kernel_ok :: "kernel \<Rightarrow> mft_store \<Rightarrow> bool" where
  "kernel_ok k st \<longleftrightarrow>
     (\<forall>i pg e. read_mapping_page k i = Inr (pg, e) \<longrightarrow> length pg = PAGE_SIZE) \<and>
     5 \<le> mft_record_size_bits (ms_vol st) \<and>
     (\<forall>st p. alloc_inode k st = Some p \<longrightarrow> ms_inodes st p = None)"

definition idle :: "ntfs_inode \<Rightarrow> bool" where
  "idle ni \<longleftrightarrow> \<not> ni_mrec_lock ni \<and> ni_page ni = None \<and> ni_page_ofs ni = 0"

text \<open>The store with the record of \<open>ni\<close> at \<open>p\<close> mapped.\<close>

definition mapped :: "nat \<Rightarrow> ntfs_inode \<Rightarrow> mft_store \<Rightarrow> mft_store" where
  "mapped p ni st =
     (let pos = mrec_pos (ms_vol st) ni; i = pos div PAGE_SIZE in
      st\<lparr>ms_inodes := (ms_inodes st)(p \<mapsto> ni\<lparr>ni_count := ni_count ni + 1, ni_mrec_lock := True,
           ni_page := Some i, ni_page_ofs := pos mod PAGE_SIZE\<rparr>),
         ms_pins := (ms_pins st)(i := ms_pins st i + 1)\<rparr>)"

text \<open>Equality of stores except that the error flag of the volume may have been set.\<close>

definition same_store :: "mft_store \<Rightarrow> mft_store \<Rightarrow> bool" where
  "same_store st st' \<longleftrightarrow> st' = st \<or> st' = st\<lparr>ms_vol := NVolSet NV_Errors (ms_vol st)\<rparr>"

lemma mrec_ofs_le:
  assumes "5 \<le> b"
  shows "x * 2 ^ b mod 2 ^ 64 mod PAGE_SIZE + 32 \<le> PAGE_SIZE"
proof -
  obtain c where b: "b = 5 + c" using assms le_Suc_ex by blast
  let ?r = "x * 2 ^ b mod 2 ^ 64 mod PAGE_SIZE"
  have "32 dvd x * 2 ^ b mod 2 ^ 64" by (rule dvd_mod) (simp_all add: b power_add)
  then have "32 dvd ?r" by (rule dvd_mod) (simp add: PAGE_SIZE_def)
  moreover have "?r < PAGE_SIZE" by (simp add: PAGE_SIZE_def)
  ultimately obtain j where "?r = 32 * j" "32 * j < 4096" by (auto simp: PAGE_SIZE_def elim!: dvdE)
  then have "?r = 32 * j" "j < 128" by simp_all
  then show ?thesis unfolding PAGE_SIZE_def by simp
qed

text \<open>The record \<open>m\<close> that mapping gives: the bytes of its page from its position on.\<close>

definition mrec_of :: "kernel \<Rightarrow> mft_store \<Rightarrow> ntfs_inode \<Rightarrow> u8 list \<Rightarrow> bool" where
  "mrec_of k st ni m \<longleftrightarrow>
     (\<exists>pg. read_mapping_page k (mrec_pos (ms_vol st) ni div PAGE_SIZE) = Inr (pg, False) \<and>
       m = drop (mrec_pos (ms_vol st) ni mod PAGE_SIZE) pg) \<and>
     le32_at m 0 = Ok magic_FILE \<and> 32 \<le> length m"

lemma map_err_out_idle:
  assumes "ms_inodes st p = Some ni" and "ni_page ni = None" and "ni_page_ofs ni = 0"
  shows "map_err_out p e st = Ok (Inl e, st)"
proof -
  have "ni\<lparr>ni_page := None, ni_page_ofs := 0\<rparr> = ni" using assms(2,3) by (cases ni) simp
  then show ?thesis using assms(1) by (simp add: map_err_out_def fun_upd_idem)
qed

definition paged :: "nat \<Rightarrow> ntfs_inode \<Rightarrow> nat \<Rightarrow> nat \<Rightarrow> mft_store \<Rightarrow> mft_store" where
  "paged p ni i ofs st =
     st\<lparr>ms_inodes := (ms_inodes st)(p \<mapsto> ni\<lparr>ni_page := Some i, ni_page_ofs := ofs\<rparr>),
        ms_pins := (ms_pins st)(i := ms_pins st i + 1)\<rparr>"

lemma map_checked_page_cases:
  assumes ni: "ms_inodes st p = Some ni" "ni_page ni = None" "ni_page_ofs ni = 0"
    and k: "kernel_ok k st" and o: "ofs + 32 \<le> PAGE_SIZE"
  shows "(\<exists>e st'. map_checked_page k p i ofs st = Ok (Inl e, st') \<and> same_store st st') \<or>
    (\<exists>pg. map_checked_page k p i ofs st = Ok (Inr (drop ofs pg), paged p ni i ofs st) \<and>
       read_mapping_page k i = Inr (pg, False) \<and> length pg = PAGE_SIZE \<and> le32_at pg ofs = Ok magic_FILE)"
proof -
  have err: "map_err_out p e st' = Ok (Inl e, st')" if "same_store st st'" for e st'
    using that ni(1) by (intro map_err_out_idle [OF _ ni(2,3)]) (auto simp: same_store_def)
  show ?thesis
  proof (cases "read_mapping_page k i")
    case (Inl e)
    then have "map_checked_page k p i ofs st = Ok (Inl e, st)"
      using err [of st e] by (simp add: map_checked_page_def ntfs_map_page_def same_store_def)
    then show ?thesis by (auto simp: same_store_def)
  next
    case (Inr pe)
    obtain pg pe' where pg: "pe = (pg, pe')" by (cases pe)
    have len: "length pg = PAGE_SIZE" using k Inr pg unfolding kernel_ok_def by blast
    have unpin: "ntfs_unmap_page i (st\<lparr>ms_pins := (ms_pins st)(i := Suc (ms_pins st i))\<rparr>) = Ok st"
      by (simp add: ntfs_unmap_page_def)
    show ?thesis
    proof (cases "pe' \<or> le32_at pg ofs \<noteq> Ok magic_FILE")
      case True
      have "\<exists>v. le32_at pg ofs = Ok v" using rd_le_cases [of pg ofs 4] o len by auto
      then have "\<exists>e st'. map_checked_page k p i ofs st = Ok (Inl e, st') \<and> same_store st st'"
        using True Inr pg unpin err
        by (auto simp: map_checked_page_def ntfs_map_page_def ntfs_is_mft_recordp_def Let_def same_store_def)
      then show ?thesis by blast
    next
      case False
      then have "map_checked_page k p i ofs st = Ok (Inr (drop ofs pg), paged p ni i ofs st)"
        using Inr pg ni(1) by (simp add: map_checked_page_def ntfs_map_page_def ntfs_is_mft_recordp_def Let_def paged_def)
      with False Inr pg len show ?thesis by simp
    qed
  qed
qed

lemma unlock_restores:
  assumes "ms_inodes st p = Some ni" and "\<not> ni_mrec_lock ni"
    and "same_store (st\<lparr>ms_inodes := (ms_inodes st)(p \<mapsto> ni\<lparr>ni_count := ni_count ni + 1, ni_mrec_lock := True\<rparr>)\<rparr>) st'"
  shows "\<exists>st''. bind_result (mrec_unlock p st') (atomic_dec p) = Ok st'' \<and> same_store st st''"
proof -
  have "ni\<lparr>ni_mrec_lock := False\<rparr> = ni" using assms(2) by (cases ni) simp
  then show ?thesis using assms(1,3) by (auto simp: same_store_def lock_defs fun_upd_idem)
qed

lemma map_mft_record_cases:
  assumes "ms_inodes st p = Some ni" and "idle ni" and "kernel_ok k st"
  shows "(\<exists>e st'. map_mft_record k p st = Ok (Inl e, st') \<and> same_store st st') \<or>
    (\<exists>m. map_mft_record k p st = Ok (Inr m, mapped p ni st) \<and> mrec_of k st ni m)"
proof -
  define lk where "lk = ni\<lparr>ni_count := ni_count ni + 1, ni_mrec_lock := True\<rparr>"
  define st1 where "st1 = st\<lparr>ms_inodes := (ms_inodes st)(p \<mapsto> lk)\<rparr>"
  define i where "i = mrec_pos (ms_vol st) ni div PAGE_SIZE"
  define ofs where "ofs = mrec_pos (ms_vol st) ni mod PAGE_SIZE"
  have 1: "map_mft_record k p st = bind_result (map_mft_record_page k p st1) (\<lambda>(m, st).
     case m of Inr m \<Rightarrow> Ok (Inr m, st)
     | Inl e \<Rightarrow> bind_result (bind_result (mrec_unlock p st) (atomic_dec p)) (\<lambda>st. Ok (Inl e, st)))"
    using assms(1,2) unfolding map_mft_record_def bind_result_assoc
    by (simp add: lock_defs idle_def st1_def lk_def)
  have lk: "ms_inodes st1 p = Some lk" "ni_page lk = None" "ni_page_ofs lk = 0" "ms_vol st1 = ms_vol st"
      "mrec_pos (ms_vol st) lk = mrec_pos (ms_vol st) ni"
    using assms(2) by (simp_all add: st1_def lk_def idle_def mrec_pos_def)
  have k1: "kernel_ok k st1" using assms(3) lk(4) by (simp add: kernel_ok_def)
  have o: "ofs + 32 \<le> PAGE_SIZE" using mrec_ofs_le assms(3) by (simp add: kernel_ok_def mrec_pos_def ofs_def)
  have 2: "map_mft_record_page k p st1 =
      (if beyond_mft k (ms_vol st) i ofs then map_err_out p ENOENT st1 else map_checked_page k p i ofs st1)"
    using lk by (simp add: map_mft_record_page_def i_def ofs_def)
  have fail: ?thesis if "map_mft_record_page k p st1 = Ok (Inl e, st')" "same_store st1 st'" for e st'
    using unlock_restores [OF assms(1) _ that(2) [unfolded st1_def lk_def]] assms(2) that(1)
    unfolding 1 by (auto simp: idle_def)
  show ?thesis
  proof (cases "beyond_mft k (ms_vol st) i ofs")
    case True
    then show ?thesis using 2 map_err_out_idle [OF lk(1-3)] fail by (simp add: same_store_def)
  next
    case False
    from map_checked_page_cases [OF lk(1-3) k1 o, of i] show ?thesis
    proof (elim disjE exE conjE)
      fix e st' assume "map_checked_page k p i ofs st1 = Ok (Inl e, st')" "same_store st1 st'"
      then show ?thesis using fail 2 False by simp
    next
      fix pg assume pg: "map_checked_page k p i ofs st1 = Ok (Inr (drop ofs pg), paged p lk i ofs st1)"
        "read_mapping_page k i = Inr (pg, False)" "length pg = PAGE_SIZE" "le32_at pg ofs = Ok magic_FILE"
      have "paged p lk i ofs st1 = mapped p ni st"
        by (simp add: paged_def mapped_def Let_def st1_def lk_def i_def ofs_def)
      moreover have "mrec_of k st ni (drop ofs pg)"
        using pg o by (auto simp: mrec_of_def i_def ofs_def rd_le_def rd_bytes_def)
      ultimately show ?thesis using pg(1) False unfolding 1 2 by simp
    qed
  qed
qed

lemma unmap_mapped:
  assumes "ms_inodes st p = Some ni" and "idle ni"
  shows "unmap_mft_record p (mapped p ni st) = Ok st"
proof -
  have "ni\<lparr>ni_mrec_lock := False, ni_page := None, ni_page_ofs := 0\<rparr> = ni" using assms(2) by (cases ni) (simp add: idle_def)
  then show ?thesis using assms
    by (simp add: unmap_mft_record_def unmap_mft_record_page_def mapped_def Let_def ntfs_unmap_page_def lock_defs
        idle_def fun_upd_idem)
qed

section \<open>Extent inodes\<close>

text \<open>\<open>ps\<close> are the extent inodes attached to the base inode, in the order of its array.\<close>

definition extent_of :: "nat \<Rightarrow> ntfs_inode \<Rightarrow> bool" where
  "extent_of base ni \<longleftrightarrow> ni_nr_extents ni = - 1 \<and> ni_ext ni = Ext_Base base"

definition mft_no_at :: "mft_store \<Rightarrow> nat \<Rightarrow> nat" where
  "mft_no_at st p = (case ms_inodes st p of Some ni \<Rightarrow> ni_mft_no ni | None \<Rightarrow> 0)"

definition attached :: "mft_store \<Rightarrow> nat \<Rightarrow> nat list \<Rightarrow> bool" where
  "attached st base ps \<longleftrightarrow>
     (\<exists>bni. ms_inodes st base = Some bni \<and> \<not> ni_extent_lock bni \<and> ni_nr_extents bni = int (length ps) \<and>
       (ps \<noteq> [] \<longrightarrow> (\<exists>junk. ni_ext bni = Ext_Inos (map Some ps @ junk) \<and> (length ps + length junk) mod 4 = 0))) \<and>
     (\<forall>p\<in>set ps. p \<noteq> base \<and> (\<exists>ni. ms_inodes st p = Some ni \<and> extent_of base ni)) \<and>
     distinct (map (mft_no_at st) ps)"

lemma find_extent_eq:
  assumes "\<forall>p\<in>set ps. ms_inodes st p \<noteq> None"
  shows "find_extent st (map Some ps @ junk) (length ps) x = Ok (find (\<lambda>p. mft_no_at st p = x) ps)"
  using assms
proof (induction ps)
  case (Cons p ps)
  then obtain ni where "ms_inodes st p = Some ni" by auto
  then show ?case using Cons by (auto simp: mft_no_at_def)
qed simp

text \<open>The base inode while its array is searched and changed.\<close>

definition held :: "ntfs_inode \<Rightarrow> ntfs_inode" where
  "held bni = bni\<lparr>ni_count := ni_count bni + 1, ni_extent_lock := True\<rparr>"

lemma held_simps [simp]:
  "ni_nr_extents (held bni) = ni_nr_extents bni" "ni_ext (held bni) = ni_ext bni" "ni_extent_lock (held bni)"
  "ni_count (held bni) = ni_count bni + 1" "ni_mft_no (held bni) = ni_mft_no bni"
  by (simp_all add: held_def)

lemma release_held:
  assumes "ms_inodes st base = Some (held bni)" and "\<not> ni_extent_lock bni"
  shows "bind_result (extent_unlock base st) (atomic_dec base) = Ok (st\<lparr>ms_inodes := (ms_inodes st)(base \<mapsto> bni)\<rparr>)"
proof -
  have "bni\<lparr>ni_extent_lock := False\<rparr> = bni" using assms(2) by (cases bni) simp
  then show ?thesis using assms(1) by (simp add: lock_defs held_def)
qed

lemma map_extent_start:
  assumes "attached st base ps" and "ms_inodes st base = Some bni"
  defines "st1 \<equiv> st\<lparr>ms_inodes := (ms_inodes st)(base \<mapsto> held bni)\<rparr>"
  shows "map_extent_mft_record k base mref st =
    (case find (\<lambda>p. mft_no_at st p = MREF mref) ps of
       Some p \<Rightarrow> bind_result (atomic_inc p st1) (map_found_extent k base p (MSEQNO mref))
     | None \<Rightarrow> load_extent k base (MREF mref) (MSEQNO mref) st1)"
proof -
  have b: "\<not> ni_extent_lock bni" "ni_nr_extents bni = int (length ps)"
      "ps \<noteq> [] \<Longrightarrow> \<exists>junk. ni_ext bni = Ext_Inos (map Some ps @ junk)"
    using assms(1,2) by (auto simp: attached_def)
  have f: "find_extent st1 (map Some ps @ junk) (length ps) x = Ok (find (\<lambda>p. mft_no_at st p = x) ps)" for x junk
  proof -
    have "find (\<lambda>p. mft_no_at st1 p = x) ps = find (\<lambda>p. mft_no_at st p = x) ps"
      using assms(1) by (intro find_cong) (auto simp: attached_def st1_def mft_no_at_def)
    moreover have "\<forall>p\<in>set ps. ms_inodes st1 p \<noteq> None" using assms(1) by (auto simp: attached_def st1_def)
    ultimately show ?thesis by (simp add: find_extent_eq)
  qed
  have "map_extent_mft_record k base mref st = bind_result
       (if ni_nr_extents bni > 0
        then bind_result (extent_cells (held bni)) (\<lambda>cells. find_extent st1 cells (nat (ni_nr_extents bni)) (MREF mref))
        else Ok None) (\<lambda>found.
     case found of
       Some p \<Rightarrow> bind_result (atomic_inc p st1) (map_found_extent k base p (MSEQNO mref))
     | None \<Rightarrow> load_extent k base (MREF mref) (MSEQNO mref) st1)"
  proof -
    obtain st0 where "atomic_inc base st = Ok st0" "extent_lock base st0 = Ok st1"
      using assms(2) b(1) by (simp add: lock_defs st1_def held_def)
    moreover have "deref st1 base = Ok (held bni)" by (simp add: st1_def)
    ultimately show ?thesis unfolding map_extent_mft_record_def by (simp only: bind_result.simps held_simps)
  qed
  also have "\<dots> = bind_result (Ok (find (\<lambda>p. mft_no_at st p = MREF mref) ps)) (\<lambda>found.
     case found of
       Some p \<Rightarrow> bind_result (atomic_inc p st1) (map_found_extent k base p (MSEQNO mref))
     | None \<Rightarrow> load_extent k base (MREF mref) (MSEQNO mref) st1)"
  proof (cases "ps = []")
    case False
    then obtain junk where "ni_ext bni = Ext_Inos (map Some ps @ junk)" using b(3) by blast
    then have "bind_result (extent_cells (held bni)) (\<lambda>cells. find_extent st1 cells (nat (ni_nr_extents bni)) (MREF mref)) =
      Ok (find (\<lambda>p. mft_no_at st p = MREF mref) ps)" using b(2) f by (simp add: extent_cells_def)
    then show ?thesis using False b(2) by simp
  qed (use b in simp)
  finally show ?thesis by simp
qed


lemma map_found_extent_cases:
  assumes "attached st base ps" and "ms_inodes st base = Some bni" and "p \<in> set ps"
    and "ms_inodes st p = Some ni" and "idle ni" and "kernel_ok k st"
  defines "st1 \<equiv> st\<lparr>ms_inodes := (ms_inodes st)(base \<mapsto> held bni)\<rparr>"
  shows "(\<exists>e st'. bind_result (atomic_inc p st1) (map_found_extent k base p sn) = Ok (Inl e, st') \<and> same_store st st') \<or>
    (\<exists>m. bind_result (atomic_inc p st1) (map_found_extent k base p sn) = Ok (Inr (m, p), mapped p ni st) \<and>
       mrec_of k st ni m \<and> m_sequence_number m = Ok sn)"
proof -
  have ne: "p \<noteq> base" and b: "\<not> ni_extent_lock bni" using assms(1-3) by (auto simp: attached_def)
  define nj where "nj = ni\<lparr>ni_count := ni_count ni + 1\<rparr>"
  define st2 where "st2 = st\<lparr>ms_inodes := (ms_inodes st)(p \<mapsto> nj)\<rparr>"
  define st3 where "st3 = st1\<lparr>ms_inodes := (ms_inodes st1)(p \<mapsto> nj)\<rparr>"
  have inc: "atomic_inc p st1 = Ok st3" using ne assms(4) by (simp add: st1_def st3_def nj_def)
  have "bind_result (extent_unlock base st3) (atomic_dec base) = Ok (st3\<lparr>ms_inodes := (ms_inodes st3)(base \<mapsto> bni)\<rparr>)"
    using ne by (intro release_held b) (simp add: st3_def st1_def)
  also have "st3\<lparr>ms_inodes := (ms_inodes st3)(base \<mapsto> bni)\<rparr> = st2"
    using ne assms(2) by (simp add: st3_def st1_def st2_def fun_upd_twist [of p base] fun_upd_idem)
  finally have rel: "bind_result (extent_unlock base st3) (atomic_dec base) = Ok st2" .
  have nj: "ms_inodes st2 p = Some nj" "idle nj" "kernel_ok k st2" "ms_vol st2 = ms_vol st"
    using assms(5,6) by (simp_all add: st2_def nj_def idle_def kernel_ok_def)
  have U: "bind_result (atomic_inc p st1) (map_found_extent k base p sn) =
     bind_result (map_mft_record k p st2) (\<lambda>(m, st).
     bind_result (atomic_dec p st) (\<lambda>st.
     case m of
       Inl e \<Rightarrow> Ok (Inl e, st)
     | Inr m \<Rightarrow>
         bind_result (m_sequence_number m) (\<lambda>x.
         if x = sn then Ok (Inr (m, p), st)
         else bind_result (unmap_mft_record p st) (\<lambda>st. Ok (Inl EIO, st)))))"
    unfolding inc map_found_extent_def bind_result_assoc [symmetric] bind_result.simps rel ..
  have dec: "ni\<lparr>ni_count := ni_count ni\<rparr> = ni" by (cases ni) simp
  from map_mft_record_cases [OF nj(1-3)] show ?thesis
  proof (elim disjE exE conjE)
    fix e st' assume e: "map_mft_record k p st2 = Ok (Inl e, st')" "same_store st2 st'"
    then have "\<exists>st''. atomic_dec p st' = Ok st'' \<and> same_store st st''"
      using assms(4) dec by (auto simp: same_store_def st2_def nj_def fun_upd_idem)
    then show ?thesis unfolding U e(1) by auto
  next
    fix m assume m: "map_mft_record k p st2 = Ok (Inr m, mapped p nj st2)" "mrec_of k st2 nj m"
    have "atomic_dec p (mapped p nj st2) = Ok (mapped p ni st)"
      by (cases st, cases ni) (simp add: mapped_def Let_def st2_def nj_def mrec_pos_def add.commute)
    moreover have m': "mrec_of k st ni m" using m(2) by (simp add: mrec_of_def st2_def nj_def mrec_pos_def)
    moreover obtain x where "m_sequence_number m = Ok x"
      using rd_le_cases [of m 16 2] m' by (auto simp: mrec_of_def m_sequence_number_def)
    ultimately show ?thesis using unmap_mapped [OF assms(4,5)] unfolding U m(1) by (auto simp: same_store_def)
  qed
qed


text \<open>The inode that is created for an extent record.\<close>

definition new_extent :: "kernel \<Rightarrow> nat \<Rightarrow> nat \<Rightarrow> nat \<Rightarrow> ntfs_inode" where
  "new_extent k base mft_no seq_no =
     (ntfs_init_inode ((slab_object k)\<lparr>ni_state := []\<rparr>))
       \<lparr>ni_mft_no := mft_no, ni_type := AT_UNUSED, ni_name := None, ni_name_len := 0,
        ni_seq_no := seq_no, ni_nr_extents := - 1, ni_ext := Ext_Base base\<rparr>"

lemma new_extent_simps [simp]:
  "idle (new_extent k base x sn)" "extent_of base (new_extent k base x sn)" "ni_mft_no (new_extent k base x sn) = x"
  "ni_count (new_extent k base x sn) = 1" "ni_seq_no (new_extent k base x sn) = sn"
  by (simp_all add: new_extent_def idle_def ntfs_init_inode_def extent_of_def)

lemma clear_new_extent:
  "ms_inodes st p = Some (new_extent k base x sn) \<Longrightarrow>
   ntfs_clear_extent_inode p st = Ok (st\<lparr>ms_inodes := (ms_inodes st)(p := None)\<rparr>)"
  by (simp add: ntfs_clear_extent_inode_def ntfs_clear_inode_def ntfs_destroy_extent_inode_def NIno_def
      new_extent_def ntfs_init_inode_def)

text \<open>The store in which a new extent inode is attached at \<open>p\<close>.\<close>

definition extended :: "kernel \<Rightarrow> nat \<Rightarrow> nat list \<Rightarrow> nat \<Rightarrow> nat \<Rightarrow> nat \<Rightarrow> mft_store \<Rightarrow> mft_store \<Rightarrow> bool" where
  "extended k base ps p x sn st st0 \<longleftrightarrow>
     ms_inodes st p = None \<and> attached st0 base (ps @ [p]) \<and>
     (\<exists>bni cells. ms_inodes st base = Some bni \<and>
        st0 = st\<lparr>ms_inodes := (ms_inodes st)(base \<mapsto> bni\<lparr>ni_ext := Ext_Inos cells, ni_nr_extents := ni_nr_extents bni + 1\<rparr>,
           p \<mapsto> new_extent k base x sn)\<rparr>)"

lemma attached_extended:
  assumes "attached st base ps" and "ms_inodes st base = Some bni" and "ms_inodes st p = None"
    and "\<forall>q\<in>set ps. mft_no_at st q \<noteq> x" and "(length ps + 1 + length junk) mod 4 = 0"
  shows "extended k base ps p x sn st (st\<lparr>ms_inodes := (ms_inodes st)(base \<mapsto>
      bni\<lparr>ni_ext := Ext_Inos (map Some ps @ Some p # junk), ni_nr_extents := ni_nr_extents bni + 1\<rparr>,
      p \<mapsto> new_extent k base x sn)\<rparr>)" (is "extended _ _ _ _ _ _ _ ?st")
proof -
  have ne: "p \<noteq> base" "p \<notin> set ps" using assms(1-3) by (auto simp: attached_def)
  have same: "mft_no_at ?st q = mft_no_at st q" if "q \<in> set ps" for q
    using that ne assms(1) by (auto simp: mft_no_at_def attached_def)
  have "distinct (map (mft_no_at ?st) (ps @ [p]))"
    using assms(1,4) same ne by (auto simp: attached_def mft_no_at_def cong: map_cong)
  then have "attached ?st base (ps @ [p])"
    using assms(1,2,5) ne by (auto simp: attached_def)
  then show ?thesis using assms(2,3) ne unfolding extended_def by blast
qed


lemma attach_cells:
  assumes "ms_inodes st base = Some hb" and "ni_nr_extents hb = int (length ps)" and "ni_ext hb = Ext_Inos (map Some ps @ c # junk)"
  shows "attach_extent base p st = Ok (st\<lparr>ms_inodes := (ms_inodes st)(base \<mapsto>
      hb\<lparr>ni_ext := Ext_Inos (map Some ps @ Some p # junk), ni_nr_extents := ni_nr_extents hb + 1\<rparr>)\<rparr>)"
  using assms by (simp add: attach_extent_def extent_cells_def list_update_append)

lemma grow_attach:
  assumes "ms_inodes st base = Some hb" and "ni_nr_extents hb = int (length ps)"
    and "ps \<noteq> [] \<longrightarrow> (\<exists>junk. ni_ext hb = Ext_Inos (map Some ps @ junk) \<and> (length ps + length junk) mod 4 = 0)"
  shows "grow_extents k base st = Ok None \<or>
    (\<exists>st' junk. grow_extents k base st = Ok (Some st') \<and> (length ps + 1 + length junk) mod 4 = 0 \<and>
       attach_extent base p st' = Ok (st\<lparr>ms_inodes := (ms_inodes st)(base \<mapsto>
         hb\<lparr>ni_ext := Ext_Inos (map Some ps @ Some p # junk), ni_nr_extents := ni_nr_extents hb + 1\<rparr>)\<rparr>))"
proof (cases "length ps mod 4 = 0")
  case True
  then have nr: "ni_nr_extents hb mod 4 = 0" unfolding assms(2) by presburger
  define hb' where "hb' = hb\<lparr>ni_ext := Ext_Inos (map Some ps @ None # replicate 3 None)\<rparr>"
  define st' where "st' = st\<lparr>ms_inodes := (ms_inodes st)(base \<mapsto> hb')\<rparr>"
  have g: "grow_extents k base st = Ok None \<or> grow_extents k base st = Ok (Some st')"
  proof -
    have four: "replicate 4 None = None # replicate 3 (None :: nat option)" by (simp add: eval_nat_numeral)
    show ?thesis
    proof (cases "ps = []")
      case False
      then obtain junk where "ni_ext hb = Ext_Inos (map Some ps @ junk)" using assms(3) by blast
      then show ?thesis using assms(1,2) nr False
        by (simp add: grow_extents_def rd_bytes_def st'_def hb'_def four)
    qed (use assms(1,2) in \<open>simp add: grow_extents_def st'_def hb'_def four\<close>)
  qed
  have a: "attach_extent base p st' = Ok (st\<lparr>ms_inodes := (ms_inodes st)(base \<mapsto>
      hb\<lparr>ni_ext := Ext_Inos (map Some ps @ Some p # replicate 3 None), ni_nr_extents := ni_nr_extents hb + 1\<rparr>)\<rparr>)"
    using attach_cells [of st' base hb' ps None "replicate 3 None" p] assms(2) by (simp add: st'_def hb'_def)
  have l: "(length ps + 1 + length (replicate 3 (None :: nat option))) mod 4 = 0" using True unfolding length_replicate by presburger
  from g show ?thesis
  proof
    assume "grow_extents k base st = Ok (Some st')"
    with a l show ?thesis by (intro disjI2 exI [of _ st'] exI [of _ "replicate 3 None"] conjI)
  qed simp
next
  case False
  then have nr: "ni_nr_extents hb mod 4 \<noteq> 0" unfolding assms(2) by presburger
  from False have "ps \<noteq> []" by auto
  from assms(3) [rule_format, OF this] obtain junk
    where j: "ni_ext hb = Ext_Inos (map Some ps @ junk)" "(length ps + length junk) mod 4 = 0"
    by (elim exE conjE)
  obtain c js where "junk = c # js" using j(2) False by (cases junk) simp_all
  with j attach_cells [OF assms(1,2)] have a: "attach_extent base p st = Ok (st\<lparr>ms_inodes := (ms_inodes st)(base \<mapsto>
         hb\<lparr>ni_ext := Ext_Inos (map Some ps @ Some p # js), ni_nr_extents := ni_nr_extents hb + 1\<rparr>)\<rparr>)"
    and l: "(length ps + 1 + length js) mod 4 = 0" by simp_all
  have "grow_extents k base st = Ok (Some st)" using nr assms(1) by (simp add: grow_extents_def)
  with a l show ?thesis by (intro disjI2 exI [of _ st] exI [of _ js] conjI)
qed


lemma new_extent_start:
  assumes "kernel_ok k st" and "alloc_inode k st = Some p"
  shows "bind_result (ntfs_new_extent_inode k st x) (\<lambda>(po, st). case po of None \<Rightarrow> g st | Some p \<Rightarrow>
      bind_result (upd p (\<lambda>ni. ni\<lparr>ni_seq_no := sn, ni_nr_extents := - 1, ni_ext := Ext_Base base\<rparr>) st) (f p)) =
    f p (st\<lparr>ms_inodes := (ms_inodes st)(p \<mapsto> new_extent k base x sn)\<rparr>)"
  using assms(2) by (simp add: ntfs_new_extent_inode_def ntfs_alloc_extent_inode_def new_extent_def ntfs_init_inode_def)

text \<open>Giving up: the base inode is released and the new inode destroyed again.\<close>

lemma discard_new_extent:
  assumes "ms_inodes st base = Some bni" and "\<not> ni_extent_lock bni" and "ms_inodes st p = None"
    and "same_store (st\<lparr>ms_inodes := (ms_inodes st)(base \<mapsto> held bni, p \<mapsto> new_extent k base x sn)\<rparr>) st'"
  shows "\<exists>st''. bind_result (bind_result (extent_unlock base st') (atomic_dec base)) (ntfs_clear_extent_inode p) = Ok st'' \<and>
    same_store st st''"
proof -
  have ne: "p \<noteq> base" using assms(1,3) by auto
  have b: "ms_inodes st' base = Some (held bni)" using assms(4) ne by (auto simp: same_store_def)
  let ?s = "st'\<lparr>ms_inodes := (ms_inodes st')(base \<mapsto> bni)\<rparr>"
  have "ms_inodes ?s p = Some (new_extent k base x sn)" using assms(4) ne by (auto simp: same_store_def)
  note c = clear_new_extent [OF this]
  have "(ms_inodes st')(base \<mapsto> bni, p := None) = ms_inodes st"
    using assms(1,3,4) ne by (auto simp: same_store_def fun_eq_iff)
  then have "same_store st (?s\<lparr>ms_inodes := (ms_inodes ?s)(p := None)\<rparr>)"
    using assms(4) by (auto simp: same_store_def)
  then show ?thesis unfolding release_held [OF b assms(2)] bind_result.simps c by blast
qed

lemma load_extent_cases:
  assumes "attached st base ps" and "ms_inodes st base = Some bni" and "kernel_ok k st"
    and "\<forall>q\<in>set ps. mft_no_at st q \<noteq> x"
  defines "st1 \<equiv> st\<lparr>ms_inodes := (ms_inodes st)(base \<mapsto> held bni)\<rparr>"
  shows "(\<exists>e st'. load_extent k base x sn st1 = Ok (Inl e, st') \<and> same_store st st') \<or>
    (\<exists>m p st0. load_extent k base x sn st1 = Ok (Inr (m, p), mapped p (new_extent k base x sn) st0) \<and>
       extended k base ps p x sn st st0 \<and> mrec_of k st (new_extent k base x sn) m \<and>
       (sn \<noteq> 0 \<longrightarrow> m_sequence_number m = Ok sn))"
proof (cases "alloc_inode k st1")
  case None
  have "bind_result (extent_unlock base st1) (atomic_dec base) = Ok st"
    using assms(1,2) by (subst release_held [of st1 base bni]) (auto simp: attached_def st1_def fun_upd_idem)
  then have "load_extent k base x sn st1 = Ok (Inl ENOMEM, st)"
    using None by (simp add: load_extent_def ntfs_new_extent_inode_def ntfs_alloc_extent_inode_def bind_result_assoc [symmetric]
        del: upd_Some)
  then show ?thesis by (simp add: same_store_def)
next
  case (Some p)
  have b: "\<not> ni_extent_lock bni" "ni_nr_extents bni = int (length ps)"
    "ps \<noteq> [] \<longrightarrow> (\<exists>junk. ni_ext bni = Ext_Inos (map Some ps @ junk) \<and> (length ps + length junk) mod 4 = 0)"
    using assms(1,2) by (auto simp: attached_def)
  have k1: "kernel_ok k st1" using assms(3) by (simp add: kernel_ok_def st1_def)
  then have "ms_inodes st1 p = None" using Some by (simp add: kernel_ok_def)
  then have p: "ms_inodes st p = None" "p \<noteq> base" by (auto simp: st1_def split: if_splits)
  define nn where "nn = new_extent k base x sn"
  define st2 where "st2 = st\<lparr>ms_inodes := (ms_inodes st)(base \<mapsto> held bni, p \<mapsto> nn)\<rparr>"
  have st2: "ms_inodes st2 p = Some nn" "idle nn" "kernel_ok k st2" "ms_vol st2 = ms_vol st"
    using assms(3) by (simp_all add: st2_def kernel_ok_def nn_def)
  have eq2: "st1\<lparr>ms_inodes := (ms_inodes st1)(p \<mapsto> nn)\<rparr> = st2" by (simp add: st1_def st2_def)
  note L = load_extent_def [of k base x sn st1, unfolded new_extent_start [OF k1 Some] eq2 [unfolded nn_def]]
  have fail: "\<exists>st'. bind_result (extent_unlock base s) (\<lambda>st. bind_result (atomic_dec base st) (\<lambda>st.
      bind_result (ntfs_clear_extent_inode p st) (\<lambda>st. Ok (Inl e, st)))) = Ok (Inl e, st') \<and> same_store st st'"
    if "same_store st2 s" for s and e :: errno
    using discard_new_extent [OF assms(2) b(1) p(1) that [unfolded st2_def nn_def]]
    unfolding bind_result_assoc [symmetric] by auto
  have unm: "\<exists>st'. unm_err_out base p e (mapped p nn st2) = Ok (Inl e, st') \<and> same_store st st'" for e
    using fail [of st2 e] unfolding unm_err_out_def unmap_mapped [OF st2(1,2)] bind_result.simps by (simp add: same_store_def)
  from map_mft_record_cases [OF st2(1-3)] show ?thesis
  proof (elim disjE exE conjE)
    fix e st' assume m: "map_mft_record k p st2 = Ok (Inl e, st')" "same_store st2 st'"
    show ?thesis using fail [OF m(2), of e] unfolding L m(1) by auto
  next
    fix m assume m: "map_mft_record k p st2 = Ok (Inr m, mapped p nn st2)" "mrec_of k st2 nn m"
    have mr: "mrec_of k st nn m" using m(2) st2(4) by (simp add: mrec_of_def)
    obtain y where y: "m_sequence_number m = Ok y"
      using rd_le_cases [of m 16 2] m(2) by (auto simp: mrec_of_def m_sequence_number_def)
    have hb: "ms_inodes (mapped p nn st2) base = Some (held bni)" using p(2) by (simp add: mapped_def Let_def st2_def)
    show ?thesis
    proof (cases "sn \<noteq> 0 \<and> y \<noteq> sn")
      case True
      then show ?thesis using unm [of EIO] y unfolding L m(1) by auto
    next
      case False
      have hb': "ni_nr_extents (held bni) = int (length ps)" "ps \<noteq> [] \<longrightarrow>
          (\<exists>junk. ni_ext (held bni) = Ext_Inos (map Some ps @ junk) \<and> (length ps + length junk) mod 4 = 0)"
        using b(2,3) by simp_all
      from grow_attach [OF hb hb', of k p] show ?thesis
      proof (elim disjE exE conjE)
        assume "grow_extents k base (mapped p nn st2) = Ok None"
        then show ?thesis using False unm [of ENOMEM] y unfolding L m(1) by auto
      next
        fix s' junk
        let ?b = "bni\<lparr>ni_ext := Ext_Inos (map Some ps @ Some p # junk), ni_nr_extents := ni_nr_extents bni + 1\<rparr>"
        let ?s = "mapped p nn st2\<lparr>ms_inodes := (ms_inodes (mapped p nn st2))(base \<mapsto> held ?b)\<rparr>"
        define st0 where "st0 = st\<lparr>ms_inodes := (ms_inodes st)(base \<mapsto> ?b, p \<mapsto> nn)\<rparr>"
        assume g: "grow_extents k base (mapped p nn st2) = Ok (Some s')" "(length ps + 1 + length junk) mod 4 = 0"
          and a: "attach_extent base p s' = Ok (mapped p nn st2\<lparr>ms_inodes := (ms_inodes (mapped p nn st2))
            (base \<mapsto> (held bni)\<lparr>ni_ext := Ext_Inos (map Some ps @ Some p # junk), ni_nr_extents := ni_nr_extents (held bni) + 1\<rparr>)\<rparr>)"
        have a': "attach_extent base p s' = Ok ?s" unfolding a by (cases bni) (simp add: held_def)
        have "bind_result (extent_unlock base ?s) (atomic_dec base) = Ok (?s\<lparr>ms_inodes := (ms_inodes ?s)(base \<mapsto> ?b)\<rparr>)"
          using b(1) by (intro release_held) simp_all
        also have "?s\<lparr>ms_inodes := (ms_inodes ?s)(base \<mapsto> ?b)\<rparr> = mapped p nn st0"
          using p(2) by (simp add: mapped_def Let_def st2_def st0_def fun_upd_twist [of base p])
        finally have r: "bind_result (extent_unlock base ?s) (atomic_dec base) = Ok (mapped p nn st0)" .
        have "load_extent k base x sn st1 = Ok (Inr (m, p), mapped p nn st0)"
          using False y g(1) a' r unfolding L m(1) by (auto simp: bind_result_assoc [symmetric] simp del: upd_Some)
        moreover have "extended k base ps p x sn st st0"
          unfolding st0_def nn_def using g(2) p by (intro attached_extended [OF assms(1,2) _ assms(4)]) simp_all
        ultimately show ?thesis using mr y False unfolding nn_def by (intro disjI2 exI conjI) auto
      qed
    qed
  qed
qed


fun extent_outcome ::
    "kernel \<Rightarrow> nat \<Rightarrow> nat list \<Rightarrow> nat \<Rightarrow> mft_store \<Rightarrow> errno + u8 list \<times> nat \<Rightarrow> mft_store \<Rightarrow> bool" where
  "extent_outcome k base ps mref st (Inl e) st' \<longleftrightarrow> same_store st st'"
| "extent_outcome k base ps mref st (Inr (m, p)) st' \<longleftrightarrow>
     (\<exists>st0 ni. st' = mapped p ni st0 \<and> ms_inodes st0 p = Some ni \<and> ni_mft_no ni = MREF mref \<and>
        mrec_of k st ni m \<and> (MSEQNO mref \<noteq> 0 \<longrightarrow> m_sequence_number m = Ok (MSEQNO mref)) \<and>
        (if p \<in> set ps then st0 = st else extended k base ps p (MREF mref) (MSEQNO mref) st st0) \<and>
        unmap_extent_mft_record p st' = Ok st0)"

lemma map_extent_outcome:
  assumes "attached st base ps" and "kernel_ok k st"
    and "\<forall>p\<in>set ps. \<forall>ni. ms_inodes st p = Some ni \<and> ni_mft_no ni = MREF mref \<longrightarrow> idle ni"
  shows "\<exists>r st'. map_extent_mft_record k base mref st = Ok (r, st') \<and>
    extent_outcome k base ps mref st r st'"
proof -
  obtain bni where bni: "ms_inodes st base = Some bni" using assms(1) by (auto simp: attached_def)
  note start = map_extent_start [OF assms(1) bni, of k mref]
  show ?thesis
  proof (cases "find (\<lambda>p. mft_no_at st p = MREF mref) ps")
    case (Some p)
    then have p: "p \<in> set ps" "mft_no_at st p = MREF mref" by (auto simp: find_Some_iff)
    then obtain ni where ni: "ms_inodes st p = Some ni" using assms(1) by (auto simp: attached_def)
    then have x: "ni_mft_no ni = MREF mref" and idle: "idle ni" using p assms(3) by (auto simp: mft_no_at_def)
    from map_found_extent_cases [OF assms(1) bni p(1) ni idle assms(2), of "MSEQNO mref"] show ?thesis
      unfolding start Some option.case
      by (elim disjE exE conjE) (use ni x p(1) unmap_mapped [OF ni idle] in \<open>auto simp: unmap_extent_mft_record_def\<close>)
  next
    case None
    then have "\<forall>q\<in>set ps. mft_no_at st q \<noteq> MREF mref" by (auto simp: find_None_iff)
    from load_extent_cases [OF assms(1) bni assms(2) this, of "MSEQNO mref"] show ?thesis
    proof (elim disjE exE conjE)
      fix m p st0
      let ?nn = "new_extent k base (MREF mref) (MSEQNO mref)"
      assume *: "load_extent k base (MREF mref) (MSEQNO mref) (st\<lparr>ms_inodes := (ms_inodes st)(base \<mapsto> held bni)\<rparr>) =
          Ok (Inr (m, p), mapped p ?nn st0)" "extended k base ps p (MREF mref) (MSEQNO mref) st st0"
        "mrec_of k st ?nn m" "MSEQNO mref \<noteq> 0 \<longrightarrow> m_sequence_number m = Ok (MSEQNO mref)"
      have st0: "ms_inodes st0 p = Some ?nn" "p \<notin> set ps" using *(2) assms(1) by (auto simp: extended_def attached_def)
      then have "unmap_extent_mft_record p (mapped p ?nn st0) = Ok st0"
        unfolding unmap_extent_mft_record_def by (intro unmap_mapped) simp_all
      with * st0 have "extent_outcome k base ps mref st (Inr (m, p)) (mapped p ?nn st0)"
        unfolding extent_outcome.simps by (intro exI [of _ st0] exI [of _ ?nn]) simp
      with start None *(1) show ?thesis by simp
    qed (use start None in auto)
  qed
qed

text \<open>
  C10. Mapping an extent record. For a base inode with its extent inodes attached in order and the
  wanted record not mapped yet, \<^verbatim>\<open>map_extent_mft_record\<close> never trips over a \<^verbatim>\<open>BUG()\<close>, a held mutex or a
  dangling pointer. If it fails, the inodes, locks, reference counts and pinned pages are exactly as
  before. If it succeeds it returns the bytes of the record with the right number and, when the
  reference has one, the right sequence number, and the record's inode is attached to the base, either
  because it was or as a new last one; unmapping the record takes back everything else.
\<close>

theorem map_extent_record_correct:
  assumes "attached st base ps" and "kernel_ok k st"
    and "\<forall>p\<in>set ps. \<forall>ni. ms_inodes st p = Some ni \<and> ni_mft_no ni = MREF mref \<longrightarrow> idle ni"
  shows "\<exists>r st'. map_extent_mft_record k base mref st = Ok (r, st') \<and>
    extent_outcome k base ps mref st r st'"
  by (rule map_extent_outcome [OF assms])

definition example_page :: "u8 list" where
  "example_page = [0x46, 0x49, 0x4c, 0x45] @ replicate 12 0 @ [5, 0] @ replicate 4078 0"

definition example_inode :: ntfs_inode where
  "example_inode = \<lparr>ni_initialized_size = 0, ni_allocated_size = 0, ni_state = [], ni_mft_no = 30, ni_seq_no = 1,
     ni_count = 1, ni_type = 0, ni_name = None, ni_name_len = 0, ni_runlist = None, ni_mrec_lock = False, ni_page = None,
     ni_page_ofs = 0, ni_attr_list_size = 0, ni_attr_list = None, ni_attr_list_rl = None,
     ni_itype = Itype_Index 0 0 0 0 0, ni_extent_lock = False, ni_nr_extents = 0, ni_ext = Ext_Null\<rparr>"

definition example_kernel :: kernel where
  "example_kernel = \<lparr>mft_i_size = 65536, read_mapping_page = (\<lambda>i. Inr (example_page, False)),
     alloc_inode = (\<lambda>st. if ms_inodes st 2 = None then Some 2 else None), slab_object = example_inode,
     kmalloc_ok = (\<lambda>n. True)\<rparr>"

definition example_store :: mft_store where
  "example_store = \<lparr>ms_vol = zero_volume\<lparr>mft_record_size := 1024, mft_record_size_bits := 10\<rparr>,
     ms_inodes = [1 \<mapsto> example_inode], ms_pins = (\<lambda>i. 0)\<rparr>"

theorem map_extent_record_correct_witness:
  "\<exists>r st'. map_extent_mft_record example_kernel 1 (MK_MREF 40 5) example_store = Ok (r, st') \<and>
    extent_outcome example_kernel 1 [] (MK_MREF 40 5) example_store r st'"
proof -
  have a: "attached example_store 1 []" by (simp add: attached_def example_store_def example_inode_def)
  have k: "kernel_ok example_kernel example_store"
    by (simp add: kernel_ok_def example_kernel_def example_store_def example_page_def PAGE_SIZE_def)
  show ?thesis using map_extent_record_correct [OF a k] by simp
qed

end
