(* ===== verification/Ntfs_Attr_Search.thy ===== *)
theory Ntfs_Attr_Search
  imports Ntfs_Mft_Map Ntfs_Collate
begin

text \<open>
  Searching for attributes (\<^verbatim>\<open>ntfs/attrib.c\<close>): in one mft record, and through the attribute list of an
  inode whose attributes are spread over several records. A search context holds the mft record that
  is being searched (its bytes) and the offset of the current attribute in it; a missing name or value
  is \<open>None\<close>. The functions return an error number (\<open>None\<close> for success), the updated context and store.
\<close>

section \<open>Search contexts\<close>

record ntfs_attr_search_ctx =
  sc_mrec :: "u8 list"
  sc_attr :: nat
  sc_is_first :: bool
  sc_ntfs_ino :: nat
  sc_al_entry :: "nat option"
  sc_base_ntfs_ino :: "nat option"
  sc_base_mrec :: "u8 list option"
  sc_base_attr :: "nat option"

type_synonym search_result = "(errno option \<times> ntfs_attr_search_ctx \<times> mft_store) result"

definition ntfs_attr_init_search_ctx :: "nat \<Rightarrow> u8 list \<Rightarrow> ntfs_attr_search_ctx result" where
  "ntfs_attr_init_search_ctx ni mrec =
     bind_result (m_attrs_offset mrec) (\<lambda>ofs.
       Ok \<lparr>sc_mrec = mrec, sc_attr = ofs, sc_is_first = True, sc_ntfs_ino = ni, sc_al_entry = None,
           sc_base_ntfs_ino = None, sc_base_mrec = None, sc_base_attr = None\<rparr>)"

definition ntfs_attr_reinit_search_ctx ::
    "ntfs_attr_search_ctx \<Rightarrow> mft_store \<Rightarrow> (ntfs_attr_search_ctx \<times> mft_store) result" where
  "ntfs_attr_reinit_search_ctx ctx st =
     (case sc_base_ntfs_ino ctx of
        None \<Rightarrow>
          bind_result (m_attrs_offset (sc_mrec ctx)) (\<lambda>ofs.
            Ok (ctx\<lparr>sc_is_first := True, sc_attr := ofs, sc_al_entry := None\<rparr>, st))
      | Some base \<Rightarrow>
          bind_result
            (if sc_ntfs_ino ctx \<noteq> base then unmap_extent_mft_record (sc_ntfs_ino ctx) st else Ok st) (\<lambda>st.
          case sc_base_mrec ctx of
            None \<Rightarrow> Oob
          | Some bm \<Rightarrow> bind_result (ntfs_attr_init_search_ctx base bm) (\<lambda>ctx. Ok (ctx, st))))"

text \<open>\<open>None\<close> is a failed allocation.\<close>

definition ntfs_attr_get_search_ctx :: "bool \<Rightarrow> nat \<Rightarrow> u8 list \<Rightarrow> ntfs_attr_search_ctx option result" where
  "ntfs_attr_get_search_ctx alloc_ok ni mrec =
     (if alloc_ok then bind_result (ntfs_attr_init_search_ctx ni mrec) (\<lambda>ctx. Ok (Some ctx)) else Ok None)"

definition ntfs_attr_put_search_ctx :: "ntfs_attr_search_ctx \<Rightarrow> mft_store \<Rightarrow> mft_store result" where
  "ntfs_attr_put_search_ctx ctx st =
     (case sc_base_ntfs_ino ctx of
        None \<Rightarrow> Ok st
      | Some base \<Rightarrow>
          if sc_ntfs_ino ctx \<noteq> base then unmap_extent_mft_record (sc_ntfs_ino ctx) st else Ok st)"

section \<open>Searching one mft record\<close>

text \<open>What a comparison says about the attribute that is looked at.\<close>

datatype verdict = Match | No_such | Continue

definition name_verdict ::
    "ntfschar list \<Rightarrow> ntfschar list \<Rightarrow> nat \<Rightarrow> IGNORE_CASE_BOOL \<Rightarrow> ntfschar list \<Rightarrow> nat \<Rightarrow> verdict result" where
  "name_verdict up name name_len ic aname aname_len =
     bind_result (ntfs_are_names_equal name name_len aname aname_len ic up (length up)) (\<lambda>eq.
     if eq then Ok Match
     else
       bind_result (ntfs_collate_names name name_len aname aname_len 1 IGNORE_CASE up (length up)) (\<lambda>rc.
       if rc = - 1 then Ok No_such
       else if rc \<noteq> 0 then Ok Continue
       else
         bind_result (ntfs_collate_names name name_len aname aname_len 1 CASE_SENSITIVE up (length up)) (\<lambda>rc.
         if rc = - 1 then Ok No_such
         else if rc \<noteq> 0 then Ok Continue
         else Ok Match)))"

definition attr_name_verdict ::
    "ntfschar list \<Rightarrow> ntfschar list option \<Rightarrow> nat \<Rightarrow> IGNORE_CASE_BOOL \<Rightarrow> u8 list \<Rightarrow> nat \<Rightarrow> verdict result" where
  "attr_name_verdict up name name_len ic m a =
     bind_result (a_name_length m a) (\<lambda>nl.
     case name of
       None \<Rightarrow> Ok (if nl \<noteq> 0 then No_such else Match)
     | Some nm \<Rightarrow>
         bind_result (a_name_offset m a) (\<lambda>no. name_verdict up nm name_len ic (chars_at m (a + no)) (unat nl)))"

definition attr_value_verdict :: "u8 list option \<Rightarrow> nat \<Rightarrow> u8 list \<Rightarrow> nat \<Rightarrow> verdict result" where
  "attr_value_verdict val val_len m a =
     (case val of
        None \<Rightarrow> Ok Match
      | Some v \<Rightarrow>
          bind_result (a_value_offset m a) (\<lambda>vo.
          bind_result (a_value_length m a) (\<lambda>avl.
          bind_result (memcmp v (drop (a + vo) m) (min val_len avl)) (\<lambda>rc.
          Ok (if rc = 0 then
                (if val_len = avl then Match else if val_len < avl then No_such else Continue)
              else if rc < 0 then No_such else Continue)))))"

text \<open>The attribute \<open>a\<close> of type \<open>t\<close> against the wanted type, name and value.\<close>

definition attr_verdict ::
    "ntfschar list \<Rightarrow> nat \<Rightarrow> ntfschar list option \<Rightarrow> nat \<Rightarrow> IGNORE_CASE_BOOL \<Rightarrow> u8 list option \<Rightarrow> nat \<Rightarrow> u8 list \<Rightarrow>
     nat \<Rightarrow> nat \<Rightarrow> verdict result" where
  "attr_verdict up type name name_len ic val val_len m a t =
     (if t \<noteq> type then Ok Continue
      else
        bind_result (attr_name_verdict up name name_len ic m a) (\<lambda>v.
        if v = Match then attr_value_verdict val val_len m a else Ok v))"

text \<open>
  The loop of \<^verbatim>\<open>ntfs_attr_find\<close> at the attribute \<open>a\<close>; \<open>cur\<close> is \<^verbatim>\<open>ctx->attr\<close>. It returns the error and the
  final \<^verbatim>\<open>ctx->attr\<close>; \<open>EIO\<close> stands for leaving the loop by \<^verbatim>\<open>break\<close>.
\<close>

function attr_find_loop ::
    "ntfschar list \<Rightarrow> nat \<Rightarrow> ntfschar list option \<Rightarrow> nat \<Rightarrow> IGNORE_CASE_BOOL \<Rightarrow> u8 list option \<Rightarrow> nat \<Rightarrow> u8 list \<Rightarrow>
     nat \<Rightarrow> nat \<Rightarrow> (errno option \<times> nat) result" where
  "attr_find_loop up type name name_len ic val val_len m cur a =
     bind_result (m_bytes_allocated m) (\<lambda>ba.
     if a > ba then Ok (Some EIO, cur)
     else
       bind_result (a_type m a) (\<lambda>t.
       if t > type \<or> t = AT_END then Ok (Some ENOENT, a)
       else
         bind_result (a_length m a) (\<lambda>len.
         if len = 0 then Ok (Some EIO, a)
         else
           bind_result (attr_verdict up type name name_len ic val val_len m a t) (\<lambda>v.
           if v = Match then Ok (None, a)
           else if v = No_such then Ok (Some ENOENT, a)
           else attr_find_loop up type name name_len ic val val_len m a (a + len)))))"
  by pat_completeness auto

termination
  by (relation "measure (\<lambda>(up, type, name, name_len, ic, val, val_len, m, cur, a).
        case m_bytes_allocated m of Ok ba \<Rightarrow> ba + 1 - a | _ \<Rightarrow> 0)") auto

declare attr_find_loop.simps [simp del]

definition ntfs_attr_find ::
    "nat \<Rightarrow> ntfschar list option \<Rightarrow> nat \<Rightarrow> IGNORE_CASE_BOOL \<Rightarrow> u8 list option \<Rightarrow> nat \<Rightarrow>
     ntfs_attr_search_ctx \<Rightarrow> mft_store \<Rightarrow> search_result" where
  "ntfs_attr_find type name name_len ic val val_len ctx st =
     bind_result (deref st (sc_ntfs_ino ctx)) (\<lambda>_.
     bind_result
       (if sc_is_first ctx then Ok (sc_attr ctx)
        else bind_result (a_length (sc_mrec ctx) (sc_attr ctx)) (\<lambda>len. Ok (sc_attr ctx + len))) (\<lambda>a.
     bind_result (attr_find_loop (upcase (ms_vol st)) type name name_len ic val val_len (sc_mrec ctx) (sc_attr ctx) a)
       (\<lambda>(err, at).
       Ok (err, ctx\<lparr>sc_is_first := False, sc_attr := at\<rparr>,
           if err = Some EIO then st\<lparr>ms_vol := NVolSet NV_Errors (ms_vol st)\<rparr> else st))))"

section \<open>Searching through the attribute list\<close>

text \<open>
  The attribute list \<open>al\<close> is the buffer of the base inode and \<open>al_end\<close> its length; list entries are
  offsets in it. The names of a list entry and whether the next entry still fits \<^verbatim>\<open>lowest_vcn\<close>.
\<close>

definition al_name_verdict ::
    "ntfschar list \<Rightarrow> ntfschar list option \<Rightarrow> nat \<Rightarrow> IGNORE_CASE_BOOL \<Rightarrow> ntfschar list \<Rightarrow> nat \<Rightarrow> verdict result" where
  "al_name_verdict up name name_len ic al_name al_name_len =
     (case name of
        None \<Rightarrow> Ok (if al_name_len \<noteq> 0 then No_such else Match)
      | Some nm \<Rightarrow>
          bind_result (ntfs_are_names_equal al_name al_name_len nm name_len ic up (length up)) (\<lambda>eq.
          if eq then Ok Match
          else
            bind_result (ntfs_collate_names nm name_len al_name al_name_len 1 IGNORE_CASE up (length up)) (\<lambda>rc.
            if rc = - 1 then Ok No_such
            else if rc \<noteq> 0 then Ok Continue
            else
              bind_result (ntfs_collate_names nm name_len al_name al_name_len 1 CASE_SENSITIVE up (length up)) (\<lambda>rc.
              if rc = - 1 then Ok No_such
              else if rc \<noteq> 0 then Ok Continue
              else Ok Match))))"

definition next_entry_fits ::
    "ntfschar list \<Rightarrow> u8 list \<Rightarrow> nat \<Rightarrow> int \<Rightarrow> nat \<Rightarrow> ntfschar list \<Rightarrow> nat \<Rightarrow> nat \<Rightarrow> bool result" where
  "next_entry_fits up al al_end lowest_vcn type al_name al_name_len nx =
     (if lowest_vcn \<noteq> 0 \<and> nx + 6 < al_end then
        bind_result (al_length al nx) (\<lambda>nlen.
        if nx + nlen \<le> al_end then
          bind_result (al_lowest_vcn al nx) (\<lambda>nvcn.
          if nvcn \<le> lowest_vcn then
            bind_result (al_type al nx) (\<lambda>ntype.
            if ntype = type then
              bind_result (al_name_length al nx) (\<lambda>nnl.
              if unat nnl = al_name_len then
                bind_result (al_name_offset al nx) (\<lambda>nno.
                  ntfs_are_names_equal (chars_at al (nx + unat nno)) (unat nnl) al_name al_name_len CASE_SENSITIVE up (length up))
              else Ok False)
            else Ok False)
          else Ok False)
        else Ok False)
      else Ok False)"

text \<open>The list entry \<open>e\<close> with end \<open>nx\<close> against the wanted type, name and lowest vcn.\<close>

definition al_verdict ::
    "ntfschar list \<Rightarrow> nat \<Rightarrow> ntfschar list option \<Rightarrow> nat \<Rightarrow> IGNORE_CASE_BOOL \<Rightarrow> int \<Rightarrow> u8 list \<Rightarrow> nat \<Rightarrow>
     nat \<Rightarrow> nat \<Rightarrow> verdict result" where
  "al_verdict up type name name_len ic lowest_vcn al al_end e nx =
     bind_result (al_type al e) (\<lambda>t.
     if t > type then Ok No_such
     else if t \<noteq> type then Ok Continue
     else
       bind_result (al_name_length al e) (\<lambda>nl.
       bind_result (al_name_offset al e) (\<lambda>no.
       let al_name = chars_at al (e + unat no) in
       bind_result (al_name_verdict up name name_len ic al_name (unat nl)) (\<lambda>v.
       if v \<noteq> Match then Ok v
       else
         bind_result (next_entry_fits up al al_end lowest_vcn t al_name (unat nl) nx) (\<lambda>fits.
         Ok (if fits then Continue else Match))))))"

datatype al_outcome = Al_Found | Al_Not_found | Al_Corrupt

text \<open>
  The loop over the list entries up to the entry that is wanted; \<open>cur\<close> is \<^verbatim>\<open>ctx->al_entry\<close>. Returns how
  the loop is left and the final \<^verbatim>\<open>ctx->al_entry\<close>.
\<close>

function al_find_loop ::
    "ntfschar list \<Rightarrow> nat \<Rightarrow> ntfschar list option \<Rightarrow> nat \<Rightarrow> IGNORE_CASE_BOOL \<Rightarrow> int \<Rightarrow> u8 list \<Rightarrow> nat \<Rightarrow>
     nat \<Rightarrow> nat \<Rightarrow> (al_outcome \<times> nat) result" where
  "al_find_loop up type name name_len ic lowest_vcn al al_end cur e =
     (if e > al_end then Ok (Al_Corrupt, cur)
      else if e = al_end then Ok (Al_Not_found, e)
      else
        bind_result (al_length al e) (\<lambda>len.
        if len = 0 then Ok (Al_Corrupt, e)
        else if e + 6 > al_end \<or> e + len > al_end then Ok (Al_Corrupt, e)
        else
          bind_result (al_verdict up type name name_len ic lowest_vcn al al_end e (e + len)) (\<lambda>v.
          if v = Match then Ok (Al_Found, e)
          else if v = No_such then Ok (Al_Not_found, e)
          else al_find_loop up type name name_len ic lowest_vcn al al_end e (e + len))))"
  by pat_completeness auto

termination
  by (relation "measure (\<lambda>(up, type, name, name_len, ic, lowest_vcn, al, al_end, cur, e). al_end + 1 - e)") auto

declare al_find_loop.simps [simp del]

text \<open>
  Switching to the mft record the list entry \<open>e\<close> refers to. \<open>Inl (err, ni)\<close> leaves the search with that
  error and value of the local variable \<^verbatim>\<open>ni\<close>, whose \<^verbatim>\<open>NULL\<close> is \<open>None\<close>.
\<close>

definition al_switch_record ::
    "kernel \<Rightarrow> nat \<Rightarrow> u8 list \<Rightarrow> nat \<Rightarrow> ntfs_attr_search_ctx \<Rightarrow> mft_store \<Rightarrow>
     ((errno \<times> nat option + ntfs_attr_search_ctx) \<times> mft_store) result" where
  "al_switch_record k base al e ctx st =
     bind_result (al_mft_reference al e) (\<lambda>mref.
     bind_result (deref st (sc_ntfs_ino ctx)) (\<lambda>ni.
     if MREF mref = ni_mft_no ni then
       (if MSEQNO mref \<noteq> ni_seq_no ni then Ok (Inl (EIO, Some (sc_ntfs_ino ctx)), st) else Ok (Inr ctx, st))
     else
       bind_result (if sc_ntfs_ino ctx \<noteq> base then unmap_extent_mft_record (sc_ntfs_ino ctx) st else Ok st) (\<lambda>st.
       bind_result (deref st base) (\<lambda>bni.
       if MREF mref = ni_mft_no bni then
         case sc_base_mrec ctx of
           None \<Rightarrow> Oob
         | Some bm \<Rightarrow>
             bind_result (m_attrs_offset bm) (\<lambda>ofs.
               Ok (Inr (ctx\<lparr>sc_ntfs_ino := base, sc_mrec := bm, sc_attr := ofs\<rparr>), st))
       else
         bind_result (map_extent_mft_record k base mref st) (\<lambda>(r, st).
         case r of
           Inl err \<Rightarrow> Ok (Inl (if err = ENOENT then EIO else err, None), st)
         | Inr (m, ni) \<Rightarrow>
             bind_result (m_attrs_offset m) (\<lambda>ofs.
               Ok (Inr (ctx\<lparr>sc_mrec := m, sc_ntfs_ino := ni, sc_attr := ofs\<rparr>), st)))))))"

text \<open>
  The loop over the attributes of that record up to the one with the instance number of the list
  entry. Returns whether it was found, and \<^verbatim>\<open>ctx->attr\<close>.
\<close>

definition value_matches :: "u8 list option \<Rightarrow> nat \<Rightarrow> u8 list \<Rightarrow> nat \<Rightarrow> bool result" where
  "value_matches val val_len m a =
     (case val of
        None \<Rightarrow> Ok True
      | Some v \<Rightarrow>
          bind_result (a_non_resident m a) (\<lambda>nr.
          if nr \<noteq> 0 then Ok False
          else
            bind_result (a_value_length m a) (\<lambda>avl.
            if avl \<noteq> val_len then Ok False
            else
              bind_result (a_value_offset m a) (\<lambda>vo.
              bind_result (memcmp (drop (a + vo) m) v val_len) (\<lambda>rc. Ok (rc = 0))))))"

function instance_loop ::
    "ntfschar list \<Rightarrow> u8 list \<Rightarrow> nat \<Rightarrow> u8 list option \<Rightarrow> nat \<Rightarrow> u8 list \<Rightarrow> nat \<Rightarrow> nat \<Rightarrow> (bool \<times> nat) result" where
  "instance_loop up al e val val_len m cur a =
     bind_result (m_bytes_allocated m) (\<lambda>ba.
     if a > ba then Ok (False, cur)
     else
       bind_result (a_type m a) (\<lambda>t.
       if t = AT_END then Ok (False, cur)
       else
         bind_result (a_length m a) (\<lambda>len.
         if len = 0 then Ok (False, cur)
         else
           bind_result (al_instance al e) (\<lambda>ei.
           bind_result (a_instance m a) (\<lambda>ai.
           if ei \<noteq> ai then instance_loop up al e val val_len m cur (a + len)
           else
             bind_result (al_type al e) (\<lambda>et.
             if et \<noteq> t then Ok (False, cur)
             else
               bind_result (a_name_offset m a) (\<lambda>no.
               bind_result (a_name_length m a) (\<lambda>nl.
               bind_result (al_name_offset al e) (\<lambda>eno.
               bind_result (al_name_length al e) (\<lambda>enl.
               bind_result (ntfs_are_names_equal (chars_at m (a + no)) (unat nl) (chars_at al (e + unat eno)) (unat enl)
                   CASE_SENSITIVE up (length up)) (\<lambda>eq.
               if \<not> eq then Ok (False, cur)
               else
                 bind_result (value_matches val val_len m a) (\<lambda>vm.
                 if vm then Ok (True, a)
                 else instance_loop up al e val val_len m a (a + len)))))))))))))"
  by pat_completeness auto

termination
  by (relation "measure (\<lambda>(up, al, e, val, val_len, m, cur, a).
        case m_bytes_allocated m of Ok ba \<Rightarrow> ba + 1 - a | _ \<Rightarrow> 0)") auto

declare instance_loop.simps [simp del]

text \<open>Leaving the search with an error: the context goes back to the base record.\<close>

definition al_error_exit ::
    "nat \<Rightarrow> errno \<Rightarrow> nat option \<Rightarrow> ntfs_attr_search_ctx \<Rightarrow> mft_store \<Rightarrow> search_result" where
  "al_error_exit base err ni ctx st =
     bind_result
       (if ni \<noteq> Some base then
          bind_result (case ni of Some p \<Rightarrow> unmap_extent_mft_record p st | None \<Rightarrow> Ok st) (\<lambda>st.
          case (sc_base_mrec ctx, sc_base_attr ctx) of
            (Some bm, Some ba) \<Rightarrow> Ok (ctx\<lparr>sc_ntfs_ino := base, sc_mrec := bm, sc_attr := ba\<rparr>, st)
          | _ \<Rightarrow> Oob)
        else Ok (ctx, st)) (\<lambda>(ctx, st).
     Ok (Some err, ctx, if err \<noteq> ENOMEM then st\<lparr>ms_vol := NVolSet NV_Errors (ms_vol st)\<rparr> else st))"

text \<open>
  Repeating the search in the base record until it fails. It ends because every search starts behind
  the attribute the previous one has found.
\<close>

lemma attr_find_loop_found:
  assumes "attr_find_loop up type name name_len ic val val_len m cur a = Ok (None, at)"
  shows "a \<le> at \<and> (\<exists>ba len. m_bytes_allocated m = Ok ba \<and> at \<le> ba \<and> a_length m at = Ok len \<and> 0 < len)"
  using assms
proof (induction up type name name_len ic val val_len m cur a rule: attr_find_loop.induct)
  case (1 up type name name_len ic val val_len m cur a)
  from "1.prems" obtain ba t len v where
    s: "m_bytes_allocated m = Ok ba" "\<not> ba < a" "a_type m a = Ok t" "\<not> (type < t \<or> t = AT_END)"
      "a_length m a = Ok len" "len \<noteq> 0" "attr_verdict up type name name_len ic val val_len m a t = Ok v"
      "at = a \<or> v \<noteq> Match \<and> v \<noteq> No_such \<and> attr_find_loop up type name name_len ic val val_len m a (a + len) = Ok (None, at)"
    by (subst (asm) attr_find_loop.simps) (auto simp: outcome_simps split: if_splits)
  then show ?case using "1.IH" [OF s(1-7)] by fastforce
qed

lemma attr_find_progress:
  assumes "ntfs_attr_find type name name_len ic val val_len ctx st = Ok (None, ctx', st')"
  shows "\<exists>ba. m_bytes_allocated (sc_mrec ctx) = Ok ba \<and> sc_attr ctx' \<le> ba \<and> sc_mrec ctx' = sc_mrec ctx \<and> \<not> sc_is_first ctx' \<and>
    (if sc_is_first ctx then sc_attr ctx \<le> sc_attr ctx' else sc_attr ctx < sc_attr ctx')"
proof -
  let ?m = "sc_mrec ctx"
  from assms obtain a at where
    a: "(if sc_is_first ctx then Ok (sc_attr ctx) else bind_result (a_length ?m (sc_attr ctx)) (\<lambda>len. Ok (sc_attr ctx + len))) = Ok a"
    and l: "attr_find_loop (upcase (ms_vol st)) type name name_len ic val val_len ?m (sc_attr ctx) a = Ok (None, at)"
    and c: "ctx' = ctx\<lparr>sc_is_first := False, sc_attr := at\<rparr>"
    by (auto simp: ntfs_attr_find_def outcome_simps)
  from attr_find_loop_found [OF l] obtain ba len
    where at: "a \<le> at" "m_bytes_allocated ?m = Ok ba" "at \<le> ba" "a_length ?m at = Ok len" "0 < len" by blast
  have "sc_attr ctx < at" if nf: "\<not> sc_is_first ctx"
  proof -
    obtain len0 where "a_length ?m (sc_attr ctx) = Ok len0" "a = sc_attr ctx + len0"
      using a nf by (auto simp: outcome_simps)
    then show ?thesis using at by (cases "at = sc_attr ctx") auto
  qed
  then show ?thesis using a at c by (auto split: if_splits)
qed

function find_until_err ::
    "nat \<Rightarrow> ntfschar list option \<Rightarrow> nat \<Rightarrow> IGNORE_CASE_BOOL \<Rightarrow> u8 list option \<Rightarrow> nat \<Rightarrow>
     ntfs_attr_search_ctx \<Rightarrow> mft_store \<Rightarrow> search_result" where
  "find_until_err type name name_len ic val val_len ctx st =
     bind_result (ntfs_attr_find type name name_len ic val val_len ctx st) (\<lambda>(err, ctx, st).
     if err = None then find_until_err type name name_len ic val val_len ctx st else Ok (err, ctx, st))"
  by pat_completeness auto

termination
proof (relation "measure (\<lambda>(type, name, name_len, ic, val, val_len, ctx, st).
    case m_bytes_allocated (sc_mrec ctx) of Ok ba \<Rightarrow> 2 * (ba + 1 - sc_attr ctx) + (if sc_is_first ctx then 1 else 0) | _ \<Rightarrow> 0)")
  fix type name name_len ic val val_len ctx st r err r' ctx' st'
  assume "ntfs_attr_find type name name_len ic val val_len ctx st = Ok r" "(err, r') = r" "(ctx', st') = r'" "err = None"
  then have "ntfs_attr_find type name name_len ic val val_len ctx st = Ok (None, ctx', st')" by auto
  from attr_find_progress [OF this]
  show "((type, name, name_len, ic, val, val_len, ctx', st'), type, name, name_len, ic, val, val_len, ctx, st) \<in>
    measure (\<lambda>(type, name, name_len, ic, val, val_len, ctx, st).
    case m_bytes_allocated (sc_mrec ctx) of Ok ba \<Rightarrow> 2 * (ba + 1 - sc_attr ctx) + (if sc_is_first ctx then 1 else 0) | _ \<Rightarrow> 0)"
    by (auto split: if_splits)
qed simp

declare find_until_err.simps [simp del]

text \<open>The label \<^verbatim>\<open>not_found\<close>.\<close>

definition al_not_found ::
    "nat \<Rightarrow> nat \<Rightarrow> ntfschar list option \<Rightarrow> nat \<Rightarrow> IGNORE_CASE_BOOL \<Rightarrow> u8 list option \<Rightarrow> nat \<Rightarrow>
     ntfs_attr_search_ctx \<Rightarrow> mft_store \<Rightarrow> search_result" where
  "al_not_found base type name name_len ic val val_len ctx st =
     (if type = AT_END then
        bind_result (ntfs_attr_reinit_search_ctx ctx st) (\<lambda>(ctx, st).
          ntfs_attr_find AT_END name name_len ic val val_len ctx st)
      else
        bind_result (if sc_ntfs_ino ctx \<noteq> base then unmap_extent_mft_record (sc_ntfs_ino ctx) st else Ok st) (\<lambda>st.
        case sc_base_mrec ctx of
          None \<Rightarrow> Oob
        | Some bm \<Rightarrow>
            bind_result (m_attrs_offset bm) (\<lambda>ofs.
              find_until_err type name name_len ic val val_len
                (ctx\<lparr>sc_mrec := bm, sc_attr := ofs, sc_is_first := True, sc_ntfs_ino := base,
                     sc_base_ntfs_ino := None, sc_base_mrec := None, sc_base_attr := None\<rparr>) st)))"

text \<open>The start of a search: which record is the base, and the first list entry to look at.\<close>

definition al_set_base :: "ntfs_attr_search_ctx \<Rightarrow> nat \<times> ntfs_attr_search_ctx" where
  "al_set_base ctx =
     (let (base, ctx) = (case sc_base_ntfs_ino ctx of
          Some base \<Rightarrow> (base, ctx)
        | None \<Rightarrow> (sc_ntfs_ino ctx, ctx\<lparr>sc_base_ntfs_ino := Some (sc_ntfs_ino ctx), sc_base_mrec := Some (sc_mrec ctx)\<rparr>))
      in (base, if sc_ntfs_ino ctx = base then ctx\<lparr>sc_base_attr := Some (sc_attr ctx)\<rparr> else ctx))"

definition al_first_entry :: "u8 list \<Rightarrow> ntfs_attr_search_ctx \<Rightarrow> (nat \<times> nat) result" where
  "al_first_entry al ctx =
     (let cur = (case sc_al_entry ctx of None \<Rightarrow> 0 | Some e \<Rightarrow> e) in
      if sc_is_first ctx then Ok (cur, cur)
      else bind_result (al_length al cur) (\<lambda>len. Ok (cur, cur + len)))"

definition ntfs_external_attr_find ::
    "kernel \<Rightarrow> nat \<Rightarrow> ntfschar list option \<Rightarrow> nat \<Rightarrow> IGNORE_CASE_BOOL \<Rightarrow> int \<Rightarrow> u8 list option \<Rightarrow> nat \<Rightarrow>
     ntfs_attr_search_ctx \<Rightarrow> mft_store \<Rightarrow> search_result" where
  "ntfs_external_attr_find k type name name_len ic lowest_vcn val val_len ctx st =
     (let (base, ctx) = al_set_base ctx in
      if type = AT_END then al_not_found base type name name_len ic val val_len ctx st
      else
        bind_result (deref st base) (\<lambda>bni.
        let al = (case ni_attr_list bni of None \<Rightarrow> [] | Some al \<Rightarrow> al);
            up = upcase (ms_vol st) in
        bind_result (al_first_entry al ctx) (\<lambda>(cur, e).
        bind_result (al_find_loop up type name name_len ic lowest_vcn al (ni_attr_list_size bni) cur e) (\<lambda>(r, e).
        let ctx = ctx\<lparr>sc_is_first := False, sc_al_entry := Some e\<rparr> in
        case r of
          Al_Not_found \<Rightarrow> al_not_found base type name name_len ic val val_len ctx st
        | Al_Corrupt \<Rightarrow> al_error_exit base EIO (Some (sc_ntfs_ino ctx)) ctx st
        | Al_Found \<Rightarrow>
            bind_result (al_switch_record k base al e ctx st) (\<lambda>(sw, st).
            case sw of
              Inl (err, ni) \<Rightarrow> al_error_exit base err ni ctx st
            | Inr ctx \<Rightarrow>
                bind_result (instance_loop up al e val val_len (sc_mrec ctx) (sc_attr ctx) (sc_attr ctx)) (\<lambda>(found, at).
                let ctx = ctx\<lparr>sc_attr := at\<rparr> in
                if found then Ok (None, ctx, st)
                else al_error_exit base EIO (Some (sc_ntfs_ino ctx)) ctx st))))))"

definition ntfs_attr_lookup ::
    "kernel \<Rightarrow> nat \<Rightarrow> ntfschar list option \<Rightarrow> nat \<Rightarrow> IGNORE_CASE_BOOL \<Rightarrow> int \<Rightarrow> u8 list option \<Rightarrow> nat \<Rightarrow>
     ntfs_attr_search_ctx \<Rightarrow> mft_store \<Rightarrow> search_result" where
  "ntfs_attr_lookup k type name name_len ic lowest_vcn val val_len ctx st =
     (let base = (case sc_base_ntfs_ino ctx of Some b \<Rightarrow> b | None \<Rightarrow> sc_ntfs_ino ctx) in
      bind_result (deref st base) (\<lambda>bni.
      if \<not> NIno NI_AttrList bni \<or> type = AT_ATTRIBUTE_LIST
      then ntfs_attr_find type name name_len ic val val_len ctx st
      else ntfs_external_attr_find k type name name_len ic lowest_vcn val val_len ctx st))"

section \<open>Attributes in order\<close>

text \<open>Names collate by their upcased characters first, and by the characters themselves second.\<close>

definition name_cmp :: "ntfschar list \<Rightarrow> ntfschar list \<Rightarrow> ntfschar list \<Rightarrow> int" where
  "name_cmp up x y =
     (let c = lexcmp (folded IGNORE_CASE up (length up) x) (folded IGNORE_CASE up (length up) y) in
      if c = 0 then lexcmp x y else c)"

definition key_cmp :: "ntfschar list \<Rightarrow> nat \<times> ntfschar list \<Rightarrow> nat \<times> ntfschar list \<Rightarrow> int" where
  "key_cmp up x y = (if fst x < fst y then - 1 else if fst y < fst x then 1 else name_cmp up (snd x) (snd y))"

lemma lexcmp_refl [simp]: "lexcmp x x = 0"
  by (simp add: lexcmp_0)

lemma lexcmp_range: "lexcmp x y = - 1 \<or> lexcmp x y = 0 \<or> lexcmp x y = 1"
  by (induction x y rule: lexcmp.induct) auto

lemma name_cmp_0: "name_cmp up x y = 0 \<longleftrightarrow> x = y"
  by (auto simp: name_cmp_def Let_def lexcmp_0)

lemma key_cmp_0: "key_cmp up x y = 0 \<longleftrightarrow> x = y"
  by (auto simp: key_cmp_def name_cmp_0 prod_eq_iff)

interpretation keys: collation "\<lambda>x. True" "key_cmp up" for up
proof
  fix x y z :: "nat \<times> ntfschar list"
  show "key_cmp up y x = - key_cmp up x y"
    by (auto simp: key_cmp_def name_cmp_def Let_def lexcmp_sym [of "snd y"]
        lexcmp_sym [of "folded IGNORE_CASE up (length up) (snd y)"])
  show "key_cmp up x z < 0" if "key_cmp up x y < 0" "key_cmp up y z < 0"
    using that lexcmp_trans [of "snd x" "snd y" "snd z"]
      lexcmp_trans [of "folded IGNORE_CASE up (length up) (snd x)" "folded IGNORE_CASE up (length up) (snd y)"
        "folded IGNORE_CASE up (length up) (snd z)"]
    by (auto simp: key_cmp_def name_cmp_def Let_def lexcmp_0 split: if_splits)
  show "key_cmp up x z < 0 \<longleftrightarrow> key_cmp up y z < 0" if "key_cmp up x y = 0"
    using that by (simp add: key_cmp_0)
qed


text \<open>The records that follow each other from \<open>a\<close> on, up to the end marker at \<open>e\<close>.\<close>

fun attr_chain :: "u8 list \<Rightarrow> nat \<Rightarrow> nat list \<Rightarrow> nat \<Rightarrow> bool" where
  "attr_chain m a [] e \<longleftrightarrow> a = e \<and> a_type m e = Ok AT_END"
| "attr_chain m a (x # xs) e \<longleftrightarrow>
     a = x \<and> x < e \<and> (\<exists>t len. a_type m x = Ok t \<and> t \<noteq> AT_END \<and> a_length m x = Ok len \<and> 0 < len \<and> attr_chain m (x + len) xs e)"

definition attr_key :: "u8 list \<Rightarrow> nat \<Rightarrow> nat \<times> ntfschar list" where
  "attr_key m x =
     (case (a_type m x, a_name_length m x, a_name_offset m x) of
        (Ok t, Ok nl, Ok no) \<Rightarrow> (t, take (unat nl) (chars_at m (x + no)))
      | _ \<Rightarrow> (0, []))"

text \<open>A name that lies inside the record and contains no NUL, and a legal name without NUL to search for.\<close>

definition attr_named :: "ntfschar list \<Rightarrow> u8 list \<Rightarrow> nat \<Rightarrow> bool" where
  "attr_named up m x \<longleftrightarrow>
     (\<exists>nl no. a_name_length m x = Ok nl \<and> a_name_offset m x = Ok no \<and> unat nl \<le> length (chars_at m (x + no))) \<and>
     0 \<notin> set (snd (attr_key m x))"

definition search_name :: "ntfschar list \<Rightarrow> ntfschar list option \<Rightarrow> nat \<Rightarrow> ntfschar list \<Rightarrow> bool" where
  "search_name up name name_len nm \<longleftrightarrow>
     (case name of
        None \<Rightarrow> nm = []
      | Some b \<Rightarrow> name_len \<le> length b \<and> nm = take name_len b) \<and>
     0 \<notin> set nm \<and> legal_name IGNORE_CASE up (length up) nm"

lemma folded_case_sensitive [simp]: "folded CASE_SENSITIVE up n x = x"
  by (simp add: folded_def folded_char_def map_idI)

lemma legal_case_sensitive: "legal_name IGNORE_CASE up n x \<Longrightarrow> legal_name CASE_SENSITIVE up n x"
  by (auto simp: legal_name_def folded_char_def list_all_iff)

lemma name_verdict_eq:
  assumes "n1 \<le> length b1" and "n2 \<le> length b2" and "0 \<notin> set (take n1 b1)" and "0 \<notin> set (take n2 b2)"
    and "legal_name IGNORE_CASE up (length up) (take n1 b1)"
  shows "name_verdict up b1 n1 CASE_SENSITIVE b2 n2 =
    (let c = name_cmp up (take n1 b1) (take n2 b2) in Ok (if c = 0 then Match else if c < 0 then No_such else Continue))"
proof -
  let ?x = "take n1 b1" and ?y = "take n2 b2"
  let ?f = "folded IGNORE_CASE up (length up)"
  have e: "ntfs_are_names_equal b1 n1 b2 n2 CASE_SENSITIVE up (length up) = Ok (?x = ?y)"
    using are_names_equal_folded [of "length up" up n1 b1 n2 b2 CASE_SENSITIVE] assms by simp
  have i: "ntfs_collate_names b1 n1 b2 n2 1 IGNORE_CASE up (length up) = Ok (lexcmp (?f ?x) (?f ?y))"
    using collate_names_lexcmp assms by simp
  have c: "ntfs_collate_names b1 n1 b2 n2 1 CASE_SENSITIVE up (length up) = Ok (lexcmp ?x ?y)"
    using collate_names_lexcmp [of "length up" up n1 b1 n2 b2 CASE_SENSITIVE 1] legal_case_sensitive assms by simp
  show ?thesis
  proof (cases "?x = ?y")
    case True
    then show ?thesis using e by (simp add: name_verdict_def name_cmp_def)
  next
    case False
    then show ?thesis using e i c lexcmp_range [of "?f ?x" "?f ?y"] lexcmp_range [of ?x ?y] lexcmp_0 [of ?x ?y]
      unfolding name_verdict_def name_cmp_def Let_def by auto
  qed
qed

lemma attr_name_verdict_eq:
  assumes "attr_named up m x" and "a_type m x = Ok t" and "search_name up name name_len nm"
  shows "attr_name_verdict up name name_len CASE_SENSITIVE m x =
    (let c = name_cmp up nm (snd (attr_key m x)) in Ok (if c = 0 then Match else if c < 0 then No_such else Continue))"
proof -
  obtain nl no where n: "a_name_length m x = Ok nl" "a_name_offset m x = Ok no" "unat nl \<le> length (chars_at m (x + no))"
    using assms(1) by (auto simp: attr_named_def)
  then have k: "attr_key m x = (t, take (unat nl) (chars_at m (x + no)))" using assms(2) by (simp add: attr_key_def)
  show ?thesis
  proof (cases name)
    case None
    then have "nm = []" using assms(3) by (simp add: search_name_def)
    moreover have "snd (attr_key m x) = [] \<longleftrightarrow> nl = 0" using n(3) k by (auto simp: unat_eq_0)
    ultimately show ?thesis using None n
      by (auto simp: attr_name_verdict_def name_cmp_def folded_def lexcmp_Nil Let_def)
  next
    case (Some b)
    then show ?thesis
      using name_verdict_eq [of name_len b "unat nl" "chars_at m (x + no)" up] n k assms(1,3)
      by (auto simp: attr_name_verdict_def search_name_def attr_named_def)
  qed
qed


text \<open>The search stops at the first attribute whose key is not less than the wanted one.\<close>

fun first_ge :: "ntfschar list \<Rightarrow> nat \<times> ntfschar list \<Rightarrow> u8 list \<Rightarrow> nat list \<Rightarrow> nat \<Rightarrow> errno option \<times> nat" where
  "first_ge up key m [] e = (Some ENOENT, e)"
| "first_ge up key m (x # xs) e =
     (if key_cmp up key (attr_key m x) = 0 then (None, x)
      else if key_cmp up key (attr_key m x) < 0 then (Some ENOENT, x)
      else first_ge up key m xs e)"

lemma attr_find_loop_eq:
  assumes "attr_chain m a xs e" and "m_bytes_allocated m = Ok ba" and "e \<le> ba" and "\<forall>x\<in>set xs. attr_named up m x"
    and "search_name up name name_len nm"
  shows "attr_find_loop up type name name_len CASE_SENSITIVE None val_len m cur a = Ok (first_ge up (type, nm) m xs e)"
  using assms(1,4)
proof (induction xs arbitrary: a cur)
  case Nil
  then show ?case using assms(2,3) by (simp add: attr_find_loop.simps)
next
  case (Cons x xs)
  then obtain t len where x: "a = x" "x < e" "a_type m x = Ok t" "t \<noteq> AT_END" "a_length m x = Ok len" "0 < len"
      "attr_chain m (x + len) xs e" by auto
  have named: "attr_named up m x" using Cons.prems(2) by simp
  have k: "fst (attr_key m x) = t" using named x(3) by (auto simp: attr_named_def attr_key_def)
  have IH: "attr_find_loop up type name name_len CASE_SENSITIVE None val_len m x (x + len) = Ok (first_ge up (type, nm) m xs e)"
    using Cons.IH [OF x(7)] Cons.prems(2) by simp
  have v: "attr_verdict up type name name_len CASE_SENSITIVE None val_len m x t =
      (if t \<noteq> type then Ok Continue
       else let c = name_cmp up nm (snd (attr_key m x)) in Ok (if c = 0 then Match else if c < 0 then No_such else Continue))"
    using attr_name_verdict_eq [OF named x(3) assms(5)] by (simp add: attr_verdict_def attr_value_verdict_def Let_def)
  have "attr_find_loop up type name name_len CASE_SENSITIVE None val_len m cur x =
      (if type < t then Ok (Some ENOENT, x)
       else bind_result (attr_verdict up type name name_len CASE_SENSITIVE None val_len m x t) (\<lambda>v.
         if v = Match then Ok (None, x) else if v = No_such then Ok (Some ENOENT, x)
         else Ok (first_ge up (type, nm) m xs e)))"
    using x(2-7) assms(2,3) by (subst attr_find_loop.simps) (simp add: IH cong: if_cong)
  then show ?case unfolding v x(1) using k by (simp add: key_cmp_def Let_def)
qed

text \<open>
  C8. Searching an mft record. For a record whose attributes follow each other up to the end marker
  inside the allocated part and are sorted by type and name, a search from the first attribute on
  returns, finding an attribute exactly if one has the wanted type and name, and then the first one.
  Otherwise it reports \<open>ENOENT\<close> and leaves the context at the place where the attribute would have to be
  inserted: all attributes in front of it are smaller and all from there on are greater. The
  store is left alone.
\<close>

theorem attr_find_correct:
  assumes "attr_chain m a xs e" and "m_bytes_allocated m = Ok ba" and "e \<le> ba"
    and "\<forall>x\<in>set xs. attr_named (upcase (ms_vol st)) m x"
    and "sorted_wrt (\<lambda>x y. key_cmp (upcase (ms_vol st)) (attr_key m x) (attr_key m y) \<le> 0) xs"
    and "search_name (upcase (ms_vol st)) name name_len nm"
    and "sc_mrec ctx = m" and "sc_attr ctx = a" and "sc_is_first ctx" and "ms_inodes st (sc_ntfs_ino ctx) \<noteq> None"
  shows "\<exists>xs1 xs2 at. xs = xs1 @ xs2 \<and> at = hd (xs2 @ [e]) \<and>
    (\<forall>x\<in>set xs1. key_cmp (upcase (ms_vol st)) (attr_key m x) (type, nm) < 0) \<and>
    (\<forall>x\<in>set xs2. key_cmp (upcase (ms_vol st)) (type, nm) (attr_key m x) \<le> 0) \<and>
    ntfs_attr_find type name name_len CASE_SENSITIVE None val_len ctx st =
      Ok (if (type, nm) \<in> attr_key m ` set xs then None else Some ENOENT,
          ctx\<lparr>sc_is_first := False, sc_attr := at\<rparr>, st)"
proof -
  let ?up = "upcase (ms_vol st)" and ?k = "(type, nm)"
  let ?c = "\<lambda>x. key_cmp ?up ?k (attr_key m x)"
  define xs1 where "xs1 = takeWhile (\<lambda>x. 0 < ?c x) xs"
  define xs2 where "xs2 = dropWhile (\<lambda>x. 0 < ?c x) xs"
  have xs: "xs = xs1 @ xs2" by (simp add: xs1_def xs2_def)
  have l: "\<forall>x\<in>set xs1. key_cmp ?up (attr_key m x) ?k < 0"
    using keys.cmp_sym [where up = ?up and x = ?k] by (auto simp: xs1_def dest!: set_takeWhileD)
  have g: "\<forall>x\<in>set xs2. ?c x \<le> 0"
  proof (cases xs2)
    case (Cons y ys)
    then have y: "?c y \<le> 0" by (metis dropWhile_eq_Cons_conv linorder_not_le xs2_def)
    have "\<forall>x\<in>set ys. key_cmp ?up (attr_key m y) (attr_key m x) \<le> 0" using assms(5) unfolding xs Cons by (simp add: sorted_wrt_append)
    moreover have "?c x \<le> 0" if "key_cmp ?up (attr_key m y) (attr_key m x) \<le> 0" for x
    proof (cases "attr_key m y = attr_key m x")
      case False
      then have "key_cmp ?up (attr_key m y) (attr_key m x) < 0" using that key_cmp_0 [of ?up "attr_key m y" "attr_key m x"] by linarith
      then show ?thesis using keys.cmp_le_trans [OF TrueI TrueI TrueI y] by (simp add: less_imp_le)
    qed (use y in simp)
    ultimately show ?thesis using y Cons by simp
  qed simp
  have fg: "first_ge ?up ?k m xs e = (if xs2 \<noteq> [] \<and> ?c (hd xs2) = 0 then None else Some ENOENT, hd (xs2 @ [e]))"
    unfolding xs2_def by (induction xs) (auto simp: not_less le_less)
  have mem: "?k \<in> attr_key m ` set xs \<longleftrightarrow> xs2 \<noteq> [] \<and> ?c (hd xs2) = 0"
  proof
    assume "?k \<in> attr_key m ` set xs"
    then obtain x where x: "x \<in> set xs" "attr_key m x = ?k" by auto
    then have "x \<notin> set xs1" using l keys.cmp_refl [where up = ?up] by auto
    then have "x \<in> set xs2" using x(1) xs by auto
    then obtain y ys where xs2: "xs2 = y # ys" by (cases xs2) auto
    have "key_cmp ?up (attr_key m y) ?k \<le> 0"
      using \<open>x \<in> set xs2\<close> x(2) assms(5) keys.cmp_refl [where up = ?up] unfolding xs xs2 by (auto simp: sorted_wrt_append)
    moreover have "?c y \<le> 0" using g xs2 by simp
    ultimately have "?c y = 0" using keys.cmp_sym [where up = ?up and x = ?k and y = "attr_key m y"] by simp
    then show "xs2 \<noteq> [] \<and> ?c (hd xs2) = 0" using xs2 by simp
  qed (auto simp: key_cmp_0 xs)
  have "ntfs_attr_find type name name_len CASE_SENSITIVE None val_len ctx st =
      Ok (if ?k \<in> attr_key m ` set xs then None else Some ENOENT, ctx\<lparr>sc_is_first := False, sc_attr := hd (xs2 @ [e])\<rparr>, st)"
    using attr_find_loop_eq [OF assms(1-4,6), of type val_len a] assms(7-10)
    unfolding mem by (auto simp: ntfs_attr_find_def fg)
  then show ?thesis using xs l g by blast
qed


text \<open>A record with two unnamed attributes of types 0x30 and 0x80 and its search context.\<close>

definition small_mrec :: "u8 list" where
  "small_mrec = replicate 20 0 @ [32, 0] @ replicate 6 0 @ [68, 0, 0, 0] @
     [0x30, 0, 0, 0, 16, 0, 0, 0, 0, 0, 0, 0, 0, 0, 0, 0] @
     [0x80, 0, 0, 0, 16, 0, 0, 0, 0, 0, 0, 0, 0, 0, 0, 0] @ [255, 255, 255, 255]"

definition small_ctx :: ntfs_attr_search_ctx where
  "small_ctx = \<lparr>sc_mrec = small_mrec, sc_attr = 32, sc_is_first = True, sc_ntfs_ino = 1, sc_al_entry = None,
     sc_base_ntfs_ino = None, sc_base_mrec = None, sc_base_attr = None\<rparr>"

lemma small_mrec_end: "a_type small_mrec 64 = Ok AT_END"
  by (simp add: small_mrec_def a_type_def rd_le_def rd_bytes_def AT_END_def)

lemma small_mrec_fields:
  "m_attrs_offset small_mrec = Ok 32" "m_bytes_allocated small_mrec = Ok 68" "a_type small_mrec 32 = Ok 0x30" "a_length small_mrec 32 = Ok 16"
  "a_type small_mrec 48 = Ok 0x80" "a_length small_mrec 48 = Ok 16"
  "a_name_length small_mrec 32 = Ok 0" "a_name_offset small_mrec 32 = Ok 0"
  "a_name_length small_mrec 48 = Ok 0" "a_name_offset small_mrec 48 = Ok 0"
  by code_simp+

lemma small_mrec_sorted:
  "attr_chain small_mrec 32 [32, 48] 64" "attr_key small_mrec 32 = (0x30, [])" "attr_key small_mrec 48 = (0x80, [])"
  by (simp_all add: small_mrec_end small_mrec_fields AT_END_def attr_key_def)

theorem attr_find_correct_witness:
  "\<exists>xs1 xs2 at. [32, 48] = xs1 @ xs2 \<and> at = hd (xs2 @ [64]) \<and>
    list_all (\<lambda>x. key_cmp [] (attr_key small_mrec x) (0x80, []) < 0) xs1 \<and>
    list_all (\<lambda>x. key_cmp [] (0x80, []) (attr_key small_mrec x) \<le> 0) xs2 \<and>
    ntfs_attr_find 0x80 None 0 CASE_SENSITIVE None 0 small_ctx example_store =
      Ok (None, small_ctx\<lparr>sc_is_first := False, sc_attr := at\<rparr>, example_store)"
proof -
  have v: "upcase (ms_vol example_store) = []" "ms_inodes example_store 1 \<noteq> None"
    by (simp_all add: example_store_def zero_volume_def)
  have s: "search_name [] None 0 []" by (simp add: search_name_def legal_name_def)
  have n: "\<forall>x\<in>set [32, 48]. attr_named [] small_mrec x"
    by (simp add: attr_named_def small_mrec_sorted small_mrec_fields)
  have o: "sorted_wrt (\<lambda>x y. key_cmp [] (attr_key small_mrec x) (attr_key small_mrec y) \<le> 0) [32, 48]"
    by (simp add: small_mrec_sorted key_cmp_def)
  show ?thesis
    using attr_find_correct [where st = example_store and ctx = small_ctx and type = "0x80" and val_len = 0 and name = None,
        unfolded v(1), OF small_mrec_sorted(1) small_mrec_fields(2) _ n o s] v(2)
    by (simp add: small_ctx_def small_mrec_sorted list_all_iff)
qed

section \<open>Reading behind the end\<close>

text \<open>
  From \<open>pos\<close> on the record \<open>m\<close> is filled up by attributes at the positions \<open>xs\<close>, all of a smaller type than \<open>type\<close>,
  without an end marker.
\<close>

fun filled_by :: "u8 list \<Rightarrow> nat \<Rightarrow> nat \<Rightarrow> nat list \<Rightarrow> bool" where
  "filled_by m type pos [] \<longleftrightarrow> pos = length m"
| "filled_by m type pos (x # xs) \<longleftrightarrow>
     x = pos \<and> pos \<le> length m \<and>
     (\<exists>t len. a_type m x = Ok t \<and> t < type \<and> t \<noteq> AT_END \<and> a_length m x = Ok len \<and> len \<noteq> 0 \<and> filled_by m type (pos + len) xs)"

lemma attr_find_overreads:
  assumes "m_bytes_allocated m = Ok (length m)" and "filled_by m type pos xs"
  shows "attr_find_loop up type name name_len ic val val_len m cur pos = Oob"
  using assms(2)
proof (induction xs arbitrary: pos cur)
  case Nil
  have "a_type m (length m) = Oob" by (simp add: a_type_def rd_le_def rd_bytes_def)
  then show ?case using Nil assms(1) by (subst attr_find_loop.simps) simp
next
  case (Cons x xs)
  then obtain t len where "a_type m pos = Ok t" "t < type" "t \<noteq> AT_END" "a_length m pos = Ok len" "len \<noteq> 0"
      "filled_by m type (pos + len) xs" "pos \<le> length m" by auto
  then show ?case
    using Cons.IH [of "pos + len" pos] assms(1) by (subst attr_find_loop.simps) (simp add: attr_verdict_def)
qed

text \<open>
  C37. Both searches look behind the end of what they search. In an mft record that is filled with attributes of smaller
  types instead of being closed by the end marker, \<^verbatim>\<open>ntfs_attr_find\<close> goes on to look at the attribute that would
  follow although it lies outside the \<^verbatim>\<open>bytes_allocated\<close> of the record, because the bound lets the position
  behind the last byte pass. In an attribute list that ends less than six bytes into an entry, the length field of
  that entry is read before the check that the list is long enough for it.
\<close>

theorem search_overreads:
  assumes "m_bytes_allocated (sc_mrec ctx) = Ok (length (sc_mrec ctx))" and "filled_by (sc_mrec ctx) type (sc_attr ctx) xs"
    and "sc_is_first ctx" and "deref st (sc_ntfs_ino ctx) = Ok ni"
    and "e < length al" and "length al < e + 6"
  shows "ntfs_attr_find type name name_len ic val val_len ctx st = Oob
    \<and> al_find_loop up type name name_len ic lowest_vcn al (length al) cur e = Oob"
proof
  show "ntfs_attr_find type name name_len ic val val_len ctx st = Oob"
    using assms(3,4) attr_find_overreads [OF assms(1,2)] by (simp add: ntfs_attr_find_def)
  have "al_length al e = Oob" using assms(6) by (simp add: al_length_def rd_le_def rd_bytes_def)
  then show "al_find_loop up type name name_len ic lowest_vcn al (length al) cur e = Oob"
    using assms(5) by (subst al_find_loop.simps) simp
qed

text \<open>A record of 48 bytes that is filled by one attribute.\<close>

definition full_mrec :: "u8 list" where
  "full_mrec = replicate 28 0 @ [48, 0, 0, 0] @ [0x30, 0, 0, 0, 16, 0, 0, 0, 0, 0, 0, 0, 0, 0, 0, 0]"

lemma full_mrec_fields:
  "m_bytes_allocated full_mrec = Ok 48" "a_type full_mrec 32 = Ok 0x30" "a_length full_mrec 32 = Ok 16" "length full_mrec = 48"
  by code_simp+

theorem search_overreads_witness:
  "ntfs_attr_find 0x80 None 0 CASE_SENSITIVE None 0 (small_ctx\<lparr>sc_mrec := full_mrec, sc_attr := 32\<rparr>) example_store = Oob
   \<and> al_find_loop [] 0x80 None 0 CASE_SENSITIVE 0 [0x80, 0, 0, 0, 1] (length [0x80, 0, 0, 0, 1 :: u8]) 0 0 = Oob"
  using search_overreads [of "small_ctx\<lparr>sc_mrec := full_mrec, sc_attr := 32\<rparr>" "0x80" "[32]" example_store example_inode 0 "[0x80, 0, 0, 0, 1]"
      None 0 CASE_SENSITIVE None 0 "[]" 0 0]
  by (simp add: full_mrec_fields small_ctx_def AT_END_def deref_def example_store_def)

end
