(* ===== verification/Ntfs_Attr_Release.thy ===== *)
theory Ntfs_Attr_Release
  imports Ntfs_Attr_Search
begin

text \<open>
  The resources of attribute searches: a search context maps at most one extent record at a time, and
  whatever is searched for and found, releasing the context unmaps it again. The lemmas follow the
  functions of \<^verbatim>\<open>ntfs/attrib.c\<close> from reading a field up to \<^verbatim>\<open>ntfs_attr_lookup\<close>.
\<close>

section \<open>Searches release what they take\<close>

text \<open>An outcome that is a value with a property, unless memory outside an object was accessed.\<close>

definition oob_or :: "'a result \<Rightarrow> ('a \<Rightarrow> bool) \<Rightarrow> bool" where
  "oob_or r P \<longleftrightarrow> r = Oob \<or> (\<exists>x. r = Ok x \<and> P x)"

lemma oob_or_simps [simp]: "oob_or (Ok x) P = P x" "oob_or Oob P" "\<not> oob_or Bug P" "\<not> oob_or (Error e) P"
  by (auto simp: oob_or_def)

lemma oob_or_bind: "oob_or r P \<Longrightarrow> (\<And>x. r = Ok x \<Longrightarrow> P x \<Longrightarrow> oob_or (f x) Q) \<Longrightarrow> oob_or (bind_result r f) Q"
  by (auto simp: oob_or_def)

lemma oob_or_if: "(c \<Longrightarrow> oob_or r P) \<Longrightarrow> (\<not> c \<Longrightarrow> oob_or r' P) \<Longrightarrow> oob_or (if c then r else r') P"
  by simp

lemma oob_or_mono: "oob_or r P \<Longrightarrow> (\<And>x. P x \<Longrightarrow> Q x) \<Longrightarrow> oob_or r Q"
  by (auto simp: oob_or_def)

abbreviation reads :: "'a result \<Rightarrow> bool" where
  "reads r \<equiv> oob_or r (\<lambda>_. True)"

named_theorems reads_intros \<open>operations that only read memory\<close>

lemma reads_bind [reads_intros]: "reads r \<Longrightarrow> (\<And>x. r = Ok x \<Longrightarrow> reads (f x)) \<Longrightarrow> reads (bind_result r f)"
  by (rule oob_or_bind) auto

lemma reads_rd [reads_intros]: "reads (rd xs i)" "reads (rd_le b i n)" "reads (sle64_at b i)"
  using rd_le_cases [of b i n] rd_le_cases [of b i 8] by (auto simp: rd_def sle64_at_def)

lemma reads_if [reads_intros]: "(c \<Longrightarrow> reads r) \<Longrightarrow> (\<not> c \<Longrightarrow> reads r') \<Longrightarrow> reads (if c then r else r')"
  by simp

lemma reads_let [reads_intros]: "(\<And>x. reads (f x)) \<Longrightarrow> reads (Let v f)"
  by simp

lemma reads_Ok [reads_intros]: "reads (Ok x)"
  by simp

lemma reads_ucsncmp [reads_intros]: "reads (ntfs_ucsncmp s1 s2 n)"
  by (induction s1 s2 n rule: ntfs_ucsncmp.induct) (auto intro!: reads_intros)

lemma reads_up_char [reads_intros]: "reads (up_char up n c)"
  by (auto simp: up_char_def intro!: reads_intros)

lemma reads_ucsncasecmp [reads_intros]: "reads (ntfs_ucsncasecmp s1 s2 n up un)"
  by (induction s1 s2 n up un rule: ntfs_ucsncasecmp.induct) (auto intro!: reads_intros)

lemma reads_collate_loop [reads_intros]: "reads (collate_names_loop s1 s2 n e ic up un)"
  by (induction s1 s2 n e ic up un rule: collate_names_loop.induct) (auto intro!: reads_intros)

lemma reads_names [reads_intros]:
  "reads (ntfs_are_names_equal s1 n1 s2 n2 ic up un)" "reads (ntfs_collate_names s1 n1 s2 n2 e ic up un)"
  by (auto simp: ntfs_are_names_equal_def ntfs_collate_names_def Let_def split: option.split intro!: reads_intros)

lemma reads_memcmp [reads_intros]: "reads (memcmp x y n)"
  by (induction x y n rule: memcmp.induct) (auto intro!: reads_intros)

lemma reads_verdicts [reads_intros]:
  "reads (attr_verdict up type name name_len ic val val_len m a t)"
  "reads (al_verdict up type name name_len ic lowest_vcn al al_end e nx)"
  "reads (value_matches val val_len m a)"
  by (auto simp: attr_verdict_def attr_name_verdict_def name_verdict_def attr_value_verdict_def al_verdict_def
      al_name_verdict_def next_entry_fits_def value_matches_def field_defs split: option.split intro!: reads_intros)

lemma reads_attr_find_loop [reads_intros]: "reads (attr_find_loop up type name name_len ic val val_len m cur a)"
proof (induction up type name name_len ic val val_len m cur a rule: attr_find_loop.induct)
  case (1 up type name name_len ic val val_len m cur a)
  then show ?case by (subst attr_find_loop.simps) (auto simp: field_defs intro!: reads_intros)
qed

lemma reads_al_find_loop [reads_intros]: "reads (al_find_loop up type name name_len ic lowest_vcn al al_end cur e)"
proof (induction up type name name_len ic lowest_vcn al al_end cur e rule: al_find_loop.induct)
  case (1 up type name name_len ic lowest_vcn al al_end cur e)
  then show ?case by (subst al_find_loop.simps) (auto simp: field_defs intro!: reads_intros)
qed

lemma reads_instance_loop [reads_intros]: "reads (instance_loop up al e val val_len m cur a)"
proof (induction up al e val val_len m cur a rule: instance_loop.induct)
  case (1 up al e val val_len m cur a)
  then show ?case by (subst instance_loop.simps) (auto simp: field_defs intro!: reads_intros)
qed


text \<open>
  A base inode at rest: its extent inodes are attached and none of their records is mapped. A store
  has grown when it differs only by extent inodes that were attached and by the error flag.
\<close>

definition at_rest :: "mft_store \<Rightarrow> nat \<Rightarrow> nat list \<Rightarrow> bool" where
  "at_rest s base ps \<longleftrightarrow> attached s base ps \<and> (\<forall>p\<in>set ps. \<forall>ni. ms_inodes s p = Some ni \<longrightarrow> idle ni)"

definition grown :: "nat \<Rightarrow> mft_store \<Rightarrow> mft_store \<Rightarrow> bool" where
  "grown base s s' \<longleftrightarrow>
     ms_pins s' = ms_pins s \<and> (ms_vol s' = ms_vol s \<or> ms_vol s' = NVolSet NV_Errors (ms_vol s)) \<and>
     (\<forall>p. p \<noteq> base \<longrightarrow> ms_inodes s' p = ms_inodes s p \<or>
        ms_inodes s p = None \<and> (\<exists>ni. ms_inodes s' p = Some ni \<and> idle ni \<and> extent_of base ni \<and> ni_count ni = 1)) \<and>
     (\<exists>b x n. ms_inodes s base = Some b \<and> ms_inodes s' base = Some (b\<lparr>ni_ext := x, ni_nr_extents := n\<rparr>))"

lemma NVolSet_idem [simp]: "NVolSet f (NVolSet f vol) = NVolSet f vol"
  by (simp add: NVolSet_def)

lemma grown_refl:
  assumes "ms_inodes s base \<noteq> None"
  shows "grown base s s"
proof -
  obtain b where "ms_inodes s base = Some b" using assms by auto
  moreover have "b = b\<lparr>ni_ext := ni_ext b, ni_nr_extents := ni_nr_extents b\<rparr>" by (cases b) simp
  ultimately show ?thesis unfolding grown_def by metis
qed

lemma grown_trans:
  assumes "grown base s t" and "grown base t u"
  shows "grown base s u"
proof -
  obtain b x n where 1: "ms_inodes s base = Some b" "ms_inodes t base = Some (b\<lparr>ni_ext := x, ni_nr_extents := n\<rparr>)"
    using assms(1) by (auto simp: grown_def)
  then obtain y k where "ms_inodes u base = Some (b\<lparr>ni_ext := x, ni_nr_extents := n, ni_ext := y, ni_nr_extents := k\<rparr>)"
    using assms(2) by (auto simp: grown_def)
  then have "ms_inodes u base = Some (b\<lparr>ni_ext := y, ni_nr_extents := k\<rparr>)" by (cases b) simp
  moreover have "ms_inodes u p = ms_inodes s p \<or>
      ms_inodes s p = None \<and> (\<exists>ni. ms_inodes u p = Some ni \<and> idle ni \<and> extent_of base ni \<and> ni_count ni = 1)"
    if "p \<noteq> base" for p
  proof -
    have "ms_inodes t p = ms_inodes s p \<or>
      ms_inodes s p = None \<and> (\<exists>ni. ms_inodes t p = Some ni \<and> idle ni \<and> extent_of base ni \<and> ni_count ni = 1)"
      "ms_inodes u p = ms_inodes t p \<or>
      ms_inodes t p = None \<and> (\<exists>ni. ms_inodes u p = Some ni \<and> idle ni \<and> extent_of base ni \<and> ni_count ni = 1)"
      using assms that by (simp_all add: grown_def)
    then show ?thesis by (elim disjE conjE exE) simp_all
  qed
  moreover have "ms_vol u = ms_vol s \<or> ms_vol u = NVolSet NV_Errors (ms_vol s)" "ms_pins u = ms_pins s"
    using assms by (auto simp: grown_def)
  ultimately show ?thesis using 1(1) unfolding grown_def by blast
qed

lemma grown_errors: "grown base s s' \<Longrightarrow> grown base s (s'\<lparr>ms_vol := NVolSet NV_Errors (ms_vol s')\<rparr>)"
  unfolding grown_def by (elim conjE) auto

lemma same_store_rest:
  assumes "same_store s s'" and "at_rest s base ps"
  shows "at_rest s' base ps \<and> grown base s s'"
proof -
  have "ms_inodes s base \<noteq> None" using assms(2) by (auto simp: at_rest_def attached_def)
  then have "grown base s s'" using grown_errors [OF grown_refl] grown_refl assms(1) by (auto simp: same_store_def)
  then show ?thesis using assms by (auto simp: same_store_def at_rest_def attached_def mft_no_at_def cong: map_cong)
qed

lemma set_errors_rest:
  assumes "at_rest s base ps"
  shows "at_rest (s\<lparr>ms_vol := NVolSet NV_Errors (ms_vol s)\<rparr>) base ps \<and> grown base s (s\<lparr>ms_vol := NVolSet NV_Errors (ms_vol s)\<rparr>)"
  by (rule same_store_rest [OF _ assms]) (simp add: same_store_def)

lemma extended_rest:
  assumes "extended k base ps p x sn s s0" and "at_rest s base ps"
  shows "at_rest s0 base (ps @ [p]) \<and> grown base s s0"
proof -
  obtain bni cells where e: "ms_inodes s p = None" "attached s0 base (ps @ [p])" "ms_inodes s base = Some bni"
     "s0 = s\<lparr>ms_inodes := (ms_inodes s)(base \<mapsto> bni\<lparr>ni_ext := Ext_Inos cells, ni_nr_extents := ni_nr_extents bni + 1\<rparr>,
           p \<mapsto> new_extent k base x sn)\<rparr>"
    using assms(1) by (auto simp: extended_def)
  have ne: "p \<noteq> base" "base \<notin> set ps" using e(1,3) assms(2) by (auto simp: at_rest_def attached_def)
  have "idle ni" if "q \<in> set (ps @ [p])" "ms_inodes s0 q = Some ni" for q ni
  proof (cases "q = p")
    case True
    then show ?thesis using that(2) unfolding e(4) by auto
  next
    case False
    then have "q \<in> set ps" "ms_inodes s q = Some ni" using that ne unfolding e(4) by (auto split: if_splits)
    then show ?thesis using assms(2) by (auto simp: at_rest_def)
  qed
  then have "at_rest s0 base (ps @ [p])" using e(2) unfolding at_rest_def by blast
  moreover have "grown base s s0"
    unfolding grown_def e(4) using e(1,3) ne by (intro conjI exI [of _ bni] exI) simp_all
  ultimately show ?thesis by simp
qed

lemma kernel_ok_grown: "kernel_ok k s \<Longrightarrow> grown base s s' \<Longrightarrow> kernel_ok k s'"
  by (auto simp: kernel_ok_def grown_def NVolSet_def)


text \<open>
  A context over the base record \<open>bm\<close>: the store \<open>st\<close> is the store at rest, with the record of one extent
  inode mapped if the context is at that inode.
\<close>

definition ctx_ok ::
    "nat \<Rightarrow> u8 list \<Rightarrow> nat list \<Rightarrow> ntfs_attr_search_ctx \<Rightarrow> mft_store \<Rightarrow> mft_store \<Rightarrow> bool" where
  "ctx_ok base bm ps ctx s st \<longleftrightarrow>
     (case sc_base_ntfs_ino ctx of
        None \<Rightarrow> sc_ntfs_ino ctx = base \<and> sc_mrec ctx = bm \<and> st = s
      | Some b \<Rightarrow> b = base \<and> sc_base_mrec ctx = Some bm \<and> sc_base_attr ctx \<noteq> None \<and>
          (if sc_ntfs_ino ctx = base then sc_mrec ctx = bm \<and> st = s
           else sc_ntfs_ino ctx \<in> set ps \<and> (\<exists>ni. ms_inodes s (sc_ntfs_ino ctx) = Some ni \<and> st = mapped (sc_ntfs_ino ctx) ni s)))"

text \<open>What a search keeps: there is a store at rest that has grown from \<open>s\<close> and fits the new context.\<close>

definition keeps :: "nat \<Rightarrow> u8 list \<Rightarrow> mft_store \<Rightarrow> ntfs_attr_search_ctx \<Rightarrow> mft_store \<Rightarrow> bool" where
  "keeps base bm s ctx st \<longleftrightarrow> (\<exists>ps' s'. at_rest s' base ps' \<and> grown base s s' \<and> ctx_ok base bm ps' ctx s' st)"

lemma put_search_ctx_ok:
  assumes "ctx_ok base bm ps ctx s st" and "at_rest s base ps"
  shows "ntfs_attr_put_search_ctx ctx st = Ok s"
  using assms unmap_mapped
  by (auto simp: ctx_ok_def ntfs_attr_put_search_ctx_def unmap_extent_mft_record_def at_rest_def
      split: option.splits if_splits)

text \<open>Unmapping the record of the context, if it is an extent record.\<close>

lemma ctx_ok_unmap:
  assumes "ctx_ok base bm ps ctx s st" and "at_rest s base ps"
  shows "(if sc_ntfs_ino ctx \<noteq> base then unmap_extent_mft_record (sc_ntfs_ino ctx) st else Ok st) = Ok s"
  using put_search_ctx_ok [OF assms] assms(1)
  by (auto simp: ctx_ok_def ntfs_attr_put_search_ctx_def split: option.splits if_splits)

lemma ctx_ok_ino:
  assumes "ctx_ok base bm ps ctx s st" and "at_rest s base ps"
  shows "\<exists>ni. ms_inodes st (sc_ntfs_ino ctx) = Some ni" "\<exists>ni. ms_inodes st base = Some ni"
  using assms by (auto simp: ctx_ok_def at_rest_def attached_def mapped_def Let_def split: option.splits if_splits)

lemma ctx_ok_errors:
  assumes "ctx_ok base bm ps ctx s st"
  shows "ctx_ok base bm ps ctx (s\<lparr>ms_vol := NVolSet NV_Errors (ms_vol s)\<rparr>) (st\<lparr>ms_vol := NVolSet NV_Errors (ms_vol st)\<rparr>)"
proof -
  have "mapped p ni s\<lparr>ms_vol := NVolSet NV_Errors (ms_vol s)\<rparr> = mapped p ni (s\<lparr>ms_vol := NVolSet NV_Errors (ms_vol s)\<rparr>)" for p ni
    by (cases s) (simp add: mapped_def Let_def mrec_pos_def NVolSet_def)
  then show ?thesis using assms
    by (auto simp: ctx_ok_def mapped_def Let_def mrec_pos_def NVolSet_def split: option.splits if_splits)
qed


lemma ctx_ok_upd [simp]:
  "ctx_ok base bm ps (ctx\<lparr>sc_is_first := f\<rparr>) s st = ctx_ok base bm ps ctx s st"
  "ctx_ok base bm ps (ctx\<lparr>sc_attr := a\<rparr>) s st = ctx_ok base bm ps ctx s st"
  "ctx_ok base bm ps (ctx\<lparr>sc_al_entry := e\<rparr>) s st = ctx_ok base bm ps ctx s st"
  by (simp_all add: ctx_ok_def split: option.split)

lemma at_rest_base: "at_rest s base ps \<Longrightarrow> ms_inodes s base \<noteq> None"
  by (auto simp: at_rest_def attached_def)

lemma keepsI: "ctx_ok base bm ps ctx s st \<Longrightarrow> at_rest s base ps \<Longrightarrow> keeps base bm s ctx st"
  unfolding keeps_def using grown_refl [OF at_rest_base] by blast

lemma keeps_trans: "grown base s s' \<Longrightarrow> keeps base bm s' ctx st \<Longrightarrow> keeps base bm s ctx st"
  unfolding keeps_def using grown_trans by blast

lemma keeps_errors:
  assumes "keeps base bm s ctx st"
  shows "keeps base bm s ctx (st\<lparr>ms_vol := NVolSet NV_Errors (ms_vol st)\<rparr>)"
proof -
  obtain ps' s' where k: "at_rest s' base ps'" "grown base s s'" "ctx_ok base bm ps' ctx s' st" using assms by (auto simp: keeps_def)
  show ?thesis
    by (rule keeps_trans [OF k(2)], rule keeps_trans [OF conjunct2 [OF set_errors_rest [OF k(1)]]],
        rule keepsI [OF ctx_ok_errors [OF k(3)] conjunct1 [OF set_errors_rest [OF k(1)]]])
qed

lemma keeps_upd [simp]:
  "keeps base bm s (ctx\<lparr>sc_is_first := f\<rparr>) st = keeps base bm s ctx st"
  "keeps base bm s (ctx\<lparr>sc_attr := a\<rparr>) st = keeps base bm s ctx st"
  "keeps base bm s (ctx\<lparr>sc_al_entry := e\<rparr>) st = keeps base bm s ctx st"
  by (simp_all add: keeps_def)

abbreviation search_keeps :: "nat \<Rightarrow> u8 list \<Rightarrow> mft_store \<Rightarrow> search_result \<Rightarrow> bool" where
  "search_keeps base bm s r \<equiv> oob_or r (\<lambda>(err, ctx, st). keeps base bm s ctx st)"

lemma attr_find_keeps:
  assumes "keeps base bm s ctx st"
  shows "search_keeps base bm s (ntfs_attr_find type name name_len ic val val_len ctx st)"
proof -
  obtain ni where ni: "ms_inodes st (sc_ntfs_ino ctx) = Some ni" using assms ctx_ok_ino(1) unfolding keeps_def by blast
  have "reads (if sc_is_first ctx then Ok (sc_attr ctx)
      else bind_result (a_length (sc_mrec ctx) (sc_attr ctx)) (\<lambda>len. Ok (sc_attr ctx + len)))"
    by (auto simp: field_defs intro!: reads_intros)
  then show ?thesis unfolding ntfs_attr_find_def deref_Some [OF ni] bind_result.simps
    by (rule oob_or_bind, intro oob_or_bind [OF reads_attr_find_loop]) (auto simp: assms keeps_errors)
qed

lemma find_until_err_keeps:
  assumes "keeps base bm s ctx st"
  shows "search_keeps base bm s (find_until_err type name name_len ic val val_len ctx st)"
  using assms
proof (induction type name name_len ic val val_len ctx st rule: find_until_err.induct)
  case (1 type name name_len ic val val_len ctx st)
  show ?case
    by (subst find_until_err.simps, rule oob_or_bind [OF attr_find_keeps [OF "1.prems"]]) (auto intro: "1.IH")
qed

lemma init_keeps:
  assumes "at_rest s base ps"
  shows "oob_or (ntfs_attr_init_search_ctx base bm) (\<lambda>ctx. keeps base bm s ctx s)"
proof -
  have "reads (m_attrs_offset bm)" by (auto simp: field_defs intro!: reads_intros)
  then show ?thesis unfolding ntfs_attr_init_search_ctx_def
    by (rule oob_or_bind) (auto intro!: keepsI [OF _ assms] simp: ctx_ok_def)
qed

lemma reinit_keeps:
  assumes "keeps base bm s ctx st"
  shows "oob_or (ntfs_attr_reinit_search_ctx ctx st) (\<lambda>(ctx, st). keeps base bm s ctx st)"
proof -
  obtain ps' s' where k: "at_rest s' base ps'" "grown base s s'" "ctx_ok base bm ps' ctx s' st" using assms by (auto simp: keeps_def)
  show ?thesis
  proof (cases "sc_base_ntfs_ino ctx")
    case None
    have "reads (m_attrs_offset (sc_mrec ctx))" by (auto simp: field_defs intro!: reads_intros)
    then show ?thesis unfolding ntfs_attr_reinit_search_ctx_def None option.case
      by (rule oob_or_bind) (simp add: assms)
  next
    case (Some b)
    then have b: "b = base" "sc_base_mrec ctx = Some bm" using k(3) by (auto simp: ctx_ok_def)
    show ?thesis unfolding ntfs_attr_reinit_search_ctx_def Some option.case b ctx_ok_unmap [OF k(3,1)] bind_result.simps
      by (rule oob_or_bind [OF init_keeps [OF k(1)]]) (use k(2) keeps_trans in auto)
  qed
qed


lemma error_exit_keeps:
  assumes "ctx_ok base bm ps ctx s st" and "at_rest s base ps" and "sc_base_ntfs_ino ctx = Some base"
  shows "search_keeps base bm s (al_error_exit base err (Some (sc_ntfs_ino ctx)) ctx st)"
proof -
  obtain ba where b: "sc_base_mrec ctx = Some bm" "sc_base_attr ctx = Some ba" using assms(1,3) by (auto simp: ctx_ok_def)
  let ?c = "ctx\<lparr>sc_ntfs_ino := base, sc_mrec := bm, sc_attr := ba\<rparr>"
  have c: "ctx_ok base bm ps ?c s s" using assms(3) b by (simp add: ctx_ok_def)
  show ?thesis
  proof (cases "sc_ntfs_ino ctx = base")
    case True
    then show ?thesis using keepsI [OF assms(1,2)] keeps_errors by (simp add: al_error_exit_def)
  next
    case False
    then have "unmap_extent_mft_record (sc_ntfs_ino ctx) st = Ok s" using ctx_ok_unmap [OF assms(1,2)] by simp
    then show ?thesis using False b keepsI [OF c assms(2)] keeps_errors by (simp add: al_error_exit_def)
  qed
qed

lemma error_exit_unmapped_keeps:
  assumes "at_rest s base ps" and "sc_base_ntfs_ino ctx = Some base" "sc_base_mrec ctx = Some bm" "sc_base_attr ctx \<noteq> None"
  shows "search_keeps base bm s (al_error_exit base err None ctx s)"
proof -
  obtain ba where b: "sc_base_attr ctx = Some ba" using assms(4) by auto
  let ?c = "ctx\<lparr>sc_ntfs_ino := base, sc_mrec := bm, sc_attr := ba\<rparr>"
  have c: "ctx_ok base bm ps ?c s s" using assms by (simp add: ctx_ok_def)
  show ?thesis using b assms(3) keepsI [OF c assms(1)] keeps_errors by (simp add: al_error_exit_def)
qed

lemma not_found_keeps:
  assumes "ctx_ok base bm ps ctx s st" and "at_rest s base ps" and "sc_base_ntfs_ino ctx = Some base"
  shows "search_keeps base bm s (al_not_found base type name name_len ic val val_len ctx st)"
proof (cases "type = AT_END")
  case True
  show ?thesis unfolding al_not_found_def if_P [OF True]
    by (rule oob_or_bind [OF reinit_keeps [OF keepsI [OF assms(1,2)]]]) (auto intro!: attr_find_keeps)
next
  case False
  have b: "sc_base_mrec ctx = Some bm" using assms(1,3) by (auto simp: ctx_ok_def)
  have r: "reads (m_attrs_offset bm)" by (auto simp: field_defs intro!: reads_intros)
  show ?thesis unfolding al_not_found_def if_not_P [OF False] ctx_ok_unmap [OF assms(1,2)] bind_result.simps b option.case
    by (rule oob_or_bind [OF r], rule find_until_err_keeps, rule keepsI [OF _ assms(2)]) (simp add: ctx_ok_def)
qed

text \<open>The three ways in which switching to another record can end.\<close>

fun switch_ok ::
    "nat \<Rightarrow> u8 list \<Rightarrow> mft_store \<Rightarrow> ntfs_attr_search_ctx \<Rightarrow> mft_store \<Rightarrow> (errno \<times> nat option + ntfs_attr_search_ctx) \<times> mft_store \<Rightarrow> bool" where
  "switch_ok base bm s ctx st (Inr ctx', st') \<longleftrightarrow>
     (\<exists>ps' s'. at_rest s' base ps' \<and> grown base s s' \<and> ctx_ok base bm ps' ctx' s' st') \<and> sc_base_ntfs_ino ctx' = Some base"
| "switch_ok base bm s ctx st (Inl (err, Some p), st') \<longleftrightarrow> p = sc_ntfs_ino ctx \<and> st' = st"
| "switch_ok base bm s ctx st (Inl (err, None), st') \<longleftrightarrow> (\<exists>ps'. at_rest st' base ps') \<and> grown base s st'"

lemma map_extent_switch:
  assumes "at_rest s base ps" and "kernel_ok k s" and b: "sc_base_ntfs_ino ctx = Some base" "sc_base_mrec ctx = Some bm"
    "sc_base_attr ctx \<noteq> None"
  shows "oob_or (bind_result (map_extent_mft_record k base mref s) (\<lambda>(r, st).
         case r of
           Inl err \<Rightarrow> Ok (Inl (if err = ENOENT then EIO else err, None), st)
         | Inr (m, ni) \<Rightarrow>
             bind_result (m_attrs_offset m) (\<lambda>ofs.
               Ok (Inr (ctx\<lparr>sc_mrec := m, sc_ntfs_ino := ni, sc_attr := ofs\<rparr>), st))))
    (switch_ok base bm s ctx0 st0)"
proof -
  have "attached s base ps" "\<forall>p\<in>set ps. \<forall>ni. ms_inodes s p = Some ni \<and> ni_mft_no ni = MREF mref \<longrightarrow> idle ni"
    using assms(1) by (auto simp: at_rest_def)
  from map_extent_outcome [OF this(1) assms(2) this(2)] obtain r st'
    where r: "map_extent_mft_record k base mref s = Ok (r, st')" "extent_outcome k base ps mref s r st'" by blast
  show ?thesis
  proof (cases r)
    case (Inl e)
    then have "at_rest st' base ps \<and> grown base s st'" using r(2) same_store_rest [OF _ assms(1)] by simp
    then show ?thesis using r(1) Inl by auto
  next
    case (Inr mp)
    obtain m p where mp: "mp = (m, p)" by (cases mp)
    from r(2) Inr mp obtain s0 ni where o: "st' = mapped p ni s0" "ms_inodes s0 p = Some ni"
      "if p \<in> set ps then s0 = s else extended k base ps p (MREF mref) (MSEQNO mref) s s0" by auto
    obtain ps0 where s0: "at_rest s0 base ps0" "grown base s s0" "p \<in> set ps0"
    proof (cases "p \<in> set ps")
      case True
      then show ?thesis using that [of ps] o(3) assms(1) grown_refl [OF at_rest_base [OF assms(1)]] by simp
    next
      case False
      then show ?thesis using that [of "ps @ [p]"] o(3) extended_rest [OF _ assms(1)] by auto
    qed
    have "p \<noteq> base" using s0(1,3) by (auto simp: at_rest_def attached_def)
    then have "ctx_ok base bm ps0 (ctx\<lparr>sc_mrec := m, sc_ntfs_ino := p, sc_attr := ofs\<rparr>) s0 st'" for ofs
      using b o(1,2) s0(3) by (auto simp: ctx_ok_def)
    then have sw: "switch_ok base bm s ctx0 st0 (Inr (ctx\<lparr>sc_mrec := m, sc_ntfs_ino := p, sc_attr := ofs\<rparr>), st')" for ofs
      using s0(1,2) b(1) by auto
    have "reads (m_attrs_offset m)" by (auto simp: field_defs intro!: reads_intros)
    then show ?thesis unfolding r(1) Inr mp bind_result.simps prod.case sum.case
      by (rule oob_or_bind) (simp only: oob_or_simps sw)
  qed
qed


lemma switch_record_ok:
  assumes "ctx_ok base bm ps ctx s st" and "at_rest s base ps" and "kernel_ok k s" and "sc_base_ntfs_ino ctx = Some base"
  shows "oob_or (al_switch_record k base al e ctx st) (switch_ok base bm s ctx st)"
proof -
  have b: "sc_base_mrec ctx = Some bm" "sc_base_attr ctx \<noteq> None" using assms(1,4) by (auto simp: ctx_ok_def)
  obtain ni where ni: "ms_inodes st (sc_ntfs_ino ctx) = Some ni" using ctx_ok_ino(1) [OF assms(1,2)] by blast
  obtain bni where bni: "ms_inodes s base = Some bni" using at_rest_base [OF assms(2)] by auto
  have rt: "switch_ok base bm s ctx st (Inr (ctx\<lparr>sc_ntfs_ino := base, sc_mrec := bm, sc_attr := ofs\<rparr>), s)" for ofs
  proof -
    have "ctx_ok base bm ps (ctx\<lparr>sc_ntfs_ino := base, sc_mrec := bm, sc_attr := ofs\<rparr>) s s"
      using assms(4) b by (simp add: ctx_ok_def)
    then show ?thesis using assms(2,4) grown_refl [OF at_rest_base [OF assms(2)]] by auto
  qed
  have stay: "switch_ok base bm s ctx st (Inr ctx, st)"
    using assms(1,2,4) grown_refl [OF at_rest_base [OF assms(2)]] by auto
  have r: "reads (al_mft_reference al e)" "reads (m_attrs_offset bm)" by (auto simp: field_defs intro!: reads_intros)
  show ?thesis
    unfolding al_switch_record_def
  proof (rule oob_or_bind [OF r(1)], goal_cases)
    case (1 mref)
    show ?case
    proof (cases "MREF mref = ni_mft_no ni")
      case True
      then show ?thesis using ni stay by (simp del: switch_ok.simps(1))
    next
      case False
      have base_rec: "oob_or (bind_result (m_attrs_offset bm) (\<lambda>ofs.
          Ok (Inr (ctx\<lparr>sc_ntfs_ino := base, sc_mrec := bm, sc_attr := ofs\<rparr>), s))) (switch_ok base bm s ctx st)"
        by (rule oob_or_bind [OF r(2)]) (simp only: oob_or_simps rt)
      note m = map_extent_switch [OF assms(2-4) b, of mref ctx st]
      show ?thesis
        unfolding deref_Some [OF ni] bind_result.simps if_not_P [OF False] ctx_ok_unmap [OF assms(1,2)] deref_Some [OF bni] b option.case
        by (intro oob_or_if base_rec m)
    qed
  qed
qed

lemma set_base_ok:
  assumes "ctx_ok base bm ps ctx s st"
  shows "\<exists>ctx'. al_set_base ctx = (base, ctx') \<and> ctx_ok base bm ps ctx' s st \<and> sc_base_ntfs_ino ctx' = Some base"
  using assms by (cases "sc_base_ntfs_ino ctx") (auto simp: ctx_ok_def al_set_base_def)

lemma after_switch_keeps:
  assumes "switch_ok base bm s c st (sw, st')" and "ctx_ok base bm ps c s st" and "at_rest s base ps"
    and "sc_base_ntfs_ino c = Some base"
  shows "search_keeps base bm s (case sw of Inl (err, ni) \<Rightarrow> al_error_exit base err ni c st'
    | Inr ctx \<Rightarrow> bind_result (instance_loop up al e val val_len (sc_mrec ctx) (sc_attr ctx) (sc_attr ctx)) (\<lambda>(found, at).
        if found then Ok (None, ctx\<lparr>sc_attr := at\<rparr>, st')
        else al_error_exit base EIO (Some (sc_ntfs_ino (ctx\<lparr>sc_attr := at\<rparr>))) (ctx\<lparr>sc_attr := at\<rparr>) st'))"
proof (cases sw)
  case (Inl en)
  obtain err ni where en: "en = (err, ni)" by (cases en)
  show ?thesis
  proof (cases ni)
    case None
    then obtain ps' where r: "at_rest st' base ps'" "grown base s st'" using assms(1) Inl en by auto
    have "sc_base_mrec c = Some bm" "sc_base_attr c \<noteq> None" using assms(2,4) by (auto simp: ctx_ok_def)
    from error_exit_unmapped_keeps [OF r(1) assms(4) this, of err] show ?thesis
      unfolding Inl en None sum.case prod.case by (rule oob_or_mono) (use keeps_trans [OF r(2)] in auto)
  next
    case (Some p)
    then show ?thesis using assms(1) Inl en error_exit_keeps [OF assms(2-4), of err] by simp
  qed
next
  case (Inr ctx)
  then obtain ps' s' where s': "at_rest s' base ps'" "grown base s s'" "ctx_ok base bm ps' ctx s' st'" "sc_base_ntfs_ino ctx = Some base"
    using assms(1) by auto
  have from_s': "search_keeps base bm s r" if "search_keeps base bm s' r" for r
    by (rule oob_or_mono [OF that]) (use keeps_trans [OF s'(2)] in auto)
  have "search_keeps base bm s' (al_error_exit base EIO (Some (sc_ntfs_ino (ctx\<lparr>sc_attr := at\<rparr>))) (ctx\<lparr>sc_attr := at\<rparr>) st')" for at
    using s' by (intro error_exit_keeps) auto
  then show ?thesis unfolding Inr sum.case
    by (intro from_s' oob_or_bind [OF reads_instance_loop]) (use keepsI [OF s'(3,1)] in auto)
qed

lemma external_attr_find_keeps:
  assumes "keeps base bm s ctx st" and "kernel_ok k s"
  shows "search_keeps base bm s (ntfs_external_attr_find k type name name_len ic lowest_vcn val val_len ctx st)"
proof -
  obtain ps t where t: "at_rest t base ps" "grown base s t" "ctx_ok base bm ps ctx t st" using assms(1) by (auto simp: keeps_def)
  obtain ctx1 where c1: "al_set_base ctx = (base, ctx1)" "ctx_ok base bm ps ctx1 t st" "sc_base_ntfs_ino ctx1 = Some base"
    using set_base_ok [OF t(3)] by blast
  obtain bni where bni: "ms_inodes st base = Some bni" using ctx_ok_ino(2) [OF t(3,1)] by blast
  have from_t: "search_keeps base bm s r" if "search_keeps base bm t r" for r
    by (rule oob_or_mono [OF that]) (use keeps_trans [OF t(2)] in auto)
  have r: "reads (al_first_entry al ctx1)" for al
    by (auto simp: al_first_entry_def field_defs Let_def intro!: reads_intros)
  let ?n = "\<lambda>ctx. search_keeps base bm s (al_not_found base type name name_len ic val val_len ctx st)"
  show ?thesis
  proof (cases "type = AT_END")
    case True
    then show ?thesis using from_t [OF not_found_keeps [OF c1(2) t(1) c1(3)]]
      by (simp add: ntfs_external_attr_find_def c1(1))
  next
    case False
    show ?thesis
      unfolding ntfs_external_attr_find_def c1(1) Let_def prod.case if_not_P [OF False] deref_Some [OF bni] bind_result.simps
    proof (rule oob_or_bind [OF r], clarify, rule oob_or_bind [OF reads_al_find_loop], clarify)
      fix cur e0 out e
      let ?al = "case ni_attr_list bni of None \<Rightarrow> [] | Some al \<Rightarrow> al"
      let ?c = "ctx1\<lparr>sc_is_first := False, sc_al_entry := Some e\<rparr>"
      have c: "ctx_ok base bm ps ?c t st" "sc_base_ntfs_ino ?c = Some base" using c1(2,3) by simp_all
      show "search_keeps base bm s (case out of
          Al_Found \<Rightarrow> bind_result (al_switch_record k base ?al e ?c st) (\<lambda>(sw, st').
            case sw of Inl (err, ni) \<Rightarrow> al_error_exit base err ni ?c st'
            | Inr ctx \<Rightarrow> bind_result (instance_loop (upcase (ms_vol st)) ?al e val val_len (sc_mrec ctx) (sc_attr ctx) (sc_attr ctx)) (\<lambda>(found, at).
                if found then Ok (None, ctx\<lparr>sc_attr := at\<rparr>, st')
                else al_error_exit base EIO (Some (sc_ntfs_ino (ctx\<lparr>sc_attr := at\<rparr>))) (ctx\<lparr>sc_attr := at\<rparr>) st'))
        | Al_Not_found \<Rightarrow> al_not_found base type name name_len ic val val_len ?c st
        | Al_Corrupt \<Rightarrow> al_error_exit base EIO (Some (sc_ntfs_ino ?c)) ?c st)"
      proof (cases out)
        case Al_Found
        show ?thesis unfolding Al_Found al_outcome.case
        proof (rule from_t, rule oob_or_bind [OF switch_record_ok [OF c(1) t(1) kernel_ok_grown [OF assms(2) t(2)] c(2)]], clarify)
          fix sw st' assume "switch_ok base bm t ?c st (sw, st')"
          from after_switch_keeps [OF this c(1) t(1) c(2)]
          show "search_keeps base bm t (case sw of Inl (err, ni) \<Rightarrow> al_error_exit base err ni ?c st'
            | Inr ctx \<Rightarrow> bind_result (instance_loop (upcase (ms_vol st)) ?al e val val_len (sc_mrec ctx) (sc_attr ctx) (sc_attr ctx)) (\<lambda>(found, at).
                if found then Ok (None, ctx\<lparr>sc_attr := at\<rparr>, st')
                else al_error_exit base EIO (Some (sc_ntfs_ino (ctx\<lparr>sc_attr := at\<rparr>))) (ctx\<lparr>sc_attr := at\<rparr>) st'))" .
        qed
      next
        case Al_Not_found
        then show ?thesis using from_t [OF not_found_keeps [OF c(1) t(1) c(2)]] by simp
      next
        case Al_Corrupt
        then show ?thesis using from_t [OF error_exit_keeps [OF c(1) t(1) c(2)]] by simp
      qed
    qed
  qed
qed


lemma lookup_keeps:
  assumes "keeps base bm s ctx st" and "kernel_ok k s"
  shows "search_keeps base bm s (ntfs_attr_lookup k type name name_len ic lowest_vcn val val_len ctx st)"
proof -
  obtain ps t where t: "at_rest t base ps" "ctx_ok base bm ps ctx t st" using assms(1) by (auto simp: keeps_def)
  have "(case sc_base_ntfs_ino ctx of Some b \<Rightarrow> b | None \<Rightarrow> sc_ntfs_ino ctx) = base"
    using t(2) by (auto simp: ctx_ok_def split: option.splits)
  moreover obtain bni where "ms_inodes st base = Some bni" using ctx_ok_ino(2) [OF t(2,1)] by blast
  ultimately show ?thesis
    using attr_find_keeps [OF assms(1)] external_attr_find_keeps [OF assms] by (simp add: ntfs_attr_lookup_def)
qed

text \<open>A user of a search context: any sequence of lookups, whatever they return, and restarts.\<close>

datatype request =
    Lookup nat "ntfschar list option" nat IGNORE_CASE_BOOL int "u8 list option" nat
  | Restart

fun run_requests :: "kernel \<Rightarrow> request list \<Rightarrow> ntfs_attr_search_ctx \<Rightarrow> mft_store \<Rightarrow> (ntfs_attr_search_ctx \<times> mft_store) result" where
  "run_requests k [] ctx st = Ok (ctx, st)"
| "run_requests k (Lookup type name name_len ic lowest_vcn val val_len # rs) ctx st =
     bind_result (ntfs_attr_lookup k type name name_len ic lowest_vcn val val_len ctx st) (\<lambda>(err, ctx, st).
       run_requests k rs ctx st)"
| "run_requests k (Restart # rs) ctx st =
     bind_result (ntfs_attr_reinit_search_ctx ctx st) (\<lambda>(ctx, st). run_requests k rs ctx st)"

lemma run_requests_keeps:
  assumes "keeps base bm s ctx st" and "kernel_ok k s"
  shows "oob_or (run_requests k rs ctx st) (\<lambda>(ctx, st). keeps base bm s ctx st)"
  using assms(1)
proof (induction rs arbitrary: ctx st)
  case (Cons r rs)
  show ?case
  proof (cases r)
    case (Lookup type name name_len ic lowest_vcn val val_len)
    show ?thesis unfolding Lookup run_requests.simps
      by (rule oob_or_bind [OF lookup_keeps [OF Cons.prems assms(2)]]) (auto intro: Cons.IH)
  next
    case Restart
    show ?thesis unfolding Restart run_requests.simps
      by (rule oob_or_bind [OF reinit_keeps [OF Cons.prems]]) (auto intro: Cons.IH)
  qed
qed simp

text \<open>
  C1. Searches release what they take. Take any sequence of lookups and restarts on a search context
  over a base inode at rest, for any attributes and whatever the mft records and the attribute list
  contain, and release the context afterwards. Unless a malformed record makes the search read
  outside the memory it was given, no \<^verbatim>\<open>BUG()\<close> and no second locking of a held mutex occurs, and in the end every page is
  pinned as often, every lock is held and every inode has the references as at the beginning; all
  that remains are extent inodes that were attached to the base inode.
\<close>

theorem lookups_balanced:
  assumes "at_rest s base ps" and "kernel_ok k s" and "ntfs_attr_get_search_ctx True base bm = Ok (Some ctx)"
  shows "run_requests k rs ctx s = Oob \<or>
    (\<exists>ctx' st s'. run_requests k rs ctx s = Ok (ctx', st) \<and> ntfs_attr_put_search_ctx ctx' st = Ok s' \<and> grown base s s')"
proof -
  have "ntfs_attr_init_search_ctx base bm = Ok ctx"
    using assms(3) by (auto simp: ntfs_attr_get_search_ctx_def outcome_simps)
  then have "keeps base bm s ctx s" using init_keeps [OF assms(1), of bm] by simp
  from run_requests_keeps [OF this assms(2), of rs] show ?thesis
    using put_search_ctx_ok by (fastforce simp: oob_or_def keeps_def)
qed

theorem lookups_balanced_witness:
  "\<exists>ctx ctx' st s'. ntfs_attr_get_search_ctx True 1 small_mrec = Ok (Some ctx) \<and>
    run_requests example_kernel [Lookup 128 None 0 CASE_SENSITIVE 0 None 0, Restart] ctx example_store = Ok (ctx', st) \<and>
    ntfs_attr_put_search_ctx ctx' st = Ok s' \<and> grown 1 example_store s'"
proof -
  have r: "at_rest example_store 1 []" by (simp add: at_rest_def attached_def example_store_def example_inode_def)
  have k: "kernel_ok example_kernel example_store"
    by (simp add: kernel_ok_def example_kernel_def example_store_def example_page_def PAGE_SIZE_def)
  have c: "ntfs_attr_get_search_ctx True 1 small_mrec = Ok (Some small_ctx)"
    by (simp add: ntfs_attr_get_search_ctx_def ntfs_attr_init_search_ctx_def small_mrec_fields small_ctx_def)
  have "run_requests example_kernel [Lookup 128 None 0 CASE_SENSITIVE 0 None 0, Restart] small_ctx example_store \<noteq> Oob"
    by (simp add: small_ctx_def ntfs_attr_lookup_def ntfs_attr_find_def deref_def example_store_def example_inode_def
        NIno_def attr_find_loop.simps small_mrec_fields attr_verdict_def attr_name_verdict_def attr_value_verdict_def
        AT_END_def ntfs_attr_reinit_search_ctx_def)
  then show ?thesis
    using lookups_balanced [OF r k c, of "[Lookup 128 None 0 CASE_SENSITIVE 0 None 0, Restart]"] c by blast
qed

section \<open>Searching the record of an inode without extents\<close>

lemma mapped_inode:
  "ms_inodes (mapped p n st) p = Some (n\<lparr>ni_count := ni_count n + 1, ni_mrec_lock := True,
     ni_page := Some (mrec_pos (ms_vol st) n div PAGE_SIZE), ni_page_ofs := mrec_pos (ms_vol st) n mod PAGE_SIZE\<rparr>)"
  by (simp add: mapped_def Let_def)

lemma mapped_vol [simp]: "ms_vol (mapped p n st) = ms_vol st"
  by (simp add: mapped_def Let_def)

abbreviation fresh_ctx :: "nat \<Rightarrow> u8 list \<Rightarrow> nat \<Rightarrow> bool \<Rightarrow> ntfs_attr_search_ctx" where
  "fresh_ctx ni m a first \<equiv> \<lparr>sc_mrec = m, sc_attr = a, sc_is_first = first, sc_ntfs_ino = ni, sc_al_entry = None,
     sc_base_ntfs_ino = None, sc_base_mrec = None, sc_base_attr = None\<rparr>"

lemma lookup_plain:
  assumes "\<not> NIno NI_AttrList n"
    and "attr_find_loop (upcase (ms_vol st)) type name name_len CASE_SENSITIVE None 0 m ofs ofs = Ok (None, a)"
  shows "ntfs_attr_lookup k type name name_len CASE_SENSITIVE vcn None 0 (fresh_ctx ni m ofs True) (mapped ni n st)
    = Ok (None, fresh_ctx ni m a False, mapped ni n st)"
  using assms by (simp add: ntfs_attr_lookup_def ntfs_attr_find_def deref_def mapped_inode NIno_def)

end
