(* ===== verification/Ntfs_Attr_Runlist.thy ===== *)
theory Ntfs_Attr_Runlist
  imports Ntfs_Attr_Release Ntfs_Mapping_Pairs
begin

text \<open>
  The runlists of attributes (\<^verbatim>\<open>ntfs/attrib.c\<close>): loading the part of a runlist that contains a vcn from the
  mft records, converting vcns with runlists that are loaded on demand, and reading an attribute
  list from the device. A search context that a caller passes is a pair: the error number in
  \<^verbatim>\<open>ctx->mrec\<close>, if it holds one, and the context.
\<close>

type_synonym caller_ctx = "(errno option \<times> ntfs_attr_search_ctx) option"

text \<open>
  What the code takes from the kernel: how the mft is read, the two allocators of runlists, whether a
  search context can be allocated, and how the mft is read in repeated attempts to map a record.
\<close>

record map_env =
  me_kernel :: kernel
  me_malloc_ok :: "nat \<Rightarrow> bool"
  me_rl_mem :: rl_mem
  me_ctx_ok :: bool
  me_retries :: "kernel list"

section \<open>Mapping the extent that contains a vcn\<close>

definition nr_attr_at :: "u8 list \<Rightarrow> nat \<Rightarrow> nr_attr result" where
  "nr_attr_at m a =
     bind_result (a_length m a) (\<lambda>len.
     bind_result (a_mapping_pairs_offset m a) (\<lambda>mpo.
     bind_result (a_lowest_vcn m a) (\<lambda>low.
     bind_result (a_highest_vcn m a) (\<lambda>high.
     bind_result (a_allocated_size m a) (\<lambda>alloc.
       Ok \<lparr>na_mem = drop a m, na_length = len, na_mp_offset = mpo, na_lowest_vcn = low,
           na_highest_vcn = high, na_allocated_size = alloc\<rparr>)))))"

text \<open>Adding the extent the context is at to the runlist of the inode.\<close>

definition map_rl_extent ::
    "map_env \<Rightarrow> nat \<Rightarrow> int \<Rightarrow> ntfs_attr_search_ctx \<Rightarrow> mft_store \<Rightarrow> (errno option \<times> mft_store) result" where
  "map_rl_extent env ni vcn ctx st =
     bind_result (a_highest_vcn (sc_mrec ctx) (sc_attr ctx)) (\<lambda>high.
     let end_vcn = s64 (high + 1) in
     if vcn \<noteq> 0 \<and> vcn \<ge> end_vcn then Ok (Some ENOENT, st)
     else
       bind_result (deref st ni) (\<lambda>n.
       bind_result (nr_attr_at (sc_mrec ctx) (sc_attr ctx)) (\<lambda>a.
       case ntfs_mapping_pairs_decompress (me_malloc_ok env) (me_rl_mem env) (ms_vol st) a (ni_runlist n) of
         Error e \<Rightarrow> Ok (Some e, st)
       | Bug \<Rightarrow> Bug
       | Oob \<Rightarrow> Oob
       | Ok rl \<Rightarrow> bind_result (upd ni (\<lambda>n. n\<lparr>ni_runlist := rl\<rparr>) st) (\<lambda>st. Ok (None, st)))))"

text \<open>The search for that extent, unless the context is at it already.\<close>

definition map_rl_search ::
    "map_env \<Rightarrow> nat \<Rightarrow> int \<Rightarrow> ntfs_attr_search_ctx \<Rightarrow> mft_store \<Rightarrow> search_result" where
  "map_rl_search env ni vcn ctx st =
     bind_result (deref st ni) (\<lambda>n.
     bind_result (ntfs_attr_lookup (me_kernel env) (ni_type n) (ni_name n) (ni_name_len n) CASE_SENSITIVE vcn None 0 ctx st)
       (\<lambda>(err, ctx, st).
       case err of
         Some e \<Rightarrow> Ok (Some (if e = ENOENT then EIO else e), ctx, st)
       | None \<Rightarrow>
           bind_result (a_non_resident (sc_mrec ctx) (sc_attr ctx)) (\<lambda>nr.
           if nr = 0 then Bug
           else bind_result (map_rl_extent env ni vcn ctx st) (\<lambda>(err, st). Ok (err, ctx, st)))))"

text \<open>Without a context of the caller.\<close>

definition map_rl_temporary :: "map_env \<Rightarrow> nat \<Rightarrow> nat \<Rightarrow> int \<Rightarrow> mft_store \<Rightarrow> (errno option \<times> mft_store) result" where
  "map_rl_temporary env base ni vcn st =
     bind_result (map_mft_record (me_kernel env) base st) (\<lambda>(m, st).
     case m of
       Inl e \<Rightarrow> Ok (Some e, st)
     | Inr m \<Rightarrow>
         bind_result (ntfs_attr_get_search_ctx (me_ctx_ok env) base m) (\<lambda>co.
         case co of
           None \<Rightarrow> bind_result (unmap_mft_record base st) (\<lambda>st. Ok (Some ENOMEM, st))
         | Some ctx \<Rightarrow>
             bind_result (map_rl_search env ni vcn ctx st) (\<lambda>(err, ctx, st).
             bind_result (ntfs_attr_put_search_ctx ctx st) (\<lambda>st.
             bind_result (unmap_mft_record base st) (\<lambda>st. Ok (err, st))))))"

text \<open>Whether the extent the caller's context is at contains the vcn, or the vcn is out of bounds.\<close>

definition name_bytes :: "ntfschar list \<Rightarrow> u8 list" where
  "name_bytes name = concat (map (\<lambda>c. le_bytes 2 (unat c)) name)"

definition ctx_has_vcn :: "ntfs_volume \<Rightarrow> ntfs_inode \<Rightarrow> int \<Rightarrow> u8 list \<Rightarrow> nat \<Rightarrow> bool result" where
  "ctx_has_vcn vol n vcn m a =
     bind_result (a_highest_vcn m a) (\<lambda>high.
     let allocated_size_vcn = ni_allocated_size n div 2 ^ cluster_size_bits vol in
     bind_result (a_lowest_vcn m a) (\<lambda>low.
     let end_vcn = (if low = 0 \<and> high \<le> 0 then s64 (allocated_size_vcn - 1) else high) in
     if vcn \<ge> allocated_size_vcn then Ok True
     else
       bind_result (a_type m a) (\<lambda>type.
       bind_result (a_name_length m a) (\<lambda>nl.
       if type \<noteq> ni_type n \<or> unat nl \<noteq> ni_name_len n then Ok False
       else
         bind_result (a_name_offset m a) (\<lambda>no.
         bind_result (memcmp (drop (a + no) m) (case ni_name n of None \<Rightarrow> [] | Some nm \<Rightarrow> name_bytes nm) (ni_name_len n)) (\<lambda>rc.
         Ok (rc = 0 \<and> low \<le> vcn \<and> end_vcn \<ge> vcn)))))))"

text \<open>
  Mapping the record of the saved context again; without memory it is tried until it succeeds, so that
  running out of attempts stands for not returning.
\<close>

fun retry_map :: "kernel list \<Rightarrow> nat \<Rightarrow> mft_store \<Rightarrow> ((errno + u8 list) \<times> mft_store) result" where
  "retry_map [] p st = Bug"
| "retry_map (k # ks) p st =
     bind_result (map_mft_record k p st) (\<lambda>(m, st).
     case m of
       Inl e \<Rightarrow> if e = ENOMEM then retry_map ks p st else Ok (Inl e, st)
     | Inr m \<Rightarrow> Ok (Inr m, st))"

definition page_cache_get_mft :: "nat \<Rightarrow> mft_store \<Rightarrow> (nat \<times> mft_store) result" where
  "page_cache_get_mft p st =
     bind_result (deref st p) (\<lambda>ni.
     case ni_page ni of
       None \<Rightarrow> Oob
     | Some i \<Rightarrow> Ok (i, st\<lparr>ms_pins := (ms_pins st)(i := ms_pins st i + 1)\<rparr>))"

text \<open>Whether a context is at an extent record.\<close>

definition at_extent :: "ntfs_attr_search_ctx \<Rightarrow> bool" where
  "at_extent ctx = (case sc_base_ntfs_ino ctx of None \<Rightarrow> False | Some b \<Rightarrow> sc_ntfs_ino ctx \<noteq> b)"

text \<open>Going back to the record of the saved context \<open>old\<close>.\<close>

definition restore_record ::
    "kernel list \<Rightarrow> ntfs_attr_search_ctx \<Rightarrow> ntfs_attr_search_ctx \<Rightarrow> mft_store \<Rightarrow>
     ((errno + u8 list) \<times> ntfs_attr_search_ctx \<times> mft_store) result" where
  "restore_record ks old ctx st =
     (if sc_ntfs_ino ctx \<noteq> sc_ntfs_ino old then
        bind_result
          (if at_extent ctx then
             bind_result (unmap_extent_mft_record (sc_ntfs_ino ctx) st) (\<lambda>st.
             case sc_base_mrec ctx of None \<Rightarrow> Bug | Some bm \<Rightarrow> Ok (bm, st))
           else Ok (sc_mrec ctx, st)) (\<lambda>(m, st).
        if at_extent old then
          bind_result (retry_map ks (sc_ntfs_ino old) st) (\<lambda>(m, st).
          case m of
            Inl e \<Rightarrow> Ok (Inl e, (case sc_base_ntfs_ino old of None \<Rightarrow> old | Some b \<Rightarrow> old\<lparr>sc_ntfs_ino := b\<rparr>), st)
          | Inr m \<Rightarrow> Ok (Inr m, old, st))
        else Ok (Inr m, old, st))
      else Ok (Inr (sc_mrec ctx), old, st))"

definition restore_ctx ::
    "kernel list \<Rightarrow> nat \<Rightarrow> ntfs_attr_search_ctx \<Rightarrow> ntfs_attr_search_ctx \<Rightarrow> mft_store \<Rightarrow>
     ((errno option \<times> ntfs_attr_search_ctx) \<times> mft_store) result" where
  "restore_ctx ks base old ctx st =
     bind_result (deref st base) (\<lambda>b.
     if NIno NI_AttrList b then
       bind_result (restore_record ks old ctx st) (\<lambda>(m, old, st).
       case m of
         Inl e \<Rightarrow> Ok ((Some e, old), st)
       | Inr m \<Rightarrow> Ok ((None, old\<lparr>sc_mrec := m\<rparr>), st))
     else Ok ((None, old), st))"

definition map_rl_with_ctx ::
    "map_env \<Rightarrow> nat \<Rightarrow> nat \<Rightarrow> int \<Rightarrow> ntfs_attr_search_ctx \<Rightarrow> mft_store \<Rightarrow>
     (errno option \<times> (errno option \<times> ntfs_attr_search_ctx) \<times> mft_store) result" where
  "map_rl_with_ctx env base ni vcn ctx st =
     bind_result (a_non_resident (sc_mrec ctx) (sc_attr ctx)) (\<lambda>nr.
     if nr = 0 then Bug
     else
       bind_result (deref st ni) (\<lambda>n.
       bind_result (ctx_has_vcn (ms_vol st) n vcn (sc_mrec ctx) (sc_attr ctx)) (\<lambda>has.
       if has then bind_result (map_rl_extent env ni vcn ctx st) (\<lambda>(err, st). Ok (err, (None, ctx), st))
       else
         bind_result
           (if at_extent ctx
            then bind_result (page_cache_get_mft (sc_ntfs_ino ctx) st) (\<lambda>(i, st). Ok (Some i, st))
            else Ok (None, st)) (\<lambda>(put_this_page, st).
         bind_result (ntfs_attr_reinit_search_ctx ctx st) (\<lambda>(ctx', st).
         bind_result (map_rl_search env ni vcn ctx' st) (\<lambda>(err, ctx', st).
         bind_result (restore_ctx (me_retries env) base ctx ctx' st) (\<lambda>(cx, st).
         bind_result (case put_this_page of None \<Rightarrow> Ok st | Some i \<Rightarrow> ntfs_unmap_page i st) (\<lambda>st.
           Ok (err, cx, st)))))))))"

definition ntfs_map_runlist_nolock ::
    "map_env \<Rightarrow> nat \<Rightarrow> int \<Rightarrow> caller_ctx \<Rightarrow> mft_store \<Rightarrow> (errno option \<times> caller_ctx \<times> mft_store) result" where
  "ntfs_map_runlist_nolock env ni vcn cx st =
     bind_result (deref st ni) (\<lambda>n.
     bind_result (if \<not> NIno NI_Attr n then Ok ni else case ni_ext n of Ext_Base b \<Rightarrow> Ok b | _ \<Rightarrow> Oob) (\<lambda>base.
     case cx of
       None \<Rightarrow> bind_result (map_rl_temporary env base ni vcn st) (\<lambda>(err, st). Ok (err, None, st))
     | Some (Some e, ctx) \<Rightarrow> Bug
     | Some (None, ctx) \<Rightarrow>
         bind_result (map_rl_with_ctx env base ni vcn ctx st) (\<lambda>(err, cx, st). Ok (err, Some cx, st))))"

definition ntfs_map_runlist :: "map_env \<Rightarrow> nat \<Rightarrow> int \<Rightarrow> mft_store \<Rightarrow> (errno option \<times> mft_store) result" where
  "ntfs_map_runlist env ni vcn st =
     bind_result (deref st ni) (\<lambda>n.
     bind_result (ntfs_rl_vcn_to_lcn (ni_runlist n) vcn) (\<lambda>lcn.
     if lcn \<le> LCN_RL_NOT_MAPPED
     then bind_result (ntfs_map_runlist_nolock env ni vcn None st) (\<lambda>(err, cx, st). Ok (err, st))
     else Ok (None, st)))"

section \<open>Converting a vcn\<close>

text \<open>
  Dropping the runlist lock lets other tasks run: \<open>others\<close> lists what they do to the store, one element
  for each time the lock is dropped; when the list is used up they do nothing.
\<close>

fun others_run :: "(mft_store \<Rightarrow> mft_store) list \<Rightarrow> mft_store \<Rightarrow> mft_store \<times> (mft_store \<Rightarrow> mft_store) list" where
  "others_run [] st = (st, [])"
| "others_run (f # fs) st = (f st, fs)"

definition inode_vcn_to_lcn :: "nat \<Rightarrow> int \<Rightarrow> mft_store \<Rightarrow> int result" where
  "inode_vcn_to_lcn ni vcn st = bind_result (deref st ni) (\<lambda>n. ntfs_rl_vcn_to_lcn (ni_runlist n) vcn)"

text \<open>The lcn that stands for the failure to map the runlist.\<close>

definition lcn_of_error :: "errno \<Rightarrow> int" where
  "lcn_of_error e = (if e = ENOENT then LCN_ENOENT else if e = ENOMEM then LCN_ENOMEM else LCN_EIO)"

lemma others_run_length:
  "(st', fs') = others_run fs st \<Longrightarrow> length fs' \<le> length fs \<and> (length fs' < length fs \<or> st' = st)"
  by (cases fs) auto

function retry_remap ::
    "map_env \<Rightarrow> nat \<Rightarrow> int \<Rightarrow> bool \<Rightarrow> bool \<Rightarrow> (mft_store \<Rightarrow> mft_store) list \<Rightarrow> mft_store \<Rightarrow> (int \<times> mft_store) result" where
  "retry_remap env ni vcn write_locked is_retry others st =
     bind_result (inode_vcn_to_lcn ni vcn st) (\<lambda>lcn.
     if lcn \<ge> LCN_HOLE then Ok (lcn, st)
     else if lcn \<noteq> LCN_RL_NOT_MAPPED then Ok (if lcn \<noteq> LCN_ENOENT then LCN_EIO else lcn, st)
     else if is_retry then Ok (lcn, st)
     else if write_locked then
       bind_result (ntfs_map_runlist_nolock env ni vcn None st) (\<lambda>(err, cx, st).
       case err of
         None \<Rightarrow> retry_remap env ni vcn write_locked True others st
       | Some e \<Rightarrow> Ok (lcn_of_error e, st))
     else
       let (st, others) = others_run others st in
       bind_result (inode_vcn_to_lcn ni vcn st) (\<lambda>lcn.
       if lcn \<noteq> LCN_RL_NOT_MAPPED then
         let (st, others) = others_run others st in retry_remap env ni vcn write_locked is_retry others st
       else
         bind_result (ntfs_map_runlist_nolock env ni vcn None st) (\<lambda>(err, cx, st).
         let (st, others) = others_run others st in
         case err of
           None \<Rightarrow> retry_remap env ni vcn write_locked True others st
         | Some e \<Rightarrow> Ok (lcn_of_error e, st))))"
  by pat_completeness auto

termination
  by (relation "measure (\<lambda>(env, ni, vcn, write_locked, is_retry, others, st). 2 * length others + (if is_retry then 0 else 1))")
     (auto dest!: others_run_length)

declare retry_remap.simps [simp del]

definition ntfs_attr_vcn_to_lcn_nolock ::
    "map_env \<Rightarrow> nat \<Rightarrow> int \<Rightarrow> bool \<Rightarrow> (mft_store \<Rightarrow> mft_store) list \<Rightarrow> mft_store \<Rightarrow> (int \<times> mft_store) result" where
  "ntfs_attr_vcn_to_lcn_nolock env ni vcn write_locked others st =
     bind_result (deref st ni) (\<lambda>n.
     if \<not> NIno NI_NonResident n then Bug
     else if vcn < 0 then Bug
     else if ni_runlist n = None \<and> ni_allocated_size n = 0 then Ok (LCN_ENOENT, st)
     else retry_remap env ni vcn write_locked False others st)"

section \<open>Finding the element of a vcn\<close>

text \<open>\<open>Inr i\<close> is the element number \<open>i\<close>, \<open>Inl lcn\<close> the lcn of the element at which the search stops.\<close>

fun scan_for_vcn :: "runlist \<Rightarrow> nat \<Rightarrow> int \<Rightarrow> (int + nat) result" where
  "scan_for_vcn [] i vcn = Oob"
| "scan_for_vcn (e # rest) i vcn =
     (if rl_len e \<noteq> 0 then
        (case rest of
           [] \<Rightarrow> Oob
         | e1 # _ \<Rightarrow>
             if vcn < rl_vcn e1 then (if rl_lcn e \<ge> LCN_HOLE then Ok (Inr i) else Ok (Inl (rl_lcn e)))
             else scan_for_vcn rest (Suc i) vcn)
      else Ok (Inl (rl_lcn e)))"

definition scan_runlist :: "runlist option \<Rightarrow> int \<Rightarrow> (int + nat) result" where
  "scan_runlist rlo vcn =
     (case rlo of
        None \<Rightarrow> Ok (Inl LCN_RL_NOT_MAPPED)
      | Some rl \<Rightarrow>
          bind_result (rd rl 0) (\<lambda>e. if vcn \<ge> rl_vcn e then scan_for_vcn rl 0 vcn else Ok (Inl LCN_RL_NOT_MAPPED)))"

text \<open>The attempts; \<open>maps\<close> tells how often the runlist may still be mapped.\<close>

fun find_vcn_attempt ::
    "nat \<Rightarrow> map_env \<Rightarrow> nat \<Rightarrow> int \<Rightarrow> caller_ctx \<Rightarrow> mft_store \<Rightarrow> ((errno + nat) \<times> caller_ctx \<times> mft_store) result" where
  "find_vcn_attempt maps env ni vcn cx st =
     bind_result (deref st ni) (\<lambda>n.
     bind_result (scan_runlist (ni_runlist n) vcn) (\<lambda>r.
     case r of
       Inr i \<Rightarrow> Ok (Inr i, cx, st)
     | Inl lcn \<Rightarrow>
         if lcn \<noteq> LCN_RL_NOT_MAPPED then Ok (Inl (if lcn = LCN_ENOENT then ENOENT else EIO), cx, st)
         else case maps of
           0 \<Rightarrow> Ok (Inl EIO, cx, st)
         | Suc maps \<Rightarrow>
             (case cx of
                None \<Rightarrow> Oob
              | Some (Some e, ctx) \<Rightarrow> Ok (Inl (if e = EINVAL then EIO else e), cx, st)
              | Some (None, ctx) \<Rightarrow>
                  bind_result (ntfs_map_runlist_nolock env ni vcn cx st) (\<lambda>(err, cx, st).
                  case err of
                    None \<Rightarrow> find_vcn_attempt maps env ni vcn cx st
                  | Some e \<Rightarrow> Ok (Inl (if e = EINVAL then EIO else e), cx, st)))))"

definition ntfs_attr_find_vcn_nolock ::
    "map_env \<Rightarrow> nat \<Rightarrow> int \<Rightarrow> caller_ctx \<Rightarrow> mft_store \<Rightarrow> ((errno + nat) \<times> caller_ctx \<times> mft_store) result" where
  "ntfs_attr_find_vcn_nolock env ni vcn cx st =
     bind_result (deref st ni) (\<lambda>n.
     if \<not> NIno NI_NonResident n then Bug
     else if vcn < 0 then Bug
     else if ni_runlist n = None \<and> ni_allocated_size n = 0 then Ok (Inl ENOENT, cx, st)
     else find_vcn_attempt 1 env ni vcn cx st)"

section \<open>Loading an attribute list\<close>

text \<open>How the reading of blocks is left: with more to read, at the last block, or with an error.\<close>

datatype load_out = More nat "u8 list" | Last nat "u8 list" "u8 list" | Failed "u8 list"

text \<open>The blocks of one run; \<open>sb_bread\<close> gives the contents of a block or fails.\<close>

fun load_run :: "(nat \<Rightarrow> u8 list option) \<Rightarrow> nat \<Rightarrow> nat \<Rightarrow> nat \<Rightarrow> nat \<Rightarrow> nat \<Rightarrow> u8 list \<Rightarrow> load_out result" where
  "load_run sb_bread block_size 0 block al al_end buf = Ok (More al buf)"
| "load_run sb_bread block_size (Suc n) block al al_end buf =
     (case sb_bread block of
        None \<Rightarrow> Ok (Failed buf)
      | Some bh \<Rightarrow>
          if al + block_size \<ge> al_end then Ok (Last al bh buf)
          else
            bind_result (rd_bytes bh 0 block_size) (\<lambda>bs.
            bind_result (wr_bytes buf al bs) (\<lambda>buf.
              load_run sb_bread block_size n (block + 1) (al + block_size) al_end buf)))"

definition load_block_of :: "ntfs_volume \<Rightarrow> int \<Rightarrow> nat" where
  "load_block_of vol x = nat (s64 (x * 2 ^ cluster_size_bits vol) div 2 ^ sb_blocksize_bits vol mod 2 ^ 64)"

fun load_runs :: "ntfs_volume \<Rightarrow> (nat \<Rightarrow> u8 list option) \<Rightarrow> runlist \<Rightarrow> nat \<Rightarrow> nat \<Rightarrow> u8 list \<Rightarrow> load_out result" where
  "load_runs vol sb_bread [] al al_end buf = Oob"
| "load_runs vol sb_bread (e # rest) al al_end buf =
     (if rl_len e = 0 then Ok (More al buf)
      else
        bind_result (ntfs_rl_vcn_to_lcn (Some (e # rest)) (rl_vcn e)) (\<lambda>lcn.
        if lcn < 0 then Ok (Failed buf)
        else
          let block = load_block_of vol lcn;
              max_block = (block + load_block_of vol (rl_len e)) mod 2 ^ 64 in
          bind_result (load_run sb_bread (sb_blocksize vol) (max 1 (max_block - block)) block al al_end buf) (\<lambda>out.
          case out of
            More al buf \<Rightarrow> load_runs vol sb_bread rest al al_end buf
          | _ \<Rightarrow> Ok out)))"

definition load_attribute_list ::
    "ntfs_volume \<Rightarrow> (nat \<Rightarrow> u8 list option) \<Rightarrow> runlist option \<Rightarrow> u8 list \<Rightarrow> int \<Rightarrow> int \<Rightarrow> (errno option \<times> u8 list) result" where
  "load_attribute_list vol sb_bread rlo buf sz initialized_size =
     (if sz \<le> 0 \<or> initialized_size < 0 \<or> initialized_size > sz then Ok (Some EINVAL, buf)
      else if initialized_size = 0 then
        bind_result (wr_bytes buf 0 (replicate (nat sz) 0)) (\<lambda>buf. Ok (None, buf))
      else
        let al_end = nat initialized_size;
            initialize = (\<lambda>buf.
              if initialized_size < sz
              then bind_result (wr_bytes buf al_end (replicate (nat sz - al_end) 0)) (\<lambda>buf. Ok (None, buf))
              else Ok (None, buf)) in
        case rlo of
          None \<Rightarrow> Ok (Some EIO, buf)
        | Some rl \<Rightarrow>
            bind_result (load_runs vol sb_bread rl 0 al_end buf) (\<lambda>out.
            case out of
              Failed buf \<Rightarrow> Ok (Some EIO, buf)
            | More al buf \<Rightarrow> initialize buf
            | Last al bh buf \<Rightarrow>
                if al < al_end then
                  bind_result (rd_bytes bh 0 (al_end - al)) (\<lambda>bs.
                  bind_result (wr_bytes buf al bs) (\<lambda>buf. initialize buf))
                else Ok (Some EIO, buf)))"

end
