(* ===== verification/Ntfs_Runlist_Load.thy ===== *)
theory Ntfs_Runlist_Load
  imports Ntfs_Attr_Runlist
begin

text \<open>
  What the functions of \<^verbatim>\<open>Ntfs_Attr_Runlist\<close> compute: the contents of an attribute list that is read from
  the device, and the lcns of an attribute whose runlist is loaded from the mft on demand.
\<close>

section \<open>Loading an attribute list\<close>

lemma take_wr_bytes:
  assumes "wr_bytes buf i bs = Ok buf'"
  shows "take (i + length bs) buf' = take i buf @ bs" "length buf' = length buf" "i + length bs \<le> length buf"
  using assms by (auto simp: wr_bytes_def split: if_splits)

text \<open>A buffer that holds the first \<open>n\<close> bytes of the file with the bytes \<open>F\<close>.\<close>

definition holds_upto :: "(nat \<Rightarrow> u8) \<Rightarrow> nat \<Rightarrow> u8 list \<Rightarrow> bool" where
  "holds_upto F n buf \<longleftrightarrow> n \<le> length buf \<and> take n buf = map F [0..<n]"

lemma holds_upto_write:
  assumes "holds_upto F n buf" "wr_bytes buf n bs = Ok buf'" "bs = map F [n..<m]" "n \<le> m"
  shows "holds_upto F m buf' \<and> length buf' = length buf"
proof -
  have "[0..<m] = [0..<n] @ [n..<m]"
    using assms(4) upt_add_eq_append [of 0 n "m - n"] by simp
  then show ?thesis
    using take_wr_bytes [OF assms(2)] assms(1,3,4) by (simp add: holds_upto_def)
qed

definition device :: "(nat \<Rightarrow> u8) \<Rightarrow> nat \<Rightarrow> nat \<Rightarrow> u8 list option" where
  "device disk block_size block = Some (map disk [block * block_size..<block * block_size + block_size])"

definition load_step_ok :: "(nat \<Rightarrow> u8) \<Rightarrow> nat \<Rightarrow> nat \<Rightarrow> nat \<Rightarrow> load_out \<Rightarrow> bool" where
  "load_step_ok F len al_end next out \<longleftrightarrow>
     (case out of
        More al buf \<Rightarrow> al = next \<and> next < al_end \<and> length buf = len \<and> holds_upto F al buf
      | Last al bh buf \<Rightarrow> al < al_end \<and> al_end \<le> next \<and> length buf = len \<and> holds_upto F al buf \<and>
          rd_bytes bh 0 (al_end - al) = Ok (map F [al..<al_end])
      | Failed buf \<Rightarrow> False)"

lemma map_shift: "map f [a..<a + n] = map g [b..<b + n] \<longleftrightarrow> (\<forall>i<n. f (a + i) = g (b + i))"
  by (auto simp: list_eq_iff_nth_eq)

lemma load_run_ok:
  assumes "0 < bs" "al < al_end" "al_end \<le> length buf" "holds_upto F al buf"
    and "\<forall>i<n * bs. F (al + i) = disk (block * bs + i)"
  shows "\<exists>out. load_run (device disk bs) bs n block al al_end buf = Ok out \<and> load_step_ok F (length buf) al_end (al + n * bs) out"
  using assms
proof (induction n arbitrary: block al buf)
  case (Suc n)
  let ?bh = "map disk [block * bs..<block * bs + bs]"
  have dv: "device disk bs block = Some ?bh"
    by (simp add: device_def)
  have bh: "?bh = map F [al..<al + bs]"
    using Suc.prems(5) by (simp add: map_shift)
  show ?case
  proof (cases "al + bs \<ge> al_end")
    case True
    have "take (al_end - al) ?bh = map F [al..<al_end]"
      using True Suc.prems(2) unfolding bh by (simp add: take_map)
    then show ?thesis
      using True Suc.prems by (simp add: device_def load_step_ok_def rd_bytes_def)
  next
    case False
    obtain buf' where w: "wr_bytes buf al ?bh = Ok buf'"
      using False Suc.prems(3) wr_bytes_Ok [of al ?bh buf] by auto
    have h: "holds_upto F (al + bs) buf'" "length buf' = length buf"
      using holds_upto_write [OF Suc.prems(4) w bh] by auto
    have "\<forall>i<n * bs. F (al + bs + i) = disk ((block + 1) * bs + i)"
      using Suc.prems(5) by (auto simp: algebra_simps dest: spec [of _ "bs + _"])
    then obtain out where "load_run (device disk bs) bs n (block + 1) (al + bs) al_end buf' = Ok out"
        "load_step_ok F (length buf) al_end (al + bs + n * bs) out"
      using Suc.IH [of "al + bs" buf' "block + 1"] Suc.prems(1,3) False h by auto
    then show ?thesis
      using False w dv by (auto simp: rd_bytes_def add.assoc)
  qed
qed (simp add: load_step_ok_def)

text \<open>The bytes of a file with the runlist \<open>rl\<close> on the device \<open>disk\<close>.\<close>

definition file_byte :: "nat \<Rightarrow> (nat \<Rightarrow> u8) \<Rightarrow> runlist \<Rightarrow> nat \<Rightarrow> u8" where
  "file_byte cs disk rl i = disk (nat (rl_map rl (int (i div cs))) * cs + i mod cs)"

text \<open>Every run is allocated and can be addressed in bytes.\<close>

fun rl_on_device :: "nat \<Rightarrow> runlist \<Rightarrow> bool" where
  "rl_on_device csb [] \<longleftrightarrow> False"
| "rl_on_device csb (e # rest) \<longleftrightarrow>
     rl_len e = 0 \<or> (0 \<le> rl_lcn e \<and> (rl_lcn e + rl_len e) * 2 ^ csb < 9223372036854775808 \<and> rl_on_device csb rest)"

lemma load_block_of_eq:
  assumes "0 \<le> x" "x * 2 ^ csb < 9223372036854775808" "csb = cluster_size_bits vol" "sb_blocksize_bits vol \<le> csb"
  shows "load_block_of vol x * 2 ^ sb_blocksize_bits vol = nat x * 2 ^ csb" "load_block_of vol x < 9223372036854775808"
proof -
  let ?b = "sb_blocksize_bits vol"
  obtain d where d: "csb = d + ?b" using assms(4) by (metis le_iff_add add.commute)
  have x: "s64 (x * 2 ^ csb) = x * 2 ^ csb" using assms(1,2) by (intro s64_id) (auto intro: order_trans [of _ 0])
  have e: "x * 2 ^ csb = x * 2 ^ d * 2 ^ ?b" by (simp add: d power_add)
  have dd: "x * 2 ^ csb div 2 ^ ?b = x * 2 ^ d" unfolding e by simp
  have lt: "x * 2 ^ d < 9223372036854775808"
  proof -
    have "x * 2 ^ d * 1 \<le> x * 2 ^ d * 2 ^ ?b" using assms(1) by (intro mult_left_mono) auto
    then show ?thesis using assms(2) e by linarith
  qed
  have l: "load_block_of vol x = nat (x * 2 ^ d)"
    using assms(1) lt unfolding load_block_of_def assms(3) [symmetric] x dd by simp
  show "load_block_of vol x < 9223372036854775808" using l lt assms(1) by simp
  show "load_block_of vol x * 2 ^ ?b = nat x * 2 ^ csb"
    using assms(1) unfolding l by (simp add: d power_add nat_mult_distrib nat_power_eq)
qed

lemma file_byte_run:
  assumes "0 < cs" "rl_chain v (e # rest)" "0 \<le> v" "rl_len e \<noteq> 0" "0 \<le> rl_lcn e" "i < nat (rl_len e) * cs"
  shows "file_byte cs disk (e # rest) (nat v * cs + i) = disk (nat (rl_lcn e) * cs + i)"
proof -
  have "i div cs < nat (rl_len e)"
    using assms(1,6) by (simp add: less_mult_imp_div_less)
  then have m: "rl_map (e # rest) (int (nat v + i div cs)) = rl_lcn e + int (i div cs)"
    using assms(2-5) by auto
  have "nat (rl_lcn e + int (i div cs)) * cs + i mod cs = nat (rl_lcn e) * cs + i"
    using assms(5) by (simp add: nat_add_distrib algebra_simps)
  then show ?thesis
    using assms(1) m by (simp add: file_byte_def)
qed

lemma file_byte_later:
  assumes "0 < cs" "rl_chain v (e # rest)" "0 \<le> v" "rl_len e \<noteq> 0" "nat (v + rl_len e) * cs \<le> i"
  shows "file_byte cs disk (e # rest) i = file_byte cs disk rest i"
proof -
  have "nat (v + rl_len e) \<le> i div cs"
    using assms(1,5) by (simp add: less_eq_div_iff_mult_less_eq)
  then show ?thesis
    using assms(2-4) by (auto simp: file_byte_def)
qed

lemma first_run_lcn:
  assumes "rl_chain v (e # rest)" "0 \<le> v" "rl_len e \<noteq> 0" "0 \<le> rl_lcn e"
  shows "ntfs_rl_vcn_to_lcn (Some (e # rest)) (rl_vcn e) = Ok (rl_lcn e)"
proof -
  from assms obtain e1 r where "rest = e1 # r" by (cases rest) auto
  then show ?thesis
    using assms by (auto simp: ntfs_rl_vcn_to_lcn_def s64_simps)
qed

lemma load_runs_ok:
  fixes vol :: ntfs_volume
  assumes geo: "cs = 2 ^ cluster_size_bits vol" "sb_blocksize vol = 2 ^ sb_blocksize_bits vol" "sb_blocksize_bits vol \<le> cluster_size_bits vol"
    and "rl_chain v rl" "0 \<le> v" "rl_on_device (cluster_size_bits vol) rl" "al_end \<le> nat (rl_end rl) * cs"
    and "nat v * cs < al_end" "holds_upto F (nat v * cs) buf" "al_end \<le> length buf"
    and "\<forall>i\<ge>nat v * cs. F i = file_byte cs disk rl i"
  shows "\<exists>al bh buf'. load_runs vol (device disk (sb_blocksize vol)) rl (nat v * cs) al_end buf = Ok (Last al bh buf') \<and>
    al < al_end \<and> length buf' = length buf \<and> holds_upto F al buf' \<and> rd_bytes bh 0 (al_end - al) = Ok (map F [al..<al_end])"
  using assms(4-)
proof (induction rl arbitrary: v buf)
  case (Cons e rest)
  let ?bs = "sb_blocksize vol" and ?csb = "cluster_size_bits vol"
  have cs: "0 < cs" "0 < ?bs" using geo by simp_all
  have len: "rl_len e \<noteq> 0"
    using Cons.prems by auto
  have e: "rl_vcn e = v" "0 < rl_len e" "rl_chain (v + rl_len e) rest" "0 \<le> rl_lcn e"
      "(rl_lcn e + rl_len e) * 2 ^ ?csb < 9223372036854775808" "rl_on_device ?csb rest"
    using Cons.prems(1,3) len by auto
  have small: "rl_lcn e * 2 ^ ?csb < 9223372036854775808" "rl_len e * 2 ^ ?csb < 9223372036854775808"
    using e(2,4) by (auto intro!: order_le_less_trans [OF mult_right_mono e(5)])
  note b = load_block_of_eq [OF e(4) small(1) refl geo(3)] and n = load_block_of_eq [OF less_imp_le [OF e(2)] small(2) refl geo(3)]
  let ?b = "load_block_of vol (rl_lcn e)" and ?n = "load_block_of vol (rl_len e)"
  have pos: "0 < ?n" using n(1) e(2) by (cases ?n) auto
  have cnt: "max 1 ((?b + ?n) mod 2 ^ 64 - ?b) = ?n"
    using b(2) n(2) pos by simp
  have bytes: "?b * ?bs = nat (rl_lcn e) * cs" "?n * ?bs = nat (rl_len e) * cs"
    using b(1) n(1) geo by simp_all
  have nxt: "nat v * cs + nat (rl_len e) * cs = nat (v + rl_len e) * cs"
    using Cons.prems(2) e(2) by (simp add: nat_add_distrib algebra_simps)
  have "\<forall>i<?n * ?bs. F (nat v * cs + i) = disk (?b * ?bs + i)"
    unfolding bytes using Cons.prems(8) file_byte_run [OF cs(1) Cons.prems(1,2) len e(4)] by simp
  then obtain out where out: "load_run (device disk ?bs) ?bs ?n ?b (nat v * cs) al_end buf = Ok out"
      "load_step_ok F (length buf) al_end (nat v * cs + ?n * ?bs) out"
    using load_run_ok [OF cs(2) Cons.prems(5,7,6)] by blast
  have step: "load_runs vol (device disk ?bs) (e # rest) (nat v * cs) al_end buf =
      (case out of More al buf \<Rightarrow> load_runs vol (device disk ?bs) rest al al_end buf | _ \<Rightarrow> Ok out)"
    using len out(1) cnt first_run_lcn [OF Cons.prems(1,2) len e(4)] e(4) by (simp add: Let_def)
  show ?case
  proof (cases out)
    case (More al buf')
    then have "al = nat (v + rl_len e) * cs" "al < al_end" "length buf' = length buf" "holds_upto F al buf'"
      using out(2) nxt bytes(2) by (auto simp: load_step_ok_def)
    moreover have "\<forall>i\<ge>nat (v + rl_len e) * cs. F i = file_byte cs disk rest i"
      using Cons.prems(8) file_byte_later [OF cs(1) Cons.prems(1,2) len] nxt by (metis le_add1 order_trans)
    ultimately show ?thesis
      using Cons.IH [of "v + rl_len e" buf'] e Cons.prems(2,4,7) len step More by auto
  next
    case (Last al bh buf')
    then show ?thesis using out(2) step by (auto simp: load_step_ok_def)
  next
    case (Failed buf')
    then show ?thesis using out(2) by (simp add: load_step_ok_def)
  qed
qed simp

definition block_geometry :: "ntfs_volume \<Rightarrow> bool" where
  "block_geometry vol \<longleftrightarrow> cluster_size vol = 2 ^ cluster_size_bits vol \<and> sb_blocksize vol = 2 ^ sb_blocksize_bits vol \<and>
     sb_blocksize_bits vol \<le> cluster_size_bits vol"

lemma clear_rest:
  assumes "holds_upto F n buf" "length buf = m"
  shows "(if n < m then bind_result (wr_bytes buf n (replicate (m - n) 0)) (\<lambda>buf. Ok (None :: errno option, buf)) else Ok (None, buf))
    = Ok (None, map (\<lambda>i. if i < n then F i else 0) [0..<m])"
proof -
  have n: "n \<le> m" "take n buf = map F [0..<n]"
    using assms by (auto simp: holds_upto_def)
  have "map (\<lambda>i. if i < n then F i else 0) [0..<m] = map F [0..<n] @ replicate (m - n) 0"
    using n(1) by (intro nth_equalityI) (auto simp: nth_append)
  then show ?thesis
    using n assms(2) by (auto simp: wr_bytes_def)
qed

text \<open>
  C33. Loading an attribute list. On a device whose blocks can be read, for a well-formed runlist whose runs
  are all allocated and which covers the initialized size, the buffer receives exactly the bytes that the
  clusters of the runlist hold, in the order of their vcns, up to the initialized size, and zeroes from
  there on.
\<close>

theorem load_attribute_list_correct:
  assumes "block_geometry vol" and "rl_wf rl" and "rl_on_device (cluster_size_bits vol) rl"
    and "0 < isz" and "isz \<le> sz" and "nat sz = length buf" and "isz \<le> rl_end rl * int (cluster_size vol)"
  shows "load_attribute_list vol (device disk (sb_blocksize vol)) (Some rl) buf sz isz =
    Ok (None, map (\<lambda>i. if i < nat isz then file_byte (cluster_size vol) disk rl i else 0) [0..<nat sz])"
proof -
  let ?F = "file_byte (cluster_size vol) disk rl" and ?n = "nat isz"
  have e: "?n \<le> nat (rl_end rl) * cluster_size vol"
    using assms(7) by (metis nat_int nat_le_eq_zle nat_mono nat_mult_distrib_neg nat_0_le linear mult.commute of_nat_0_le_iff nat_mult_distrib)
  have z: "holds_upto ?F 0 buf" "?n \<le> length buf"
    using assms(5,6) by (simp_all add: holds_upto_def nat_mono [of isz sz] flip: assms(6))
  obtain al bh buf' where l: "load_runs vol (device disk (sb_blocksize vol)) rl 0 ?n buf = Ok (Last al bh buf')"
      "al < ?n" "length buf' = length buf" "holds_upto ?F al buf'" "rd_bytes bh 0 (?n - al) = Ok (map ?F [al..<?n])"
    using load_runs_ok [of "cluster_size vol" vol 0 rl ?n ?F buf disk] assms(1-4) e z
    by (auto simp: block_geometry_def rl_wf_def)
  obtain buf'' where w: "wr_bytes buf' al (map ?F [al..<?n]) = Ok buf''"
    using wr_bytes_Ok [of al "map ?F [al..<?n]" buf'] l(2,3) z(2) by auto
  have h: "holds_upto ?F ?n buf''" "length buf'' = nat sz"
    using holds_upto_write [OF l(4) w refl] l(2,3) assms(6) by auto
  have "isz < sz \<longleftrightarrow> ?n < nat sz" using assms(4) by auto
  then show ?thesis
    using assms(4,5) l(1,2,5) w clear_rest [OF h] by (simp add: load_attribute_list_def Let_def)
qed

definition small_volume :: ntfs_volume where
  "small_volume = zero_volume\<lparr>sb_blocksize := 2, sb_blocksize_bits := 1, cluster_size := 4, cluster_size_bits := 2\<rparr>"

theorem load_attribute_list_correct_witness:
  "load_attribute_list small_volume (device of_nat 2) (Some [mk_rle 0 3 1, mk_rle 1 1 2, mk_rle 3 LCN_ENOENT 0])
     (replicate 9 255) 9 7 = Ok (None, [12, 13, 14, 15, 4, 5, 6, 0, 0])"
  using load_attribute_list_correct [of small_volume "[mk_rle 0 3 1, mk_rle 1 1 2, mk_rle 3 LCN_ENOENT 0]" 7 9 "replicate 9 255" of_nat]
  by (simp add: block_geometry_def small_volume_def rl_wf_def file_byte_def upt_rec)

end
