(* ===== verification/Ntfs_Runlist_Demand.thy ===== *)
theory Ntfs_Runlist_Demand
  imports Ntfs_Runlist_Load
begin

text \<open>
  Converting the vcns of an inode whose runlist is loaded when it is first needed: mapping the mft record,
  finding the attribute, decompressing its mapping pairs and searching the runlist.
\<close>

section \<open>The record on the disk\<close>

text \<open>The lcn of a vcn in the runlist \<open>rl\<close> that is stored on the disk.\<close>

definition disk_lcn :: "runlist \<Rightarrow> int \<Rightarrow> int" where
  "disk_lcn rl v = (if v < rl_end rl then rl_map rl v else LCN_ENOENT)"

definition is_loaded :: "runlist \<Rightarrow> runlist \<Rightarrow> bool" where
  "is_loaded rl rl' \<longleftrightarrow> rl_wf rl' \<and> (\<forall>v\<ge>0. rl_map rl' v = disk_lcn rl v)"

text \<open>
  The mft record \<open>m\<close> holds the attribute of the inode \<open>n\<close>, in its order, as its first match, and the mapping pairs of
  that attribute are what \<^verbatim>\<open>ntfs_mapping_pairs_build\<close> makes of \<open>rl\<close>.
\<close>

definition stores_runlist :: "ntfs_volume \<Rightarrow> ntfs_inode \<Rightarrow> u8 list \<Rightarrow> runlist \<Rightarrow> bool" where
  "stores_runlist vol n m rl \<longleftrightarrow>
     rl_wf rl \<and> rl_mapped rl \<and> length rl \<le> 65535 \<and> 0 < rl_end rl \<and>
     (\<exists>ofs xs e ba nm a nr ra buf mp stop.
        m_attrs_offset m = Ok ofs \<and> attr_chain m ofs xs e \<and> m_bytes_allocated m = Ok ba \<and> e \<le> ba \<and>
        (\<forall>x\<in>set xs. attr_named (upcase vol) m x) \<and> search_name (upcase vol) (ni_name n) (ni_name_len n) nm \<and>
        first_ge (upcase vol) (ni_type n, nm) m xs e = (None, a) \<and>
        a_non_resident m a = Ok nr \<and> nr \<noteq> 0 \<and> nr_attr_at m a = Ok ra \<and> buf \<noteq> [] \<and>
        ntfs_mapping_pairs_build vol buf (length buf) (Some rl) 0 (- 1) = Ok (mp, stop, None) \<and>
        extent_attr vol rl 0 (rl_end rl) mp ra)"

lemma stores_runlistI:
  assumes "rl_wf rl" "rl_mapped rl" "length rl \<le> 65535" "0 < rl_end rl"
    and "m_attrs_offset m = Ok ofs" "attr_chain m ofs xs e" "m_bytes_allocated m = Ok ba" "e \<le> ba"
    and "\<forall>x\<in>set xs. attr_named (upcase vol) m x" "search_name (upcase vol) (ni_name n) (ni_name_len n) nm"
    and "first_ge (upcase vol) (ni_type n, nm) m xs e = (None, a)"
    and "a_non_resident m a = Ok nr" "nr \<noteq> 0" "nr_attr_at m a = Ok ra" "buf \<noteq> []"
    and "ntfs_mapping_pairs_build vol buf (length buf) (Some rl) 0 (- 1) = Ok (mp, stop, None)"
    and "extent_attr vol rl 0 (rl_end rl) mp ra"
  shows "stores_runlist vol n m rl"
  using assms unfolding stores_runlist_def by blast

lemma stores_runlistE:
  assumes "stores_runlist vol n m rl"
  obtains ofs a nr ra where "m_attrs_offset m = Ok ofs"
    and "attr_find_loop (upcase vol) (ni_type n) (ni_name n) (ni_name_len n) CASE_SENSITIVE None 0 m ofs ofs = Ok (None, a)"
    and "a_non_resident m a = Ok nr" "nr \<noteq> 0" "nr_attr_at m a = Ok ra" "a_highest_vcn m a = Ok (rl_end rl - 1)"
    and "\<forall>malloc_ok mem. (\<forall>i. malloc_ok i) \<longrightarrow>
      (\<exists>rl'. ntfs_mapping_pairs_decompress malloc_ok mem vol ra None = Ok (Some rl') \<and> is_loaded rl rl')"
proof -
  from assms obtain ofs xs e ba nm a nr ra buf mp stop where
    s: "m_attrs_offset m = Ok ofs" "attr_chain m ofs xs e" "m_bytes_allocated m = Ok ba" "e \<le> ba"
      "\<forall>x\<in>set xs. attr_named (upcase vol) m x" "search_name (upcase vol) (ni_name n) (ni_name_len n) nm"
      "first_ge (upcase vol) (ni_type n, nm) m xs e = (None, a)"
      "a_non_resident m a = Ok nr" "nr \<noteq> 0" "nr_attr_at m a = Ok ra" "buf \<noteq> []"
      "ntfs_mapping_pairs_build vol buf (length buf) (Some rl) 0 (- 1) = Ok (mp, stop, None)"
      "extent_attr vol rl 0 (rl_end rl) mp ra"
    and w: "rl_wf rl" "rl_mapped rl" "length rl \<le> 65535" "0 < rl_end rl"
    unfolding stores_runlist_def by blast
  have f: "attr_find_loop (upcase vol) (ni_type n) (ni_name n) (ni_name_len n) CASE_SENSITIVE None 0 m ofs ofs = Ok (None, a)"
    using attr_find_loop_eq [OF s(2-6), of "ni_type n" 0 ofs] s(7) by simp
  have h: "a_highest_vcn m a = Ok (rl_end rl - 1)"
    using s(10,13) by (auto simp: nr_attr_at_def outcome_simps extent_attr_def)
  have d: "\<exists>rl'. ntfs_mapping_pairs_decompress malloc_ok mem vol ra None = Ok (Some rl') \<and> is_loaded rl rl'"
    if "\<forall>i. malloc_ok i" for malloc_ok mem
    using decompress_extent_map [OF w(1-3) order_refl w(4) _ that s(11,12) _ s(13), of mem]
    by (auto simp: is_loaded_def disk_lcn_def)
  show ?thesis
    using that [OF s(1) f s(8-10) h] d by blast
qed

section \<open>Loading the runlist\<close>

text \<open>An inode that stands for its own mft record and whose attributes all lie in that record.\<close>

definition plain_inode :: "ntfs_inode \<Rightarrow> bool" where
  "plain_inode n \<longleftrightarrow> idle n \<and> NIno NI_NonResident n \<and> \<not> NIno NI_Attr n \<and> \<not> NIno NI_AttrList n \<and> ni_allocated_size n \<noteq> 0"

definition env_ok :: "map_env \<Rightarrow> bool" where
  "env_ok env \<longleftrightarrow> me_ctx_ok env \<and> (\<forall>i. me_malloc_ok env i)"

definition with_runlist :: "nat \<Rightarrow> runlist \<Rightarrow> mft_store \<Rightarrow> mft_store" where
  "with_runlist ni rl st = st\<lparr>ms_inodes := (ms_inodes st)(ni := map_option (ni_runlist_update (\<lambda>_. Some rl)) (ms_inodes st ni))\<rparr>"

lemma mapped_runlist:
  "mapped p n st\<lparr>ms_inodes := (ms_inodes (mapped p n st))(p \<mapsto>
      n\<lparr>ni_count := ni_count n + 1, ni_mrec_lock := True, ni_page := Some (mrec_pos (ms_vol st) n div PAGE_SIZE),
        ni_page_ofs := mrec_pos (ms_vol st) n mod PAGE_SIZE, ni_runlist := rl\<rparr>)\<rparr>
   = mapped p (n\<lparr>ni_runlist := rl\<rparr>) (st\<lparr>ms_inodes := (ms_inodes st)(p \<mapsto> n\<lparr>ni_runlist := rl\<rparr>)\<rparr>)"
  by (cases n) (simp add: mapped_def Let_def mrec_pos_def)

lemma map_extent_plain:
  assumes n: "ms_inodes st ni = Some n" "ni_runlist n = None" and h: "a_highest_vcn m a = Ok (rl_end rl - 1)" "rl_end rl < 9223372036854775808"
    and ra: "nr_attr_at m a = Ok ra" and v: "0 \<le> vcn" "0 < rl_end rl"
    and d: "ntfs_mapping_pairs_decompress (me_malloc_ok env) (me_rl_mem env) (ms_vol st) ra None = Ok (Some rl')"
  shows "map_rl_extent env ni vcn (fresh_ctx ni m a False) (mapped ni n st) =
    (if vcn < rl_end rl then Ok (None, mapped ni (n\<lparr>ni_runlist := Some rl'\<rparr>) (with_runlist ni rl' st))
     else Ok (Some ENOENT, mapped ni n st))"
proof -
  have e: "s64 (rl_end rl) = rl_end rl"
    using h(2) v(2) by (intro s64_id) auto
  have upd: "upd ni (\<lambda>n. n\<lparr>ni_runlist := Some rl'\<rparr>) (mapped ni n st)
      = Ok (mapped ni (n\<lparr>ni_runlist := Some rl'\<rparr>) (with_runlist ni rl' st))"
    using n(1) mapped_runlist [of ni n st "Some rl'"] by (simp add: upd_def deref_def mapped_inode with_runlist_def)
  show ?thesis
    using h(1) ra v d n(2) by (simp add: map_rl_extent_def e deref_def mapped_inode upd)
qed

lemma map_runlist_plain:
  assumes n: "ms_inodes st ni = Some n" "plain_inode n" "ni_runlist n = None" and env: "env_ok env"
    and m: "map_mft_record (me_kernel env) ni st = Ok (Inr m, mapped ni n st)" and rl: "stores_runlist (ms_vol st) n m rl"
    and v: "0 \<le> vcn"
  shows "\<exists>rl'. is_loaded rl rl' \<and> ntfs_map_runlist_nolock env ni vcn None st =
    (if vcn < rl_end rl then Ok (None, None, with_runlist ni rl' st) else Ok (Some ENOENT, None, st))"
proof -
  obtain ofs a nr ra where s: "m_attrs_offset m = Ok ofs"
    "attr_find_loop (upcase (ms_vol st)) (ni_type n) (ni_name n) (ni_name_len n) CASE_SENSITIVE None 0 m ofs ofs = Ok (None, a)"
    "a_non_resident m a = Ok nr" "nr \<noteq> 0" "nr_attr_at m a = Ok ra" "a_highest_vcn m a = Ok (rl_end rl - 1)"
    and d: "\<forall>malloc_ok mem. (\<forall>i. malloc_ok i) \<longrightarrow>
      (\<exists>rl'. ntfs_mapping_pairs_decompress malloc_ok mem (ms_vol st) ra None = Ok (Some rl') \<and> is_loaded rl rl')"
    using stores_runlistE [OF rl] by blast
  obtain rl' where rl': "ntfs_mapping_pairs_decompress (me_malloc_ok env) (me_rl_mem env) (ms_vol st) ra None = Ok (Some rl')"
      "is_loaded rl rl'"
    using d env by (auto simp: env_ok_def)
  have e: "0 < rl_end rl" "rl_end rl < 9223372036854775808"
    using rl rl_chain_end [of 0 rl] by (auto simp: stores_runlist_def rl_wf_def)
  let ?n = "n\<lparr>ni_runlist := Some rl'\<rparr>" and ?st = "with_runlist ni rl' st"
  have idle: "idle n" "idle ?n" "ms_inodes ?st ni = Some ?n" "\<not> NIno NI_Attr n"
    using n by (auto simp: plain_inode_def idle_def with_runlist_def)
  have "map_rl_search env ni vcn (fresh_ctx ni m ofs True) (mapped ni n st) =
    (if vcn < rl_end rl then Ok (None, fresh_ctx ni m a False, mapped ni ?n ?st)
     else Ok (Some ENOENT, fresh_ctx ni m a False, mapped ni n st))"
    using s map_extent_plain [OF n(1,3) s(6) e(2) s(5) v e(1) rl'(1)] lookup_plain [OF _ s(2)] n(2)
    by (simp add: map_rl_search_def deref_def mapped_inode plain_inode_def)
  then have "map_rl_temporary env ni ni vcn st = (if vcn < rl_end rl then Ok (None, ?st) else Ok (Some ENOENT, st))"
    using m env s(1) unmap_mapped [OF n(1) idle(1)] unmap_mapped [OF idle(3,2)]
    by (simp add: map_rl_temporary_def ntfs_attr_get_search_ctx_def ntfs_attr_init_search_ctx_def env_ok_def
        ntfs_attr_put_search_ctx_def)
  then show ?thesis
    using rl'(2) n(1) idle(4) by (auto simp: ntfs_map_runlist_nolock_def)
qed

section \<open>Converting\<close>

lemma mapped_lcn:
  assumes "rl_chain s rl" "rl_mapped rl" "s \<le> v" "v < rl_end rl"
  shows "LCN_HOLE \<le> rl_map rl v"
  using assms
proof (induction rl arbitrary: s)
  case (Cons e rest)
  then show ?case by (cases "rl_len e = 0") auto
qed simp

lemma disk_lcn_cases:
  assumes "stores_runlist vol n m rl" "0 \<le> v"
  shows "LCN_HOLE \<le> disk_lcn rl v \<or> disk_lcn rl v = LCN_ENOENT"
  using assms mapped_lcn [of 0 rl v] by (auto simp: stores_runlist_def rl_wf_def disk_lcn_def)

lemma convert_loaded:
  assumes "ms_inodes st ni = Some n" "ni_runlist n = Some rl'" "is_loaded rl rl'" "0 \<le> vcn" "vcn < 9223372036854775808"
    and "LCN_HOLE \<le> disk_lcn rl vcn \<or> disk_lcn rl vcn = LCN_ENOENT"
  shows "retry_remap env ni vcn wl retry others st = Ok (disk_lcn rl vcn, st)"
proof -
  have "inode_vcn_to_lcn ni vcn st = Ok (disk_lcn rl vcn)"
    using assms rl_vcn_to_lcn_map [of rl' vcn] by (simp add: inode_vcn_to_lcn_def is_loaded_def)
  then show ?thesis
    using assms(6) by (subst retry_remap.simps) auto
qed

lemma convert_unloaded:
  assumes "inode_vcn_to_lcn ni vcn st = Ok LCN_RL_NOT_MAPPED" "ntfs_map_runlist_nolock env ni vcn None st = Ok (err, cx, st')"
  shows "retry_remap env ni vcn wl False [] st =
    (case err of None \<Rightarrow> retry_remap env ni vcn wl True [] st' | Some e \<Rightarrow> Ok (lcn_of_error e, st'))"
  using assms by (subst retry_remap.simps) (simp add: split: option.split)

text \<open>
  C3. Converting a vcn with a runlist that is loaded on demand. Let the mft record of an inode hold its non-resident
  attribute, with the mapping pairs that were built from the runlist \<open>rl\<close>. Then the conversion of any vcn gives
  the lcn of \<open>rl\<close>, or \<^verbatim>\<open>LCN_ENOENT\<close> behind its end, whether the runlist is in memory already or has to be
  loaded by mapping the record, searching the attribute and decompressing the pairs. The
  record is unmapped again, and the store changes at most in that the runlist of the inode is loaded.
\<close>

theorem vcn_to_lcn_on_demand:
  assumes n: "ms_inodes st ni = Some n" "plain_inode n" and env: "env_ok env"
    and m: "map_mft_record (me_kernel env) ni st = Ok (Inr m, mapped ni n st)" and rl: "stores_runlist (ms_vol st) n m rl"
    and old: "case ni_runlist n of None \<Rightarrow> True | Some old \<Rightarrow> is_loaded rl old"
    and v: "0 \<le> vcn" "vcn < 9223372036854775808"
  shows "\<exists>st' rl'. ntfs_attr_vcn_to_lcn_nolock env ni vcn write_locked [] st = Ok (disk_lcn rl vcn, st') \<and>
    is_loaded rl rl' \<and> (st' = st \<or> st' = with_runlist ni rl' st)"
proof -
  note c = disk_lcn_cases [OF rl v(1)]
  have start: "ntfs_attr_vcn_to_lcn_nolock env ni vcn write_locked [] st = retry_remap env ni vcn write_locked False [] st"
    using n v(1) by (simp add: ntfs_attr_vcn_to_lcn_nolock_def plain_inode_def)
  show ?thesis
  proof (cases "ni_runlist n")
    case (Some r)
    then show ?thesis
      using start old convert_loaded [OF n(1) Some _ v c] by auto
  next
    case None
    then have un: "inode_vcn_to_lcn ni vcn st = Ok LCN_RL_NOT_MAPPED"
      using n(1) v(1) by (simp add: inode_vcn_to_lcn_def ntfs_rl_vcn_to_lcn_def)
    obtain rl' where rl': "is_loaded rl rl'" "ntfs_map_runlist_nolock env ni vcn None st =
        (if vcn < rl_end rl then Ok (None, None, with_runlist ni rl' st) else Ok (Some ENOENT, None, st))"
      using map_runlist_plain [OF n None env m rl v(1)] by blast
    have "ms_inodes (with_runlist ni rl' st) ni = Some (n\<lparr>ni_runlist := Some rl'\<rparr>)"
      using n(1) by (simp add: with_runlist_def)
    from convert_loaded [OF this _ rl'(1) v c]
    have "retry_remap env ni vcn write_locked True [] (with_runlist ni rl' st) = Ok (disk_lcn rl vcn, with_runlist ni rl' st)"
      by simp
    then show ?thesis
      using start convert_unloaded [OF un] rl' by (auto simp: disk_lcn_def lcn_of_error_def split: if_splits)
  qed
qed

text \<open>A record with one non-resident data attribute that stores the runlist \<open>mp_runlist\<close>.\<close>

definition demand_mrec :: "u8 list" where
  "demand_mrec = [0x46, 0x49, 0x4c, 0x45] @ replicate 16 0 @ [48, 0] @ replicate 6 0 @ [125, 0, 0, 0] @ replicate 16 0 @
     [0x80, 0, 0, 0, 73, 0, 0, 0, 1, 0, 0, 0, 0, 0, 0, 0] @ replicate 8 0 @ [19, 0, 0, 0, 0, 0, 0, 0] @
     [64, 0, 0, 0, 0, 0, 0, 0] @ [0, 0x40, 1, 0, 0, 0, 0, 0] @ replicate 16 0 @ mp_bytes_example @ [255, 255, 255, 255]"

definition demand_inode :: ntfs_inode where
  "demand_inode = example_inode\<lparr>ni_allocated_size := 81920, ni_state := [NI_NonResident], ni_mft_no := 0, ni_type := 0x80\<rparr>"

definition demand_store :: mft_store where
  "demand_store = \<lparr>ms_vol = mp_volume, ms_inodes = [1 \<mapsto> demand_inode], ms_pins = (\<lambda>i. 0)\<rparr>"

definition demand_env :: map_env where
  "demand_env = \<lparr>me_kernel = example_kernel\<lparr>read_mapping_page := (\<lambda>i. Inr (demand_mrec, False))\<rparr>, me_malloc_ok = (\<lambda>i. True),
     me_rl_mem = merge_mem, me_ctx_ok = True, me_retries = []\<rparr>"

lemma demand_large_fields:
  "le32_at demand_mrec 0 = Ok magic_FILE" "a_type demand_mrec 121 = Ok AT_END" "a_allocated_size demand_mrec 48 = Ok 81920"
  by (simp_all add: demand_mrec_def field_defs rd_le_def rd_bytes_def sle64_at_def magic_FILE_def AT_END_def mp_bytes_example_def s64_def)

lemma demand_fields:
  "m_attrs_offset demand_mrec = Ok 48" "m_bytes_allocated demand_mrec = Ok 125"
  "a_type demand_mrec 48 = Ok 0x80" "a_length demand_mrec 48 = Ok 73" "a_non_resident demand_mrec 48 = Ok 1"
  "a_name_length demand_mrec 48 = Ok 0" "a_name_offset demand_mrec 48 = Ok 0"
  "a_mapping_pairs_offset demand_mrec 48 = Ok 64" "a_lowest_vcn demand_mrec 48 = Ok 0" "a_highest_vcn demand_mrec 48 = Ok 19"
  by code_simp+

lemma demand_stored: "stores_runlist mp_volume demand_inode demand_mrec mp_runlist"
proof -
  let ?ra = "\<lparr>na_mem = drop 48 demand_mrec, na_length = 73, na_mp_offset = 64, na_lowest_vcn = 0, na_highest_vcn = 19,
    na_allocated_size = 81920\<rparr>"
  have up: "upcase mp_volume = []" by (simp add: mp_volume_def zero_volume_def)
  have k: "attr_key demand_mrec 48 = (0x80, [])" by (simp add: attr_key_def demand_fields demand_large_fields)
  have c: "attr_chain demand_mrec 48 [48] 121" by (simp add: demand_fields demand_large_fields AT_END_def)
  have f: "first_ge [] (0x80, []) demand_mrec [48] 121 = (None, 48)" by (simp add: k key_cmp_0)
  have a: "extent_attr mp_volume mp_runlist 0 20 mp_bytes_example ?ra"
    by (simp add: extent_attr_def mp_runlist_facts mp_volume_def mp_example_facts demand_mrec_def)
  have named: "attr_named [] demand_mrec 48" by (simp add: attr_named_def demand_fields demand_large_fields k)
  have ra: "nr_attr_at demand_mrec 48 = Ok ?ra" by (simp add: nr_attr_at_def demand_fields demand_large_fields)
  show ?thesis
    by (rule stores_runlistI [OF mp_runlist_facts(1,2) _ _ demand_fields(1) c demand_fields(2) _ _ _ _ demand_fields(5) _ ra _ mp_build_example])
       (use a named f in \<open>simp_all add: up mp_runlist_facts search_name_def legal_name_def demand_inode_def example_inode_def mp_runlist_def\<close>)
qed

theorem vcn_to_lcn_on_demand_witness:
  "\<exists>st' rl'. ntfs_attr_vcn_to_lcn_nolock demand_env 1 17 False [] demand_store = Ok (51, st') \<and>
    is_loaded mp_runlist rl' \<and> (st' = demand_store \<or> st' = with_runlist 1 rl' demand_store)"
proof -
  have n: "ms_inodes demand_store 1 = Some demand_inode" "plain_inode demand_inode" "env_ok demand_env"
    by (simp_all add: demand_store_def demand_inode_def example_inode_def plain_inode_def idle_def NIno_def env_ok_def demand_env_def)
  have m: "map_mft_record (me_kernel demand_env) 1 demand_store = Ok (Inr demand_mrec, mapped 1 demand_inode demand_store)"
    by (simp add: map_mft_record_def map_mft_record_page_def map_checked_page_def ntfs_map_page_def ntfs_is_mft_recordp_def
        demand_env_def demand_store_def demand_inode_def example_inode_def example_kernel_def lock_defs mrec_pos_def beyond_mft_def
        mp_volume_def zero_volume_def PAGE_SIZE_def demand_fields demand_large_fields mapped_def Let_def)
  have "disk_lcn mp_runlist 17 = 51" by (simp add: disk_lcn_def mp_runlist_def)
  then show ?thesis
    using vcn_to_lcn_on_demand [OF n m, of mp_runlist 17 False] demand_stored
    by (simp add: demand_store_def demand_inode_def example_inode_def)
qed

end
