(* ===== verification/Ntfs_Compress.thy ===== *)
theory Ntfs_Compress
  imports Ntfs_Bytes
begin

text \<open>
  The decompression engine of \<^verbatim>\<open>compress.c\<close>: the pages of a file, the compression buffer,
  \<^verbatim>\<open>ntfs_decompress\<close> with its sub-blocks, tags and tokens, and the two functions that clear what
  lies outside the initialized size. A page is addressed by its index in the mapping of the file, so
  that several users of a page see the same object. Offsets into a page stand for the pointers
  \<^verbatim>\<open>dp_addr\<close>, \<^verbatim>\<open>dp_sb_start\<close> and \<^verbatim>\<open>dp_sb_end\<close>; \<^verbatim>\<open>PAGE_CACHE_SIZE\<close> is 4096.
\<close>

unbundle bit_operations_syntax

section \<open>Pages\<close>

record page =
  pg_data :: "u8 list"
  pg_uptodate :: bool
  pg_dirty :: bool
  pg_error :: bool
  pg_locked :: bool
  pg_kmaps :: nat
  pg_count :: nat

type_synonym page_cache = "nat \<Rightarrow> page option"

definition get_page :: "page_cache \<Rightarrow> nat \<Rightarrow> page result" where
  "get_page c p = (case c p of Some pg \<Rightarrow> Ok pg | None \<Rightarrow> Oob)"

text \<open>Giving up the mapping, the lock and the reference of a page that has none is a bug.\<close>

definition kunmap :: "nat \<Rightarrow> page_cache \<Rightarrow> page_cache result" where
  "kunmap p c = bind_result (get_page c p) (\<lambda>pg.
     if pg_kmaps pg = 0 then Bug else Ok (c(p \<mapsto> pg\<lparr>pg_kmaps := pg_kmaps pg - 1\<rparr>)))"

definition unlock_page :: "nat \<Rightarrow> page_cache \<Rightarrow> page_cache result" where
  "unlock_page p c = bind_result (get_page c p) (\<lambda>pg.
     if \<not> pg_locked pg then Bug else Ok (c(p \<mapsto> pg\<lparr>pg_locked := False\<rparr>)))"

definition page_cache_release :: "nat \<Rightarrow> page_cache \<Rightarrow> page_cache result" where
  "page_cache_release p c = bind_result (get_page c p) (\<lambda>pg.
     if pg_count pg = 0 then Bug else Ok (c(p \<mapsto> pg\<lparr>pg_count := pg_count pg - 1\<rparr>)))"

definition SetPageUptodate :: "nat \<Rightarrow> page_cache \<Rightarrow> page_cache result" where
  "SetPageUptodate p c = bind_result (get_page c p) (\<lambda>pg. Ok (c(p \<mapsto> pg\<lparr>pg_uptodate := True\<rparr>)))"

definition set_page_data :: "nat \<Rightarrow> u8 list \<Rightarrow> page_cache \<Rightarrow> page_cache result" where
  "set_page_data p d c = bind_result (get_page c p) (\<lambda>pg. Ok (c(p \<mapsto> pg\<lparr>pg_data := d\<rparr>)))"

section \<open>The compression buffer\<close>

definition NTFS_SB_SIZE_MASK :: nat where "NTFS_SB_SIZE_MASK = 0x0fff"
definition NTFS_SB_SIZE :: nat where "NTFS_SB_SIZE = 0x1000"
definition NTFS_SB_IS_COMPRESSED :: nat where "NTFS_SB_IS_COMPRESSED = 0x8000"
definition NTFS_MAX_CB_SIZE :: nat where "NTFS_MAX_CB_SIZE = 64 * 1024"

text \<open>The contents of a fresh buffer are given by \<open>vmalloc\<close>, which returns \<open>None\<close> without memory.\<close>

definition allocate_compression_buffers ::
    "(nat \<Rightarrow> u8 list option) \<Rightarrow> u8 list option \<Rightarrow> (errno option \<times> u8 list option) result" where
  "allocate_compression_buffers vmalloc buf =
     (if buf \<noteq> None then Bug
      else case vmalloc NTFS_MAX_CB_SIZE of
        None \<Rightarrow> Ok (Some ENOMEM, None)
      | Some b \<Rightarrow> Ok (None, Some b))"

definition free_compression_buffers :: "u8 list option \<Rightarrow> u8 list option result" where
  "free_compression_buffers buf = (if buf = None then Bug else Ok None)"

section \<open>Clearing what lies outside the initialized size\<close>

definition zero_partial_compressed_page :: "nat \<Rightarrow> int \<Rightarrow> u8 list \<Rightarrow> u8 list result" where
  "zero_partial_compressed_page index initialized_size kp =
     (if s64 (int index * 4096) \<ge> initialized_size then Ok (replicate PAGE_SIZE 0)
      else let kp_ofs = nat (initialized_size mod 4096) in
        wr_bytes kp kp_ofs (replicate (PAGE_SIZE - kp_ofs) 0))"

text \<open>The index of a page is unsigned, so that the comparison is unsigned.\<close>

definition handle_bounds_compressed_page :: "nat \<Rightarrow> int \<Rightarrow> int \<Rightarrow> u8 list \<Rightarrow> u8 list result" where
  "handle_bounds_compressed_page index i_size initialized_size kp =
     (if int index \<ge> (initialized_size div 4096) mod 18446744073709551616 \<and> initialized_size < i_size
      then zero_partial_compressed_page index initialized_size kp else Ok kp)"

section \<open>Tokens\<close>

text \<open>
  The position inside a sub-block: the source, \<^verbatim>\<open>*dest_ofs\<close>, \<^verbatim>\<open>dp_addr\<close> and the
  contents of the destination page.
\<close>

record sb_pos =
  sb_cb :: nat
  sb_ofs :: nat
  sb_dp :: nat
  sb_data :: "u8 list"

text \<open>The logarithm of the position, which splits a phrase token into distance and length.\<close>

fun lg_loop :: "nat \<Rightarrow> nat" where
  "lg_loop i = (if i \<ge> 0x10 then lg_loop (i div 2) + 1 else 0)"

declare lg_loop.simps [simp del]

text \<open>The slow copy, byte by byte, in which source and destination overlap.\<close>

fun slow_copy :: "u8 list \<Rightarrow> nat \<Rightarrow> nat \<Rightarrow> nat \<Rightarrow> u8 list result" where
  "slow_copy data dp back_addr 0 = Ok data"
| "slow_copy data dp back_addr (Suc n) =
     bind_result (rd data back_addr) (\<lambda>b.
     bind_result (wr data dp b) (\<lambda>data. slow_copy data (dp + 1) (back_addr + 1) n))"

definition page_memcpy :: "u8 list \<Rightarrow> nat \<Rightarrow> nat \<Rightarrow> nat \<Rightarrow> u8 list result" where
  "page_memcpy data dst src n = bind_result (rd_bytes data src n) (wr_bytes data dst)"

definition copy_phrase :: "u8 list \<Rightarrow> nat \<Rightarrow> nat \<Rightarrow> nat \<Rightarrow> u8 list result" where
  "copy_phrase data dp back_addr n =
     (let max_non_overlap = dp - back_addr in
      if n \<le> max_non_overlap then page_memcpy data dp back_addr n
      else
        bind_result (page_memcpy data dp back_addr max_non_overlap) (\<lambda>data.
          slow_copy data (dp + max_non_overlap) (back_addr + max_non_overlap) (n - max_non_overlap)))"

text \<open>
  One phrase token in the sub-block that starts at \<open>start\<close>; the first component of the result is
  true for \<^verbatim>\<open>return_overflow\<close>.
\<close>

definition dec_phrase :: "u8 list \<Rightarrow> nat \<Rightarrow> nat \<Rightarrow> sb_pos \<Rightarrow> (bool \<times> sb_pos) result" where
  "dec_phrase cbm start do_end p =
     (if sb_dp p = start then Ok (True, p)
      else
        let lg = lg_loop (nat ((int (sb_ofs p) - int start - 1) mod 65536)) in
        bind_result (le16_at cbm (sb_cb p)) (\<lambda>pt.
        let dist = drop_bit (12 - lg) pt + 1 in
        if sb_dp p < start + dist then Ok (True, p)
        else
          let n = (pt AND drop_bit lg 0xfff) + 3; ofs = sb_ofs p + n in
          if ofs > do_end then Ok (True, p\<lparr>sb_ofs := ofs\<rparr>)
          else
            bind_result (copy_phrase (sb_data p) (sb_dp p) (sb_dp p - dist) n) (\<lambda>data.
              Ok (False, p\<lparr>sb_cb := sb_cb p + 2, sb_ofs := ofs, sb_dp := sb_dp p + n, sb_data := data\<rparr>))))"

text \<open>The loop over the eight tokens of a tag.\<close>

fun dec_tokens :: "nat \<Rightarrow> u8 \<Rightarrow> u8 list \<Rightarrow> nat \<Rightarrow> nat \<Rightarrow> nat \<Rightarrow> sb_pos \<Rightarrow> (bool \<times> sb_pos) result" where
  "dec_tokens 0 tag cbm sb_end start do_end p = Ok (False, p)"
| "dec_tokens (Suc n) tag cbm sb_end start do_end p =
     (if sb_cb p \<ge> sb_end \<or> sb_dp p > start + NTFS_SB_SIZE then Ok (False, p)
      else if tag AND 1 = 0 then
        bind_result (rd cbm (sb_cb p)) (\<lambda>b.
        bind_result (wr (sb_data p) (sb_dp p) b) (\<lambda>data.
          dec_tokens n (drop_bit 1 tag) cbm sb_end start do_end
            (p\<lparr>sb_cb := sb_cb p + 1, sb_ofs := sb_ofs p + 1, sb_dp := sb_dp p + 1, sb_data := data\<rparr>)))
      else
        bind_result (dec_phrase cbm start do_end p) (\<lambda>(overflow, p).
          if overflow then Ok (True, p)
          else dec_tokens n (drop_bit 1 tag) cbm sb_end start do_end p))"

lemma dec_phrase_mono: "dec_phrase cbm start do_end p = Ok (f, q) \<Longrightarrow> sb_cb p \<le> sb_cb q"
  by (auto simp: outcome_simps dec_phrase_def Let_def split: if_splits)

lemma dec_tokens_mono: "dec_tokens n tag cbm sb_end start do_end p = Ok (f, q) \<Longrightarrow> sb_cb p \<le> sb_cb q"
proof (induction n arbitrary: tag p)
  case (Suc n)
  consider "q = p"
    | b data where "dec_tokens n (drop_bit 1 tag) cbm sb_end start do_end
        (p\<lparr>sb_cb := sb_cb p + 1, sb_ofs := sb_ofs p + 1, sb_dp := sb_dp p + 1, sb_data := data\<rparr>) = Ok (f, q)"
    | o' r where "dec_phrase cbm start do_end p = Ok (o', r)"
        "q = r \<or> dec_tokens n (drop_bit 1 tag) cbm sb_end start do_end r = Ok (f, q)"
    using Suc.prems by (auto simp: outcome_simps split: if_splits)
  then show ?case
    using Suc.IH dec_phrase_mono order_trans by cases (fastforce | blast)+
qed simp

section \<open>Sub-blocks\<close>

text \<open>The end of a compressed sub-block: what is missing is filled with zeroes.\<close>

definition fill_sub_block :: "nat \<Rightarrow> nat \<Rightarrow> sb_pos \<Rightarrow> sb_pos result" where
  "fill_sub_block start do_end p =
     bind_result
       (if sb_dp p < start + NTFS_SB_SIZE then
          let nr_bytes = do_end - sb_ofs p in
          bind_result (wr_bytes (sb_data p) (sb_dp p) (replicate nr_bytes 0)) (\<lambda>data.
            Ok (p\<lparr>sb_data := data, sb_ofs := sb_ofs p + nr_bytes\<rparr>))
        else Ok p)
       (\<lambda>p. Ok (p\<lparr>sb_ofs := sb_ofs p mod 4096\<rparr>))"

function dec_tags :: "u8 list \<Rightarrow> nat \<Rightarrow> nat \<Rightarrow> nat \<Rightarrow> sb_pos \<Rightarrow> (bool \<times> sb_pos) result" where
  "dec_tags cbm sb_end start do_end p =
     (if sb_cb p = sb_end then bind_result (fill_sub_block start do_end p) (\<lambda>p. Ok (False, p))
      else if sb_cb p > sb_end \<or> sb_dp p > start + NTFS_SB_SIZE then Ok (True, p)
      else
        bind_result (rd cbm (sb_cb p)) (\<lambda>tag.
        bind_result (dec_tokens 8 tag cbm sb_end start do_end (p\<lparr>sb_cb := sb_cb p + 1\<rparr>)) (\<lambda>(overflow, p).
          if overflow then Ok (True, p) else dec_tags cbm sb_end start do_end p)))"
  by pat_completeness auto

termination
  by (relation "measure (\<lambda>(cbm, sb_end, start, do_end, p). sb_end - sb_cb p)")
     (auto dest!: dec_tokens_mono)

declare dec_tags.simps [simp del]

text \<open>
  The state of the decompression: source and destination position, the destination pages, the
  completed ones, whether the target page is done, and the lock of the compression buffer.
\<close>

record dec =
  dc_cb :: nat
  dc_index :: nat
  dc_ofs :: nat
  dc_pages :: "nat option list"
  dc_cache :: page_cache
  dc_completed :: "nat list"
  dc_xpage_done :: bool
  dc_locked :: bool

text \<open>The step to the next page behind the label \<^verbatim>\<open>finalize_page\<close>.\<close>

definition finalize_page :: "nat \<Rightarrow> nat \<Rightarrow> dec \<Rightarrow> (bool \<times> dec) result" where
  "finalize_page max_index cap s =
     (if length (dc_completed s) \<ge> cap then Oob
      else
        let s = s\<lparr>dc_completed := dc_completed s @ [dc_index s], dc_index := dc_index s + 1\<rparr> in
        Ok (dc_index s > max_index, s))"

definition skip_block :: "nat \<Rightarrow> nat \<Rightarrow> dec \<Rightarrow> (bool \<times> dec) result" where
  "skip_block max_index sb_end s =
     (let s = s\<lparr>dc_cb := sb_end, dc_ofs := (dc_ofs s + NTFS_SB_SIZE) mod 4096\<rparr> in
      if dc_ofs s = 0 then
        let s = s\<lparr>dc_index := dc_index s + 1\<rparr> in Ok (dc_index s > max_index, s)
      else Ok (False, s))"

definition stored_block :: "u8 list \<Rightarrow> nat \<Rightarrow> nat \<Rightarrow> nat \<Rightarrow> nat \<Rightarrow> nat \<Rightarrow> dec \<Rightarrow> (bool \<times> dec) result" where
  "stored_block cbm max_index cap sb_end start p s =
     (let s = s\<lparr>dc_cb := dc_cb s + 2\<rparr> in
      if sb_end - dc_cb s \<noteq> NTFS_SB_SIZE then Ok (True, s)
      else
        bind_result (get_page (dc_cache s) p) (\<lambda>pg.
        bind_result (rd_bytes cbm (dc_cb s) NTFS_SB_SIZE) (\<lambda>bs.
        bind_result (wr_bytes (pg_data pg) start bs) (\<lambda>data.
        bind_result (set_page_data p data (dc_cache s)) (\<lambda>c.
          let s = s\<lparr>dc_cache := c, dc_cb := dc_cb s + NTFS_SB_SIZE, dc_ofs := (dc_ofs s + NTFS_SB_SIZE) mod 4096\<rparr> in
          if dc_ofs s = 0 then finalize_page max_index cap s else Ok (False, s))))))"

definition packed_block :: "u8 list \<Rightarrow> nat \<Rightarrow> nat \<Rightarrow> nat \<Rightarrow> nat \<Rightarrow> nat \<Rightarrow> nat \<Rightarrow> dec \<Rightarrow> (bool \<times> dec) result" where
  "packed_block cbm max_index cap sb_end start do_end p s =
     bind_result (get_page (dc_cache s) p) (\<lambda>pg.
     bind_result (dec_tags cbm sb_end start do_end
       \<lparr>sb_cb = dc_cb s + 2, sb_ofs = dc_ofs s, sb_dp = start, sb_data = pg_data pg\<rparr>) (\<lambda>(overflow, b).
     bind_result (set_page_data p (sb_data b) (dc_cache s)) (\<lambda>c.
       let s = s\<lparr>dc_cache := c, dc_cb := sb_cb b, dc_ofs := sb_ofs b\<rparr> in
       if overflow then Ok (True, s)
       else if dc_ofs s = 0 then finalize_page max_index cap s
       else Ok (False, s))))"

definition dec_block :: "u8 list \<Rightarrow> nat \<Rightarrow> nat \<Rightarrow> nat \<Rightarrow> nat \<Rightarrow> dec \<Rightarrow> (bool \<times> dec) result" where
  "dec_block cbm cb_end max_index max_ofs cap s =
     (let start = dc_ofs s mod 65536; do_end = (start + NTFS_SB_SIZE) mod 65536 in
      if dc_index s = max_index \<and> do_end > max_ofs then Ok (True, s)
      else if dc_cb s + 6 > cb_end then Ok (True, s)
      else
        bind_result (le16_at cbm (dc_cb s)) (\<lambda>h.
        let sb_end = dc_cb s + (h AND NTFS_SB_SIZE_MASK) + 3 in
        if sb_end > cb_end then Ok (True, s)
        else
          bind_result (rd (dc_pages s) (dc_index s)) (\<lambda>dp.
          case dp of
            None \<Rightarrow> skip_block max_index sb_end s
          | Some p \<Rightarrow>
              if h AND NTFS_SB_IS_COMPRESSED = 0 then stored_block cbm max_index cap sb_end start p s
              else packed_block cbm max_index cap sb_end start do_end p s)))"

text \<open>Every sub-block that is done ends behind its start and inside the compression block.\<close>

lemma dec_tags_cb: "dec_tags cbm sb_end start do_end p = Ok (False, q) \<Longrightarrow> sb_cb q = sb_end"
proof (induction cbm sb_end start do_end p rule: dec_tags.induct)
  case (1 cbm sb_end start do_end p)
  from 1(2) show ?case
    by (subst (asm) dec_tags.simps)
       (auto simp: outcome_simps fill_sub_block_def Let_def split: if_splits prod.splits dest: 1(1))
qed

lemma dec_block_cb:
  assumes "dec_block cbm cb_end max_index max_ofs cap s = Ok (False, s')"
  shows "dc_cb s < dc_cb s' \<and> dc_cb s' \<le> cb_end"
  using assms
  by (auto simp: dec_block_def Let_def outcome_simps skip_block_def stored_block_def packed_block_def finalize_page_def
      split: if_splits option.splits prod.splits dest: dec_tags_cb)

section \<open>The loop over the sub-blocks\<close>

function dec_blocks :: "u8 list \<Rightarrow> nat \<Rightarrow> nat \<Rightarrow> nat \<Rightarrow> nat \<Rightarrow> dec \<Rightarrow> (errno option \<times> dec) result" where
  "dec_blocks cbm cb_end max_index max_ofs cap s =
     bind_result
       (if dc_cb s = cb_end then Ok True
        else bind_result (le16_at cbm (dc_cb s)) (\<lambda>h.
          Ok (h = 0 \<or> (dc_index s = max_index \<and> dc_ofs s = max_ofs))))
       (\<lambda>finished.
       if finished then Ok (None, s)
       else
         bind_result (dec_block cbm cb_end max_index max_ofs cap s) (\<lambda>(overflow, s).
           if overflow then Ok (Some EOVERFLOW, s)
           else dec_blocks cbm cb_end max_index max_ofs cap s))"
  by pat_completeness auto

termination
  by (relation "measure (\<lambda>(cbm, cb_end, max_index, max_ofs, cap, s). cb_end - dc_cb s)")
     (auto dest!: dec_block_cb)

declare dec_blocks.simps [simp del]

text \<open>The second stage, which finishes the completed pages.\<close>

definition finish_page :: "nat \<Rightarrow> int \<Rightarrow> dec \<Rightarrow> dec result" where
  "finish_page di xpage s =
     bind_result (rd (dc_pages s) di) (\<lambda>dp.
     case dp of
       None \<Rightarrow> Oob
     | Some p \<Rightarrow>
         bind_result (kunmap p (dc_cache s)) (\<lambda>c.
         bind_result (SetPageUptodate p c) (\<lambda>c.
         bind_result (unlock_page p c) (\<lambda>c.
         bind_result
           (if int di = xpage then Ok (s\<lparr>dc_cache := c, dc_xpage_done := True\<rparr>)
            else bind_result (page_cache_release p c) (\<lambda>c. Ok (s\<lparr>dc_cache := c\<rparr>)))
           (\<lambda>s. Ok (s\<lparr>dc_pages := (dc_pages s)[di := None]\<rparr>))))))"

fun finalize_pages :: "int \<Rightarrow> int \<Rightarrow> int \<Rightarrow> nat list \<Rightarrow> dec \<Rightarrow> dec result" where
  "finalize_pages i_size initialized_size xpage [] s = Ok s"
| "finalize_pages i_size initialized_size xpage (di # rest) s =
     bind_result (rd (dc_pages s) di) (\<lambda>dp.
     case dp of
       None \<Rightarrow> Oob
     | Some p \<Rightarrow>
         bind_result (get_page (dc_cache s) p) (\<lambda>pg.
         bind_result (handle_bounds_compressed_page p i_size initialized_size (pg_data pg)) (\<lambda>data.
         bind_result (set_page_data p data (dc_cache s)) (\<lambda>c.
         bind_result (finish_page di xpage (s\<lparr>dc_cache := c\<rparr>))
           (finalize_pages i_size initialized_size xpage rest)))))"

definition ntfs_decompress ::
    "u8 list \<Rightarrow> nat \<Rightarrow> nat \<Rightarrow> nat \<Rightarrow> int \<Rightarrow> int \<Rightarrow> int \<Rightarrow> dec \<Rightarrow> (errno option \<times> dec) result" where
  "ntfs_decompress cbm cb_size max_index max_ofs xpage i_size initialized_size s =
     bind_result (dec_blocks cbm cb_size max_index max_ofs (max_index + 1 - dc_index s)
       (s\<lparr>dc_cb := 0, dc_completed := []\<rparr>)) (\<lambda>(err, s).
     if \<not> dc_locked s then Bug
     else
       bind_result (finalize_pages i_size initialized_size xpage (dc_completed s) (s\<lparr>dc_locked := False\<rparr>)) (\<lambda>s.
         Ok (err, s)))"

end
