(* ===== verification/Ntfs_Decompress.thy ===== *)
theory Ntfs_Decompress
  imports Ntfs_Compress
begin

text \<open>
  What \<^verbatim>\<open>ntfs_decompress\<close> computes. The format is given by its writer: a compression block is a
  list of sub-blocks, each stored as it is or as a list of tokens, and \<open>expand\<close> is the meaning of a
  list of tokens. Decompressing the bytes of any such block puts the meaning of its sub-blocks into the
  destination pages.
\<close>

unbundle bit_operations_syntax

section \<open>The format\<close>

datatype token = Symbol u8 | Phrase nat nat

fun copy_back :: "u8 list \<Rightarrow> nat \<Rightarrow> nat \<Rightarrow> u8 list" where
  "copy_back out dist 0 = out"
| "copy_back out dist (Suc n) = copy_back (out @ [out ! (length out - dist)]) dist n"

fun expand :: "u8 list \<Rightarrow> token list \<Rightarrow> u8 list" where
  "expand out [] = out"
| "expand out (Symbol b # ts) = expand (out @ [b]) ts"
| "expand out (Phrase dist n # ts) = expand (copy_back out dist n) ts"

fun token_length :: "token \<Rightarrow> nat" where
  "token_length (Symbol b) = 1"
| "token_length (Phrase dist n) = n"

text \<open>
  The distance of a phrase takes four bits of its two bytes, and one more for each power of two from 16 on
  that is smaller than the position of the phrase; the other bits are left for the length.
\<close>

definition extra_bits :: "nat \<Rightarrow> nat" where
  "extra_bits pos = length (filter (\<lambda>k. 2 ^ (k + 4) < pos) [0..<8])"

text \<open>A phrase has a distance into what has been written and a length that fits beside it.\<close>

fun token_ok :: "nat \<Rightarrow> token \<Rightarrow> bool" where
  "token_ok pos (Symbol b) \<longleftrightarrow> pos < 4096"
| "token_ok pos (Phrase dist n) \<longleftrightarrow>
     1 \<le> dist \<and> dist \<le> pos \<and> 3 \<le> n \<and> n - 3 < 2 ^ (12 - extra_bits pos) \<and> pos + n \<le> 4096"

fun tokens_ok :: "nat \<Rightarrow> token list \<Rightarrow> bool" where
  "tokens_ok pos [] \<longleftrightarrow> pos \<le> 4096"
| "tokens_ok pos (t # ts) \<longleftrightarrow> token_ok pos t \<and> tokens_ok (pos + token_length t) ts"

fun token_bytes :: "nat \<Rightarrow> token \<Rightarrow> u8 list" where
  "token_bytes pos (Symbol b) = [b]"
| "token_bytes pos (Phrase dist n) = le_bytes 2 ((dist - 1) * 2 ^ (12 - extra_bits pos) + (n - 3))"

fun group_bytes :: "nat \<Rightarrow> token list \<Rightarrow> u8 list" where
  "group_bytes pos [] = []"
| "group_bytes pos (t # ts) = token_bytes pos t @ group_bytes (pos + token_length t) ts"

fun group_tag :: "token list \<Rightarrow> nat" where
  "group_tag [] = 0"
| "group_tag (Symbol b # ts) = 2 * group_tag ts"
| "group_tag (Phrase dist n # ts) = 1 + 2 * group_tag ts"

fun tokens_length :: "token list \<Rightarrow> nat" where
  "tokens_length [] = 0"
| "tokens_length (t # ts) = token_length t + tokens_length ts"

function body_bytes :: "nat \<Rightarrow> token list \<Rightarrow> u8 list" where
  "body_bytes pos ts =
     (if ts = [] then []
      else of_nat (group_tag (take 8 ts)) # group_bytes pos (take 8 ts) @
        body_bytes (pos + tokens_length (take 8 ts)) (drop 8 ts))"
  by pat_completeness auto

termination
  by (relation "measure (\<lambda>(pos, ts). length ts)") auto

declare body_bytes.simps [simp del]

lemma body_bytes_Nil [simp]: "body_bytes pos ts = [] \<longleftrightarrow> ts = []"
  by (subst body_bytes.simps) simp

lemma body_bytes_empty [simp]: "body_bytes pos [] = []"
  by simp

datatype sub_block = Stored "u8 list" | Packed "token list"

text \<open>The header holds the size less three, the signature 3 and whether the sub-block is compressed.\<close>

fun sb_bytes :: "sub_block \<Rightarrow> u8 list" where
  "sb_bytes (Stored bs) = le_bytes 2 (0x3000 + (length bs - 1)) @ bs"
| "sb_bytes (Packed ts) = le_bytes 2 (0xb000 + (length (body_bytes 0 ts) - 1)) @ body_bytes 0 ts"

fun sb_ok :: "sub_block \<Rightarrow> bool" where
  "sb_ok (Stored bs) \<longleftrightarrow> length bs = 4096"
| "sb_ok (Packed ts) \<longleftrightarrow> ts \<noteq> [] \<and> tokens_ok 0 ts \<and> length (body_bytes 0 ts) \<le> 4096"

text \<open>The page a sub-block stands for.\<close>

fun sb_page :: "sub_block \<Rightarrow> u8 list" where
  "sb_page (Stored bs) = bs"
| "sb_page (Packed ts) = expand [] ts @ replicate (4096 - length (expand [] ts)) 0"

section \<open>Copying\<close>

lemma length_copy_back [simp]: "length (copy_back out dist n) = length out + n"
  by (induction n arbitrary: out) auto

lemma copy_back_add: "copy_back out dist (m + n) = copy_back (copy_back out dist m) dist n"
  by (induction m arbitrary: out) auto

lemma copy_back_block:
  assumes "n \<le> dist" and "dist \<le> length out"
  shows "copy_back out dist n = out @ take n (drop (length out - dist) out)"
  using assms
proof (induction n)
  case (Suc n)
  have "copy_back out dist (Suc n) = copy_back (copy_back out dist n) dist 1"
    using copy_back_add [of out dist n 1] by simp
  also have "\<dots> = copy_back out dist n @ [copy_back out dist n ! (length out + n - dist)]"
    by simp
  also have "copy_back out dist n ! (length out + n - dist) = out ! (length out - dist + n)"
    using Suc by (simp add: nth_append)
  finally show ?case
    using Suc by (simp add: take_Suc_conv_app_nth)
qed simp

lemma slow_copy_copy_back:
  assumes "1 \<le> dist" "dist \<le> length out" "length out + n \<le> length d"
  shows "slow_copy (out @ drop (length out) d) (length out) (length out - dist) n
    = Ok (copy_back out dist n @ drop (length out + n) d)"
  using assms
proof (induction n arbitrary: out)
  case (Suc n)
  let ?out = "out @ [out ! (length out - dist)]"
  have d: "drop (length out) d = d ! length out # drop (length ?out) d"
    using Suc.prems by (simp add: Cons_nth_drop_Suc)
  have "(out @ drop (length out) d)[length out := out ! (length out - dist)] = ?out @ drop (length ?out) d"
    unfolding d by simp
  moreover have "slow_copy (?out @ drop (length ?out) d) (length ?out) (length ?out - dist) n
    = Ok (copy_back ?out dist n @ drop (length ?out + n) d)"
    using Suc.prems by (intro Suc.IH) auto
  ultimately show ?case
    using Suc.prems by (auto simp: nth_append Suc_diff_le)
qed simp

lemma page_memcpy_copy_back:
  assumes "n \<le> dist" "dist \<le> length out" "length out + n \<le> length d"
  shows "page_memcpy (out @ drop (length out) d) (length out) (length out - dist) n
    = Ok (copy_back out dist n @ drop (length out + n) d)"
proof -
  have "length out - dist + n \<le> length out"
    using assms by simp
  then show ?thesis
    using assms by (simp add: page_memcpy_def rd_bytes_def wr_bytes_def copy_back_block add.commute)
qed

lemma copy_phrase_copy_back:
  assumes "1 \<le> dist" "dist \<le> length out" "length out + n \<le> length d"
  shows "copy_phrase (out @ drop (length out) d) (length out) (length out - dist) n
    = Ok (copy_back out dist n @ drop (length out + n) d)"
proof (cases "n \<le> dist")
  case True
  then show ?thesis
    using assms page_memcpy_copy_back [of n dist out d] by (simp add: copy_phrase_def)
next
  case False
  then have "page_memcpy (out @ drop (length out) d) (length out) (length out - dist) dist
    = Ok (copy_back out dist dist @ drop (length out + dist) d)"
    using assms by (intro page_memcpy_copy_back) auto
  moreover have "slow_copy (copy_back out dist dist @ drop (length out + dist) d) (length out + dist) (length out) (n - dist)
    = Ok (copy_back out dist n @ drop (length out + n) d)"
    using slow_copy_copy_back [of dist "copy_back out dist dist" "n - dist" d] assms False
    by (simp add: copy_back_add [symmetric])
  ultimately show ?thesis
    using assms False by (simp add: copy_phrase_def)
qed

section \<open>Tokens\<close>

lemma lg_loop_less: "i < 2 ^ (lg_loop i + 4)"
proof (induction i rule: lg_loop.induct)
  case (1 i)
  show ?case
  proof (cases "16 \<le> i")
    case True
    with 1 have "i div 2 < 2 ^ (lg_loop (i div 2) + 4)" by simp
    then have "i < 2 * 2 ^ (lg_loop (i div 2) + 4)" by linarith
    then show ?thesis using True by (subst lg_loop.simps) (simp add: power_add)
  qed (simp add: lg_loop.simps)
qed

lemma lg_loop_le: "i < 2 ^ (n + 4) \<Longrightarrow> lg_loop i \<le> n"
proof (induction n arbitrary: i)
  case 0
  then show ?case by (simp add: lg_loop.simps)
next
  case (Suc n)
  then have "i < 2 * 2 ^ (n + 4)" by (simp add: power_add)
  then have "lg_loop (i div 2) \<le> n"
    by (intro Suc.IH) linarith
  then show ?case by (subst lg_loop.simps) simp
qed

lemma length_filter_less: "length (filter (\<lambda>k. k < l) [0..<n]) = min l n"
  by (induction n) (auto simp: min_def)

lemma lg_loop_extra_bits:
  assumes "0 < pos" and "pos \<le> 4096"
  shows "lg_loop (pos - 1) = extra_bits pos"
proof -
  let ?lg = "lg_loop (pos - 1)"
  have le: "?lg \<le> 8" using assms by (intro lg_loop_le) simp
  have "2 ^ (k + 4) < pos \<longleftrightarrow> k < ?lg" for k
  proof
    assume "2 ^ (k + 4) < pos"
    moreover have "pos - 1 < 2 ^ (?lg + 4)" by (rule lg_loop_less)
    ultimately have "(2 :: nat) ^ (k + 4) < 2 ^ (?lg + 4)" by linarith
    then show "k < ?lg" by simp
  next
    assume "k < ?lg"
    then have "\<not> pos - 1 < 2 ^ (k + 4)" using lg_loop_le [of "pos - 1" k] by linarith
    then show "2 ^ (k + 4) < pos" using assms(1) by linarith
  qed
  then show ?thesis using le by (simp add: extra_bits_def length_filter_less)
qed

lemma split_phrase:
  fixes k lg a d :: nat
  assumes "lg + k = 12" and "a < 2 ^ k"
  shows "drop_bit k (d * 2 ^ k + a) = d" and "(d * 2 ^ k + a) AND drop_bit lg 4095 = a"
proof -
  show "drop_bit k (d * 2 ^ k + a) = d"
    using assms by (simp add: drop_bit_eq_div)
  have "drop_bit lg (4095 :: nat) = mask k"
  proof -
    have "(4095 :: nat) = mask (lg + k)" using assms(1) by (simp add: mask_eq_exp_minus_1)
    then have "drop_bit lg (4095 :: nat) = drop_bit lg (mask (lg + k))" by (rule arg_cong)
    then show ?thesis by (simp only: drop_bit_mask_eq add_diff_cancel_left')
  qed
  then show "(d * 2 ^ k + a) AND drop_bit lg 4095 = a"
    using assms(2) by (simp add: take_bit_eq_mask [symmetric] take_bit_eq_mod)
qed

text \<open>The bytes \<open>bs\<close> lie at \<open>i\<close>.\<close>

definition bytes_at :: "u8 list \<Rightarrow> nat \<Rightarrow> u8 list \<Rightarrow> bool" where
  "bytes_at m i bs \<longleftrightarrow> i + length bs \<le> length m \<and> take (length bs) (drop i m) = bs"

lemma bytes_at_append: "bytes_at m i (xs @ ys) \<longleftrightarrow> bytes_at m i xs \<and> bytes_at m (i + length xs) ys"
  by (auto simp: bytes_at_def take_add add.commute append_eq_append_conv)

lemma bytes_at_Cons: "bytes_at m i (x # xs) \<longleftrightarrow> i < length m \<and> m ! i = x \<and> bytes_at m (i + 1) xs"
  by (auto simp: bytes_at_def Cons_nth_drop_Suc [symmetric])

lemma bytes_at_le: "bytes_at m i (le_bytes n v) \<Longrightarrow> v < 256 ^ n \<Longrightarrow> rd_le m i n = Ok v"
  by (simp add: bytes_at_def rd_le_Ok le_val_le_bytes)

lemma bytes_at_rd: "bytes_at m i bs \<Longrightarrow> rd_bytes m i (length bs) = Ok bs"
  by (simp add: bytes_at_def rd_bytes_def)

text \<open>The position behind \<open>out\<close> in a page that had the contents \<open>d\<close>.\<close>

definition at_out :: "nat \<Rightarrow> u8 list \<Rightarrow> u8 list \<Rightarrow> sb_pos" where
  "at_out cb out d = \<lparr>sb_cb = cb, sb_ofs = length out, sb_dp = length out, sb_data = out @ drop (length out) d\<rparr>"

lemma at_out_simps [simp]:
  "sb_cb (at_out cb out d) = cb" "sb_ofs (at_out cb out d) = length out" "sb_dp (at_out cb out d) = length out"
  "sb_data (at_out cb out d) = out @ drop (length out) d" "at_out cb out d\<lparr>sb_cb := cb'\<rparr> = at_out cb' out d"
  by (simp_all add: at_out_def)

lemma dec_phrase_token:
  assumes ok: "token_ok (length out) (Phrase dist n)" and d: "length d = 4096"
    and b: "bytes_at cbm cb (token_bytes (length out) (Phrase dist n))"
  shows "dec_phrase cbm 0 4096 (at_out cb out d) = Ok (False, at_out (cb + 2) (copy_back out dist n) d)"
proof -
  let ?lg = "lg_loop (length out - 1)"
  let ?pt = "(dist - 1) * 2 ^ (12 - ?lg) + (n - 3)"
  have out: "0 < length out" "length out \<le> 4096" using ok by auto
  have eq: "extra_bits (length out) = ?lg" using lg_loop_extra_bits [OF out] by simp
  have o: "0 < length out" "length out \<le> 4096" "1 \<le> dist" "dist \<le> length out" "n - 3 < 2 ^ (12 - ?lg)"
      "3 \<le> n" "length out + n \<le> 4096"
    using ok out by (auto simp: eq)
  have lg: "?lg \<le> 8"
    using o by (intro lg_loop_le) simp
  have "dist - 1 < 2 ^ (?lg + 4)"
    using lg_loop_less [of "length out - 1"] o by simp
  then have "(dist - 1 + 1) * 2 ^ (12 - ?lg) \<le> 2 ^ (?lg + 4) * (2 :: nat) ^ (12 - ?lg)"
    by (intro mult_right_mono) auto
  also have "\<dots> = 2 ^ 16"
    using lg by (simp add: power_add [symmetric])
  finally have "?pt < 2 ^ 16"
    using o(5) by (simp add: algebra_simps)
  then have pt: "le16_at cbm cb = Ok ?pt"
    using b by (intro bytes_at_le) (auto simp: eq)
  have i: "nat (int (length out) - 1) = length out - Suc 0"
    using o by (simp add: nat_diff_distrib)
  define pt where "pt = ?pt"
  have s: "drop_bit (12 - lg_loop (length out - Suc 0)) pt = dist - 1"
      "pt AND drop_bit (lg_loop (length out - Suc 0)) 4095 = n - 3" "le16_at cbm cb = Ok pt"
    using split_phrase [of ?lg "12 - ?lg" "n - 3" "dist - 1"] lg o pt by (auto simp: pt_def)
  show ?thesis
    using o copy_phrase_copy_back [of dist out n d] d
    by (simp add: dec_phrase_def at_out_def i s Let_def)
qed

lemma group_tag_less: "group_tag ts < 2 ^ length ts"
  by (induction ts rule: group_tag.induct) auto

lemma tag_bits:
  assumes "g < 128"
  shows "2 * of_nat g AND (1 :: u8) = 0" and "drop_bit (Suc 0) (2 * of_nat g :: u8) = of_nat g"
    and "1 + 2 * of_nat g AND (1 :: u8) = 1" and "drop_bit (Suc 0) (1 + 2 * of_nat g :: u8) = of_nat g"
proof -
  have e: "unat (2 * of_nat g :: u8) = 2 * g" and o: "unat (1 + 2 * of_nat g :: u8) = 1 + 2 * g"
    using assms unat_of_nat [of "2 * g", where 'a = 8] unat_of_nat [of "1 + 2 * g", where 'a = 8] by auto
  show "2 * of_nat g AND (1 :: u8) = 0" "1 + 2 * of_nat g AND (1 :: u8) = 1"
    using e o by (simp_all add: word_unat_eq_iff unsigned_and_eq and_one_eq unat_mod)
  have "unat (of_nat g :: u8) = g"
    using assms by (simp add: unat_of_nat)
  then show "drop_bit (Suc 0) (2 * of_nat g :: u8) = of_nat g" "drop_bit (Suc 0) (1 + 2 * of_nat g :: u8) = of_nat g"
    using e o by (simp_all add: word_unat_eq_iff unat_drop_bit_eq drop_bit_eq_div unat_div del: drop_bit_Suc)
qed

lemma tokens_ok_le: "tokens_ok pos ts \<Longrightarrow> pos \<le> 4096"
  by (cases ts; cases "hd ts") auto

lemma symbol_page:
  "length out < length d \<Longrightarrow> (out @ drop (length out) d)[length out := b] = (out @ [b]) @ drop (length (out @ [b])) d"
  by (simp add: Cons_nth_drop_Suc [symmetric])

lemma dec_tokens_group:
  assumes "tokens_ok (length out) ts" "length ts \<le> n" "n \<le> 8" "length d = 4096"
    and "bytes_at cbm cb (group_bytes (length out) ts)" "cb + length (group_bytes (length out) ts) \<le> sb_end"
    and "length ts = n \<or> cb + length (group_bytes (length out) ts) = sb_end"
  shows "dec_tokens n (of_nat (group_tag ts)) cbm sb_end 0 4096 (at_out cb out d)
    = Ok (False, at_out (cb + length (group_bytes (length out) ts)) (expand out ts) d)"
  using assms
proof (induction ts arbitrary: n out cb)
  case Nil
  then show ?case by (cases n) (auto simp: at_out_def)
next
  case (Cons t ts)
  then obtain m where n: "n = Suc m" by (cases n) auto
  have "(2 :: nat) ^ Suc (length ts) \<le> 2 ^ 8"
    using Cons.prems(2,3) by (intro power_increasing) auto
  then have tag: "group_tag ts < 128"
    using group_tag_less [of ts] by simp
  note le = tokens_ok_le [OF Cons.prems(1)]
  show ?case
  proof (cases t)
    case (Symbol b)
    have "dec_tokens m (of_nat (group_tag ts)) cbm sb_end 0 4096 (at_out (cb + 1) (out @ [b]) d)
      = Ok (False, at_out (cb + 1 + length (group_bytes (length (out @ [b])) ts)) (expand (out @ [b]) ts) d)"
      using Cons.prems Symbol n by (intro Cons.IH) (auto simp: bytes_at_Cons)
    moreover have "at_out cb out d\<lparr>sb_cb := cb + 1, sb_ofs := length out + 1, sb_dp := length out + 1,
        sb_data := (out @ drop (length out) d)[length out := b]\<rparr> = at_out (cb + 1) (out @ [b]) d"
      using Cons.prems Symbol by (simp add: at_out_def symbol_page)
    ultimately show ?thesis
      using Cons.prems Symbol n tag
      by (simp add: tag_bits [OF tag] NTFS_SB_SIZE_def bytes_at_Cons at_out_def)
  next
    case (Phrase dist l)
    have "dec_tokens m (of_nat (group_tag ts)) cbm sb_end 0 4096 (at_out (cb + 2) (copy_back out dist l) d)
      = Ok (False, at_out (cb + 2 + length (group_bytes (length (copy_back out dist l)) ts)) (expand (copy_back out dist l) ts) d)"
      using Cons.prems Phrase n by (intro Cons.IH) (auto simp: bytes_at_append)
    moreover have "dec_phrase cbm 0 4096 (at_out cb out d) = Ok (False, at_out (cb + 2) (copy_back out dist l) d)"
      using Cons.prems Phrase by (intro dec_phrase_token) (auto simp: bytes_at_append)
    ultimately show ?thesis
      using Cons.prems(6) Phrase n tag le
      by (simp add: tag_bits [OF tag] NTFS_SB_SIZE_def)
  qed
qed

section \<open>Sub-blocks\<close>

lemma length_expand: "length (expand out ts) = length out + tokens_length ts"
  by (induction out ts rule: expand.induct) auto

lemma expand_append: "expand out (xs @ ys) = expand (expand out xs) ys"
  by (induction out xs rule: expand.induct) auto

lemma tokens_ok_append: "tokens_ok pos (xs @ ys) \<longleftrightarrow> tokens_ok pos xs \<and> tokens_ok (pos + tokens_length xs) ys"
  by (induction xs arbitrary: pos) (auto simp: add.assoc dest: tokens_ok_le)

lemma tokens_length_le: "tokens_ok pos ts \<Longrightarrow> pos + tokens_length ts \<le> 4096"
proof (induction ts arbitrary: pos)
  case (Cons t ts)
  then have "pos + token_length t + tokens_length ts \<le> 4096" by simp
  then show ?case by simp
qed simp

lemma fill_at_out:
  assumes "length out \<le> 4096" "length d = 4096"
  shows "\<exists>dp. fill_sub_block 0 4096 (at_out cb out d)
    = Ok \<lparr>sb_cb = cb, sb_ofs = 0, sb_dp = dp, sb_data = out @ replicate (4096 - length out) 0\<rparr>"
  using assms by (cases "length out < 4096") (auto simp: fill_sub_block_def at_out_def NTFS_SB_SIZE_def wr_bytes_def)

lemma dec_tags_body:
  assumes "tokens_ok (length out) ts" "length d = 4096"
    and "bytes_at cbm cb (body_bytes (length out) ts)" "cb + length (body_bytes (length out) ts) = sb_end"
  shows "\<exists>dp. dec_tags cbm sb_end 0 4096 (at_out cb out d)
    = Ok (False, \<lparr>sb_cb = sb_end, sb_ofs = 0, sb_dp = dp,
        sb_data = expand out ts @ replicate (4096 - length (expand out ts)) 0\<rparr>)"
  using assms
proof (induction "length ts" arbitrary: ts out cb rule: less_induct)
  case less
  note le = tokens_ok_le [OF less.prems(1)]
  show ?case
  proof (cases "ts = []")
    case True
    then show ?thesis
      using fill_at_out [of out d cb] less.prems le
      by (subst dec_tags.simps) auto
  next
    case False
    let ?g = "take 8 ts" and ?r = "drop 8 ts"
    let ?gb = "group_bytes (length out) ?g" and ?out = "expand out ?g"
    have body: "body_bytes (length out) ts = of_nat (group_tag ?g) # ?gb @ body_bytes (length ?out) ?r"
      using False by (subst body_bytes.simps) (simp add: length_expand)
    have ok: "tokens_ok (length out) ?g" "tokens_ok (length ?out) ?r"
      using less.prems(1) tokens_ok_append [of "length out" ?g ?r] by (simp_all add: length_expand)
    have at: "cb < length cbm" "cbm ! cb = of_nat (group_tag ?g)" "bytes_at cbm (cb + 1) ?gb"
        "bytes_at cbm (cb + 1 + length ?gb) (body_bytes (length ?out) ?r)"
      using less.prems(3) by (simp_all add: body bytes_at_Cons bytes_at_append)
    have sbe: "sb_end = cb + 1 + length ?gb + length (body_bytes (length ?out) ?r)"
      using less.prems(4) by (simp add: body)
    have "length ?g = 8 \<or> ?r = []" by auto
    then have "length ?g = 8 \<or> cb + 1 + length ?gb = sb_end"
      using sbe by auto
    then have "dec_tokens 8 (of_nat (group_tag ?g)) cbm sb_end 0 4096 (at_out (cb + 1) out d)
      = Ok (False, at_out (cb + 1 + length ?gb) ?out d)"
      using ok at less.prems(2) sbe by (intro dec_tokens_group) auto
    moreover have "\<exists>dp. dec_tags cbm sb_end 0 4096 (at_out (cb + 1 + length ?gb) ?out d)
      = Ok (False, \<lparr>sb_cb = sb_end, sb_ofs = 0, sb_dp = dp,
          sb_data = expand ?out ?r @ replicate (4096 - length (expand ?out ?r)) 0\<rparr>)"
      using False ok at sbe less.prems(2) by (intro less.hyps) auto
    moreover have "expand ?out ?r = expand out ts"
      by (simp add: expand_append [symmetric])
    ultimately show ?thesis
      using at sbe le by (subst dec_tags.simps) (simp add: NTFS_SB_SIZE_def)
  qed
qed

lemma packed_header:
  assumes "x < 4096"
  shows "(45056 + x) AND NTFS_SB_SIZE_MASK = x" and "(45056 + x) AND NTFS_SB_IS_COMPRESSED \<noteq> 0"
proof -
  have "(45056 + x) AND mask 12 = (45056 + x) mod 2 ^ 12"
    by (simp only: take_bit_eq_mask [symmetric] take_bit_eq_mod)
  also have "\<dots> = x"
    using assms mod_mult_self4 [of 4096 11 x] by simp
  finally show "(45056 + x) AND NTFS_SB_SIZE_MASK = x"
    by (simp add: NTFS_SB_SIZE_MASK_def mask_eq_exp_minus_1)
  have "(45056 + x) div 32768 = 1"
    using assms by (intro div_nat_eqI) auto
  then have "bit (45056 + x) 15"
    by (simp add: bit_iff_odd)
  then show "(45056 + x) AND NTFS_SB_IS_COMPRESSED \<noteq> 0"
    using and_exp_eq_0_iff_not_bit [of "45056 + x" 15] by (simp add: NTFS_SB_IS_COMPRESSED_def)
qed

text \<open>The state behind a sub-block.\<close>

definition page_ready :: "page_cache \<Rightarrow> nat \<Rightarrow> bool" where
  "page_ready c p = (case c p of
     None \<Rightarrow> False
   | Some pg \<Rightarrow> length (pg_data pg) = 4096 \<and> pg_locked pg \<and> pg_kmaps pg > 0 \<and> pg_count pg > 0)"

definition fill_page :: "u8 list \<Rightarrow> nat option \<Rightarrow> page_cache \<Rightarrow> page_cache" where
  "fill_page d dp c = (case dp of None \<Rightarrow> c | Some p \<Rightarrow> c(p := map_option (pg_data_update (\<lambda>_. d)) (c p)))"

definition after_block :: "sub_block \<Rightarrow> dec \<Rightarrow> dec" where
  "after_block sb s =
     (let dp = dc_pages s ! dc_index s in
      s\<lparr>dc_cb := dc_cb s + length (sb_bytes sb), dc_index := dc_index s + 1,
        dc_cache := fill_page (sb_page sb) dp (dc_cache s),
        dc_completed := dc_completed s @ (if dp = None then [] else [dc_index s])\<rparr>)"

lemma dec_block_step:
  assumes sb: "sb_ok sb" "bytes_at cbm (dc_cb s) (sb_bytes sb)" "dc_cb s + 6 \<le> cb_end"
      "dc_cb s + length (sb_bytes sb) \<le> cb_end"
    and s: "dc_ofs s = 0" "dc_index s < max_index" "dc_index s < length (dc_pages s)" "length (dc_completed s) < cap"
    and pg: "\<And>p. dc_pages s ! dc_index s = Some p \<Longrightarrow> page_ready (dc_cache s) p"
  shows "dec_block cbm cb_end max_index max_ofs cap s = Ok (False, after_block sb s)"
proof -
  have "\<exists>h. le16_at cbm (dc_cb s) = Ok h \<and> dc_cb s + (h AND NTFS_SB_SIZE_MASK) + 3 = dc_cb s + length (sb_bytes sb) \<and>
      (h AND NTFS_SB_IS_COMPRESSED = 0 \<longleftrightarrow> (\<exists>bs. sb = Stored bs))"
  proof (cases sb)
    case (Stored bs)
    then have "le16_at cbm (dc_cb s) = Ok 0x3fff"
      using sb by (intro bytes_at_le) (auto simp: bytes_at_append)
    then show ?thesis
      using Stored sb by (intro exI [of _ "0x3fff"]) (auto simp: NTFS_SB_SIZE_MASK_def NTFS_SB_IS_COMPRESSED_def)
  next
    case (Packed ts)
    let ?n = "length (body_bytes 0 ts) - 1"
    have n: "?n < 4096" "length (body_bytes 0 ts) = ?n + 1"
      using Packed sb(1) by (auto simp: Suc_le_eq)
    then have "le16_at cbm (dc_cb s) = Ok (45056 + ?n)"
      using Packed sb(2) by (intro bytes_at_le) (auto simp: bytes_at_append)
    then show ?thesis
      using Packed packed_header [OF n(1)] n(2) by (intro exI [of _ "45056 + ?n"]) auto
  qed
  then obtain h where h: "le16_at cbm (dc_cb s) = Ok h"
      "dc_cb s + (h AND NTFS_SB_SIZE_MASK) + 3 = dc_cb s + length (sb_bytes sb)"
      "h AND NTFS_SB_IS_COMPRESSED = 0 \<longleftrightarrow> (\<exists>bs. sb = Stored bs)"
    by (elim exE conjE)
  show ?thesis
  proof (cases "dc_pages s ! dc_index s")
    case None
    then show ?thesis
      using s sb(3,4) h
      by (simp add: dec_block_def skip_block_def after_block_def fill_page_def NTFS_SB_SIZE_def Let_def)
  next
    case (Some p)
    then obtain pg where p: "dc_cache s p = Some pg" "length (pg_data pg) = 4096"
      using pg by (auto simp: page_ready_def split: option.splits)
    show ?thesis
    proof (cases sb)
      case (Stored bs)
      have "rd_bytes cbm (dc_cb s + 2) 4096 = Ok bs"
        using sb Stored bytes_at_rd [of cbm "dc_cb s + 2" bs] by (simp add: bytes_at_append)
      then show ?thesis
        using Some s sb h p Stored
        by (simp add: dec_block_def stored_block_def after_block_def fill_page_def NTFS_SB_SIZE_def Let_def
            get_page_def set_page_data_def wr_bytes_def finalize_page_def)
    next
      case (Packed ts)
      define e where "e = dc_cb s + length (sb_bytes sb)"
      then obtain dp where "dec_tags cbm e 0 4096 (at_out (dc_cb s + 2) [] (pg_data pg))
        = Ok (False, \<lparr>sb_cb = e, sb_ofs = 0, sb_dp = dp, sb_data = sb_page sb\<rparr>)"
        using dec_tags_body [of "[]" ts "pg_data pg" cbm "dc_cb s + 2" e] sb p Packed
        by (auto simp: bytes_at_append)
      then have "packed_block cbm max_index cap e 0 4096 p s = Ok (False, after_block sb s)"
        using Some s p unfolding e_def [symmetric]
        by (simp add: packed_block_def after_block_def fill_page_def Let_def e_def [symmetric]
            get_page_def set_page_data_def finalize_page_def at_out_def)
      moreover have "dc_cb s + (h AND NTFS_SB_SIZE_MASK) + 3 = e" "e \<le> cb_end" "h AND NTFS_SB_IS_COMPRESSED \<noteq> 0"
        using h sb Packed by (auto simp: e_def)
      ultimately show ?thesis
        using Some s sb(3) h(1) by (simp add: dec_block_def NTFS_SB_SIZE_def Let_def)
    qed
  qed
qed

section \<open>The loop\<close>

text \<open>Six bytes are left at the start of every sub-block, and the sub-block ends inside the block.\<close>

fun blocks_fit :: "nat \<Rightarrow> nat \<Rightarrow> sub_block list \<Rightarrow> bool" where
  "blocks_fit cb cb_end [] \<longleftrightarrow> True"
| "blocks_fit cb cb_end (sb # sbs) \<longleftrightarrow>
     cb + 6 \<le> cb_end \<and> cb + length (sb_bytes sb) \<le> cb_end \<and> blocks_fit (cb + length (sb_bytes sb)) cb_end sbs"

text \<open>The block ends at \<open>cb\<close>: it is full, a zero header follows, or the destination is full.\<close>

definition block_ends :: "u8 list \<Rightarrow> nat \<Rightarrow> nat \<Rightarrow> nat \<Rightarrow> nat \<Rightarrow> nat \<Rightarrow> bool" where
  "block_ends cbm cb cb_end i max_index max_ofs \<longleftrightarrow>
     cb = cb_end \<or> bytes_at cbm cb [0, 0] \<or> (i = max_index \<and> max_ofs = 0 \<and> cb + 2 \<le> length cbm)"

definition pages_ready :: "dec \<Rightarrow> bool" where
  "pages_ready s \<longleftrightarrow> list_all (\<lambda>dp. case dp of None \<Rightarrow> True | Some p \<Rightarrow> page_ready (dc_cache s) p) (dc_pages s) \<and>
     distinct (filter (\<lambda>dp. dp \<noteq> None) (dc_pages s))"

lemma pages_readyD: "pages_ready s \<Longrightarrow> i < length (dc_pages s) \<Longrightarrow> dc_pages s ! i = Some p \<Longrightarrow> page_ready (dc_cache s) p"
  by (auto simp: pages_ready_def list_all_length split: option.splits)

lemma length_sb_page: "sb_ok sb \<Longrightarrow> length (sb_page sb) = 4096"
  using tokens_length_le [of 0] by (cases sb) (auto simp: length_expand)

lemma fill_page_ready: "length d = 4096 \<Longrightarrow> page_ready c p \<Longrightarrow> page_ready (fill_page d dp c) p"
  by (auto simp: page_ready_def fill_page_def split: option.splits)

lemma after_block_simps [simp]:
  "dc_pages (after_block sb s) = dc_pages s" "dc_ofs (after_block sb s) = dc_ofs s"
  "dc_xpage_done (after_block sb s) = dc_xpage_done s" "dc_locked (after_block sb s) = dc_locked s"
  "dc_index (after_block sb s) = dc_index s + 1" "dc_cb (after_block sb s) = dc_cb s + length (sb_bytes sb)"
  "dc_cache (after_block sb s) = fill_page (sb_page sb) (dc_pages s ! dc_index s) (dc_cache s)"
  by (simp_all add: after_block_def Let_def)

lemma after_block_ready: "sb_ok sb \<Longrightarrow> pages_ready s \<Longrightarrow> pages_ready (after_block sb s)"
  by (auto simp: pages_ready_def list_all_iff fill_page_ready length_sb_page split: option.splits)

lemma sb_header: 
  assumes "sb_ok sb" "bytes_at cbm cb (sb_bytes sb)"
  shows "\<exists>h. le16_at cbm cb = Ok h \<and> h \<noteq> 0"
proof (cases sb)
  case (Stored bs)
  with assms have "le16_at cbm cb = Ok (0x3000 + (length bs - 1))"
    by (intro bytes_at_le) (auto simp: bytes_at_append)
  then show ?thesis by simp
next
  case (Packed ts)
  with assms have "le16_at cbm cb = Ok (0xb000 + (length (body_bytes 0 ts) - 1))"
    by (intro bytes_at_le) (auto simp: bytes_at_append)
  then show ?thesis by simp
qed

lemma dec_blocks_end:
  assumes "block_ends cbm (dc_cb s) cb_end (dc_index s) max_index max_ofs" "dc_ofs s = 0"
  shows "dec_blocks cbm cb_end max_index max_ofs cap s = Ok (None, s)"
proof (cases "dc_cb s = cb_end")
  case False
  have "\<exists>h. le16_at cbm (dc_cb s) = Ok h \<and> (h = 0 \<or> dc_index s = max_index \<and> dc_ofs s = max_ofs)"
  proof (cases "bytes_at cbm (dc_cb s) [0, 0]")
    case True
    then have "le16_at cbm (dc_cb s) = Ok 0"
      using bytes_at_le [of cbm "dc_cb s" 2 0] by (simp add: numeral_2_eq_2)
    then show ?thesis by simp
  qed (use assms False in \<open>auto simp: block_ends_def rd_le_Ok\<close>)
  then show ?thesis by (subst dec_blocks.simps) auto
qed (subst dec_blocks.simps, simp)

lemma dec_blocks_fold:
  assumes "list_all sb_ok sbs" "bytes_at cbm (dc_cb s) (concat (map sb_bytes sbs))" "blocks_fit (dc_cb s) cb_end sbs"
    and "block_ends cbm (dc_cb s + length (concat (map sb_bytes sbs))) cb_end (dc_index s + length sbs) max_index max_ofs"
    and "dc_ofs s = 0" "dc_index s + length sbs \<le> max_index" "max_index \<le> length (dc_pages s)"
    and "length (dc_completed s) + length sbs \<le> cap" "pages_ready s"
  shows "dec_blocks cbm cb_end max_index max_ofs cap s = Ok (None, fold after_block sbs s)"
  using assms
proof (induction sbs arbitrary: s)
  case Nil
  then show ?case by (simp add: dec_blocks_end)
next
  case (Cons sb sbs)
  have step: "dec_block cbm cb_end max_index max_ofs cap s = Ok (False, after_block sb s)"
    using Cons.prems pages_readyD [OF Cons.prems(9), of "dc_index s"]
    by (intro dec_block_step) (auto simp: bytes_at_append)
  have "length (dc_completed (after_block sb s)) \<le> length (dc_completed s) + 1"
    by (simp add: after_block_def Let_def)
  then have rest: "dec_blocks cbm cb_end max_index max_ofs cap (after_block sb s) = Ok (None, fold after_block sbs (after_block sb s))"
    using Cons.prems by (intro Cons.IH) (auto simp: bytes_at_append after_block_ready algebra_simps)
  obtain h where "le16_at cbm (dc_cb s) = Ok h" "h \<noteq> 0"
    using sb_header [of sb cbm "dc_cb s"] Cons.prems by (auto simp: bytes_at_append)
  moreover have "dc_cb s \<noteq> cb_end" "dc_index s \<noteq> max_index"
    using Cons.prems by auto
  ultimately show ?case
    by (subst dec_blocks.simps) (simp add: step rest)
qed

lemma distinct_handles:
  assumes "distinct (filter (\<lambda>dp. dp \<noteq> None) ps)" "i < length ps" "j < length ps" "ps ! i = Some p" "ps ! j = Some p"
  shows "i = j"
  using assms
proof (induction ps arbitrary: i j)
  case (Cons x ps)
  have no: "k < length ps \<Longrightarrow> ps ! k = Some p \<Longrightarrow> x \<noteq> Some p" for k
    using Cons.prems(1) nth_mem [of k ps] by (auto split: if_splits)
  show ?case
    using Cons.prems Cons.IH [of "i - 1" "j - 1"] no [of "i - 1"] no [of "j - 1"]
    by (cases i; cases j) (auto split: if_splits)
qed simp

lemma fold_after_block:
  fixes s :: dec
  assumes "dc_index s + length sbs \<le> length (dc_pages s)" "distinct (filter (\<lambda>dp. dp \<noteq> None) (dc_pages s))"
  defines "t \<equiv> fold after_block sbs s"
  shows "dc_pages t = dc_pages s \<and> dc_ofs t = dc_ofs s \<and> dc_xpage_done t = dc_xpage_done s \<and> dc_locked t = dc_locked s \<and>
    dc_index t = dc_index s + length sbs \<and>
    dc_completed t = dc_completed s @ filter (\<lambda>i. dc_pages s ! i \<noteq> None) [dc_index s..<dc_index s + length sbs] \<and>
    (\<forall>p. (\<forall>j<length sbs. dc_pages s ! (dc_index s + j) \<noteq> Some p) \<longrightarrow> dc_cache t p = dc_cache s p) \<and>
    (\<forall>j<length sbs. \<forall>p. dc_pages s ! (dc_index s + j) = Some p \<longrightarrow>
       dc_cache t p = map_option (pg_data_update (\<lambda>_. sb_page (sbs ! j))) (dc_cache s p))"
  using assms(1,2) unfolding t_def
proof (induction sbs arbitrary: s)
  case (Cons sb sbs)
  let ?s = "after_block sb s" and ?i = "dc_index s"
  let ?t = "fold after_block sbs ?s"
  note IH = Cons.IH [of ?s, simplified]
  have IH1: "dc_pages ?t = dc_pages s" "dc_ofs ?t = dc_ofs s" "dc_xpage_done ?t = dc_xpage_done s" "dc_locked ?t = dc_locked s"
      "dc_index ?t = Suc (?i + length sbs)"
      "dc_completed ?t = dc_completed ?s @ filter (\<lambda>i. dc_pages s ! i \<noteq> None) [Suc ?i..<Suc (?i + length sbs)]"
    using IH Cons.prems by auto
  have same: "dc_cache ?t p = fill_page (sb_page sb) (dc_pages s ! ?i) (dc_cache s) p"
    if "\<forall>j<length sbs. dc_pages s ! Suc (?i + j) \<noteq> Some p" for p
    using IH Cons.prems that by auto
  have upd: "dc_cache ?t p = map_option (pg_data_update (\<lambda>_. sb_page (sbs ! j)))
      (fill_page (sb_page sb) (dc_pages s ! ?i) (dc_cache s) p)"
    if "j < length sbs" "dc_pages s ! Suc (?i + j) = Some p" for j p
    using IH Cons.prems that by auto
  have other: "dc_pages s ! ?i \<noteq> Some p" if "j < length sbs" "dc_pages s ! Suc (?i + j) = Some p" for j p
    using distinct_handles [OF Cons.prems(2), of ?i "Suc (?i + j)" p] Cons.prems(1) that by auto
  have fp: "fill_page d dp c p = (if dp = Some p then map_option (pg_data_update (\<lambda>_. d)) (c p) else c p)" for d dp c p
    by (auto simp: fill_page_def split: option.splits)
  have "dc_completed ?t = dc_completed s @ filter (\<lambda>i. dc_pages s ! i \<noteq> None) [?i..<?i + length (sb # sbs)]"
    using IH1(6) by (simp add: after_block_def Let_def upt_conv_Cons del: upt_Suc)
  moreover have "dc_cache ?t p = dc_cache s p" if "\<forall>j<length (sb # sbs). dc_pages s ! (?i + j) \<noteq> Some p" for p
  proof -
    have "dc_pages s ! ?i \<noteq> Some p" using that [rule_format, of 0] by simp
    moreover have "\<forall>j<length sbs. dc_pages s ! Suc (?i + j) \<noteq> Some p" using that [rule_format, of "Suc _"] by simp
    ultimately show ?thesis using same by (simp add: fp)
  qed
  moreover have "dc_cache ?t p = map_option (pg_data_update (\<lambda>_. sb_page ((sb # sbs) ! j))) (dc_cache s p)"
    if "j < length (sb # sbs)" "dc_pages s ! (?i + j) = Some p" for j p
  proof (cases j)
    case 0
    then show ?thesis using that same [of p] other [of _ p] by (auto simp: fp)
  next
    case (Suc k)
    then show ?thesis using that upd [of k p] other [of k p] by (simp add: fp)
  qed
  ultimately show ?case
    using IH1 by simp
qed simp

section \<open>Finished pages\<close>

text \<open>The bytes of page \<open>index\<close> a reader may see: behind the initialized size there are only zeroes.\<close>

definition clip :: "nat \<Rightarrow> int \<Rightarrow> int \<Rightarrow> u8 list \<Rightarrow> u8 list" where
  "clip index i_size initialized_size d =
     (if initialized_size < i_size
      then map (\<lambda>k. if int index * 4096 + int k < initialized_size then d ! k else 0) [0..<4096] else d)"

lemma handle_bounds_clip:
  assumes "length d = 4096" "0 \<le> isz" "in_s64 isz" "in_s64 (int index * 4096)"
  shows "handle_bounds_compressed_page index i_size isz d = Ok (clip index i_size isz d)"
proof (cases "isz < i_size")
  case True
  have sm: "s64 (int index * 4096) = int index * 4096"
    by (rule s64_in) (rule assms(4))
  have m: "isz div 4096 mod 18446744073709551616 = isz div 4096"
    using assms(2,3) by (simp add: in_s64_def)
  consider "isz \<le> int index * 4096" | "int index * 4096 < isz" "int index = isz div 4096" | "int index < isz div 4096"
    by linarith
  then show ?thesis
  proof cases
    case 1
    then have "isz div 4096 \<le> int index" by linarith
    moreover have "map (\<lambda>k. if int index * 4096 + int k < isz then d ! k else 0) [0..<4096] = replicate 4096 0"
      using 1 by (intro nth_equalityI) auto
    ultimately show ?thesis
      using 1 True by (simp add: handle_bounds_compressed_page_def zero_partial_compressed_page_def clip_def m sm PAGE_SIZE_def)
  next
    case 2
    let ?k = "nat (isz mod 4096)"
    have k: "?k < 4096" "int index * 4096 + int ?k = isz"
      using 2 by auto
    have "map (\<lambda>k. if int index * 4096 + int k < isz then d ! k else 0) [0..<4096] = take ?k d @ replicate (4096 - ?k) 0"
      using k assms(1) by (intro nth_equalityI) (auto simp: nth_append)
    moreover have "isz div 4096 \<le> int index" using 2(2) by simp
    ultimately show ?thesis
      using 2(1) True k(1) assms(1)
      by (simp add: handle_bounds_compressed_page_def zero_partial_compressed_page_def clip_def m sm PAGE_SIZE_def
          wr_bytes_def Let_def)
  next
    case 3
    then have "int index * 4096 + int k < isz" if "k < 4096" for k
      using that by linarith
    then have "map (\<lambda>k. if int index * 4096 + int k < isz then d ! k else 0) [0..<4096] = d"
      using assms(1) by (intro nth_equalityI) auto
    then show ?thesis
      using 3 True by (simp add: handle_bounds_compressed_page_def clip_def m)
  qed
qed (simp add: handle_bounds_compressed_page_def clip_def)

text \<open>A page that is done: unmapped, up to date, unlocked, and released unless it is the target page.\<close>

definition done_page :: "bool \<Rightarrow> u8 list \<Rightarrow> page \<Rightarrow> page" where
  "done_page target d pg =
     pg\<lparr>pg_data := d, pg_uptodate := True, pg_locked := False, pg_kmaps := pg_kmaps pg - 1,
        pg_count := if target then pg_count pg else pg_count pg - 1\<rparr>"

lemma finish_page_ok:
  assumes "di < length (dc_pages s)" "dc_pages s ! di = Some p" "dc_cache s p = Some pg"
    and "pg_locked pg" "pg_kmaps pg > 0" "pg_count pg > 0"
  shows "finish_page di xpage s = Ok (s\<lparr>dc_cache := (dc_cache s)(p \<mapsto> done_page (int di = xpage) (pg_data pg) pg),
    dc_xpage_done := dc_xpage_done s \<or> int di = xpage, dc_pages := (dc_pages s)[di := None]\<rparr>)"
  using assms
  by (cases s; cases pg) (simp add: finish_page_def kunmap_def SetPageUptodate_def unlock_page_def page_cache_release_def get_page_def
      done_page_def)

definition done_at :: "int \<Rightarrow> int \<Rightarrow> int \<Rightarrow> nat \<Rightarrow> dec \<Rightarrow> dec" where
  "done_at i_size isz xpage d s = s\<lparr>dc_cache := (case dc_pages s ! d of
       None \<Rightarrow> dc_cache s
     | Some p \<Rightarrow> (dc_cache s)(p := map_option (\<lambda>pg. done_page (int d = xpage) (clip p i_size isz (pg_data pg)) pg) (dc_cache s p))),
     dc_xpage_done := dc_xpage_done s \<or> int d = xpage, dc_pages := (dc_pages s)[d := None]\<rparr>"

lemma done_at_simps [simp]:
  "dc_pages (done_at i_size isz xpage d s) = (dc_pages s)[d := None]" "dc_index (done_at i_size isz xpage d s) = dc_index s"
  "dc_ofs (done_at i_size isz xpage d s) = dc_ofs s" "dc_locked (done_at i_size isz xpage d s) = dc_locked s"
  "dc_xpage_done (done_at i_size isz xpage d s) = (dc_xpage_done s \<or> int d = xpage)"
  by (simp_all add: done_at_def)

lemma done_at_cache:
  "dc_cache (done_at i_size isz xpage d s) p =
     (if dc_pages s ! d = Some p
      then map_option (\<lambda>pg. done_page (int d = xpage) (clip p i_size isz (pg_data pg)) pg) (dc_cache s p) else dc_cache s p)"
  by (auto simp: done_at_def split: option.splits)

lemma filter_update_None:
  "set (filter (\<lambda>x. x \<noteq> None) (xs[d := None])) \<subseteq> set (filter (\<lambda>x. x \<noteq> None) xs) \<and>
   (distinct (filter (\<lambda>x. x \<noteq> None) xs) \<longrightarrow> distinct (filter (\<lambda>x. x \<noteq> None) (xs[d := None])))"
proof (induction xs arbitrary: d)
  case (Cons x xs)
  show ?case
  proof (cases d)
    case (Suc e)
    then show ?thesis using Cons.IH [of e] by auto
  qed auto
qed simp

definition finishable :: "dec \<Rightarrow> nat \<Rightarrow> bool" where
  "finishable s d \<longleftrightarrow> d < length (dc_pages s) \<and> (\<exists>p. dc_pages s ! d = Some p \<and> page_ready (dc_cache s) p \<and> in_s64 (int p * 4096))"

lemma finalize_pages_step:
  assumes "0 \<le> isz" "in_s64 isz" "finishable s d"
  shows "finalize_pages i_size isz xpage (d # ds) s = finalize_pages i_size isz xpage ds (done_at i_size isz xpage d s)"
proof -
  obtain p pg where p: "d < length (dc_pages s)" "dc_pages s ! d = Some p" "dc_cache s p = Some pg" "length (pg_data pg) = 4096"
      "pg_locked pg" "pg_kmaps pg > 0" "pg_count pg > 0" "in_s64 (int p * 4096)"
    using assms(3) by (auto simp: finishable_def page_ready_def split: option.splits)
  let ?data = "clip p i_size isz (pg_data pg)"
  have "finish_page d xpage (s\<lparr>dc_cache := (dc_cache s)(p \<mapsto> pg\<lparr>pg_data := ?data\<rparr>)\<rparr>) = Ok (done_at i_size isz xpage d s)"
    using p by (subst finish_page_ok [of _ _ p "pg\<lparr>pg_data := ?data\<rparr>"]) (auto simp: done_page_def done_at_def)
  then show ?thesis
    using p handle_bounds_clip [OF p(4) assms(1,2) p(8)] by (simp add: get_page_def set_page_data_def)
qed

lemma finishable_done_at:
  assumes "finishable s e" "e \<noteq> d" "distinct (filter (\<lambda>dp. dp \<noteq> None) (dc_pages s))" "d < length (dc_pages s)"
  shows "finishable (done_at i_size isz xpage d s) e"
proof -
  from assms(1) obtain p where p: "e < length (dc_pages s)" "dc_pages s ! e = Some p" "page_ready (dc_cache s) p" "in_s64 (int p * 4096)"
    by (auto simp: finishable_def)
  have "dc_pages s ! d \<noteq> Some p"
    using distinct_handles [OF assms(3,4), of e p] p assms(2) by auto
  then show ?thesis
    using p assms(2) by (simp add: finishable_def page_ready_def done_at_cache)
qed

lemma finalize_pages_ok:
  assumes "0 \<le> isz" "in_s64 isz" "distinct ds" "distinct (filter (\<lambda>dp. dp \<noteq> None) (dc_pages s))"
    and "\<forall>d\<in>set ds. finishable s d"
  shows "finalize_pages i_size isz xpage ds s = Ok (fold (done_at i_size isz xpage) ds s)"
  using assms(3-)
proof (induction ds arbitrary: s)
  case (Cons d ds)
  then show ?case
    using filter_update_None [of "dc_pages s" d]
    by (subst finalize_pages_step [OF assms(1,2)], simp)
       (subst Cons.IH, auto intro!: finishable_done_at simp: finishable_def [of s d])
qed simp

lemma fold_done_at:
  fixes s :: dec and i_size isz xpage :: int
  assumes "distinct ds" "distinct (filter (\<lambda>dp. dp \<noteq> None) (dc_pages s))" "\<forall>d\<in>set ds. d < length (dc_pages s)"
  defines "t \<equiv> fold (done_at i_size isz xpage) ds s"
  shows "dc_index t = dc_index s \<and> dc_ofs t = dc_ofs s \<and> dc_locked t = dc_locked s \<and>
    (dc_xpage_done t \<longleftrightarrow> dc_xpage_done s \<or> (\<exists>d\<in>set ds. int d = xpage)) \<and> length (dc_pages t) = length (dc_pages s) \<and>
    (\<forall>d<length (dc_pages s). dc_pages t ! d = (if d \<in> set ds then None else dc_pages s ! d)) \<and>
    (\<forall>p. (\<forall>d\<in>set ds. dc_pages s ! d \<noteq> Some p) \<longrightarrow> dc_cache t p = dc_cache s p) \<and>
    (\<forall>d\<in>set ds. \<forall>p. dc_pages s ! d = Some p \<longrightarrow>
      dc_cache t p = map_option (\<lambda>pg. done_page (int d = xpage) (clip p i_size isz (pg_data pg)) pg) (dc_cache s p))"
  using assms(1-3) unfolding t_def
proof (induction ds arbitrary: s)
  case (Cons d ds)
  let ?s = "done_at i_size isz xpage d s"
  let ?t = "fold (done_at i_size isz xpage) ds ?s"
  have d: "d \<notin> set ds" "d < length (dc_pages s)"
    using Cons.prems by auto
  have "distinct (filter (\<lambda>dp. dp \<noteq> None) (dc_pages ?s))"
    using filter_update_None [of "dc_pages s" d] Cons.prems(2) by simp
  note IH = Cons.IH [OF _ this, simplified]
  have nth: "dc_pages ?s ! e = dc_pages s ! e" if "e \<in> set ds" for e
    using that d by (metis done_at_simps(1) nth_list_update_neq)
  have other: "dc_pages s ! d \<noteq> Some p" if "e \<in> set ds" "dc_pages s ! e = Some p" for e p
    using distinct_handles [OF Cons.prems(2), of d e p] that Cons.prems(1,3) by auto
  have same: "dc_cache ?t p = dc_cache ?s p" if "\<forall>e\<in>set ds. dc_pages s ! e \<noteq> Some p" for p
    using IH Cons.prems that nth by auto
  have upd: "dc_cache ?t p = map_option (\<lambda>pg. done_page (int e = xpage) (clip p i_size isz (pg_data pg)) pg) (dc_cache ?s p)"
    if "e \<in> set ds" "dc_pages s ! e = Some p" for e p
    using IH Cons.prems that nth by auto
  have fields: "dc_index ?t = dc_index s" "dc_ofs ?t = dc_ofs s" "dc_locked ?t = dc_locked s"
      "dc_xpage_done ?t \<longleftrightarrow> dc_xpage_done s \<or> (\<exists>e\<in>set (d # ds). int e = xpage)" "length (dc_pages ?t) = length (dc_pages s)"
      "\<forall>e<length (dc_pages s). dc_pages ?t ! e = (if e \<in> set (d # ds) then None else dc_pages s ! e)"
    using IH Cons.prems d by (auto simp: nth_list_update)
  moreover have "dc_cache ?t p = dc_cache s p" if "\<forall>e\<in>set (d # ds). dc_pages s ! e \<noteq> Some p" for p
    using that same [of p] by (simp add: done_at_cache)
  moreover have "dc_cache ?t p = map_option (\<lambda>pg. done_page (int e = xpage) (clip p i_size isz (pg_data pg)) pg) (dc_cache s p)"
    if "e \<in> set (d # ds)" "dc_pages s ! e = Some p" for e p
    using that upd [of e p] same [of p] other [of e p] other [of _ p] by (cases "e = d") (auto simp: done_at_cache)
  ultimately show ?case by (simp del: done_at_simps)
qed simp

section \<open>Correctness\<close>

text \<open>
  The outcome for the sub-blocks \<open>sbs\<close>: sub-block number \<open>j\<close> is delivered to page number \<open>j\<close> of the
  remaining destination pages if there is one, which is finished with it; nothing else changes.
\<close>

definition delivered :: "sub_block list \<Rightarrow> int \<Rightarrow> int \<Rightarrow> int \<Rightarrow> dec \<Rightarrow> dec \<Rightarrow> bool" where
  "delivered sbs xpage i_size isz s t \<longleftrightarrow>
     dc_index t = dc_index s + length sbs \<and> dc_ofs t = 0 \<and> \<not> dc_locked t \<and>
     length (dc_pages t) = length (dc_pages s) \<and>
     (\<forall>i<length (dc_pages s). dc_pages t ! i =
        (if dc_index s \<le> i \<and> i < dc_index s + length sbs then None else dc_pages s ! i)) \<and>
     (\<forall>j<length sbs. \<forall>p. dc_pages s ! (dc_index s + j) = Some p \<longrightarrow>
        dc_cache t p = map_option (done_page (int (dc_index s + j) = xpage) (clip p i_size isz (sb_page (sbs ! j)))) (dc_cache s p)) \<and>
     (\<forall>p. (\<forall>j<length sbs. dc_pages s ! (dc_index s + j) \<noteq> Some p) \<longrightarrow> dc_cache t p = dc_cache s p) \<and>
     (dc_xpage_done t \<longleftrightarrow> dc_xpage_done s \<or>
        (\<exists>j<length sbs. int (dc_index s + j) = xpage \<and> dc_pages s ! (dc_index s + j) \<noteq> None))"

definition block_holds :: "u8 list \<Rightarrow> nat \<Rightarrow> sub_block list \<Rightarrow> nat \<Rightarrow> nat \<Rightarrow> nat \<Rightarrow> bool" where
  "block_holds cbm cb_size sbs i max_index max_ofs \<longleftrightarrow>
     list_all sb_ok sbs \<and> bytes_at cbm 0 (concat (map sb_bytes sbs)) \<and> blocks_fit 0 cb_size sbs \<and>
     block_ends cbm (length (concat (map sb_bytes sbs))) cb_size (i + length sbs) max_index max_ofs"

lemma done_page_filled:
  "done_page b (clip p i_size isz d) (pg\<lparr>pg_data := d\<rparr>) = done_page b (clip p i_size isz d) pg"
  by (simp add: done_page_def)

text \<open>The two stages: all sub-blocks are decoded, then the pages that were present are finished.\<close>

abbreviation present :: "dec \<Rightarrow> nat \<Rightarrow> nat list" where
  "present s n \<equiv> filter (\<lambda>i. dc_pages s ! i \<noteq> None) [dc_index s..<dc_index s + n]"

lemma in_present: "d \<in> set (present s n) \<longleftrightarrow> (\<exists>j<n. d = dc_index s + j \<and> dc_pages s ! d \<noteq> None)"
  by (auto simp: le_iff_add)

definition decoded :: "sub_block list \<Rightarrow> dec \<Rightarrow> dec" where
  "decoded sbs s = fold after_block sbs (s\<lparr>dc_cb := 0, dc_completed := []\<rparr>)"

definition outcome :: "sub_block list \<Rightarrow> int \<Rightarrow> int \<Rightarrow> int \<Rightarrow> dec \<Rightarrow> dec" where
  "outcome sbs xpage i_size isz s =
     fold (done_at i_size isz xpage) (present s (length sbs)) (decoded sbs s\<lparr>dc_locked := False\<rparr>)"

lemma decoded_facts:
  assumes "dc_index s + length sbs \<le> length (dc_pages s)" "distinct (filter (\<lambda>dp. dp \<noteq> None) (dc_pages s))"
  shows "dc_pages (decoded sbs s) = dc_pages s" "dc_ofs (decoded sbs s) = dc_ofs s"
    "dc_xpage_done (decoded sbs s) = dc_xpage_done s" "dc_locked (decoded sbs s) = dc_locked s"
    "dc_index (decoded sbs s) = dc_index s + length sbs" "dc_completed (decoded sbs s) = present s (length sbs)"
    "\<And>p. \<forall>j<length sbs. dc_pages s ! (dc_index s + j) \<noteq> Some p \<Longrightarrow> dc_cache (decoded sbs s) p = dc_cache s p"
    "\<And>j p. j < length sbs \<Longrightarrow> dc_pages s ! (dc_index s + j) = Some p \<Longrightarrow>
       dc_cache (decoded sbs s) p = map_option (pg_data_update (\<lambda>_. sb_page (sbs ! j))) (dc_cache s p)"
  using fold_after_block [of "s\<lparr>dc_cb := 0, dc_completed := []\<rparr>" sbs, folded decoded_def] assms by auto

definition sizes_ok :: "int \<Rightarrow> dec \<Rightarrow> bool" where
  "sizes_ok isz s \<longleftrightarrow> 0 \<le> isz \<and> in_s64 isz \<and>
     list_all (\<lambda>dp. case dp of None \<Rightarrow> True | Some p \<Rightarrow> in_s64 (int p * 4096)) (dc_pages s)"

lemma decoded_finishable:
  assumes sb: "list_all sb_ok sbs" and s: "pages_ready s" "dc_index s + length sbs \<le> length (dc_pages s)" "sizes_ok isz s"
    and d: "d \<in> set (present s (length sbs))"
  shows "finishable (decoded sbs s\<lparr>dc_locked := False\<rparr>) d"
proof -
  have dist: "distinct (filter (\<lambda>dp. dp \<noteq> None) (dc_pages s))"
    using s(1) by (simp add: pages_ready_def)
  note u = decoded_facts [OF s(2) dist]
  obtain p where p: "dc_index s \<le> d" "d < dc_index s + length sbs" "dc_pages s ! d = Some p"
    using d by auto
  then have l: "d < length (dc_pages s)"
    using s(2) by simp
  have "length (sb_page (sbs ! (d - dc_index s))) = 4096"
    using sb p by (intro length_sb_page) (simp add: list_all_length)
  moreover have "dc_cache (decoded sbs s) p = map_option (pg_data_update (\<lambda>_. sb_page (sbs ! (d - dc_index s)))) (dc_cache s p)"
    using u(8) [of "d - dc_index s" p] p by simp
  moreover have "case dc_pages s ! d of None \<Rightarrow> True | Some p \<Rightarrow> in_s64 (int p * 4096)"
    using s(3) l unfolding sizes_ok_def list_all_length by blast
  moreover have "page_ready (dc_cache s) p"
    using pages_readyD [OF s(1) l p(3)] .
  ultimately show ?thesis
    using p(3) l u(1) by (simp add: finishable_def page_ready_def split: option.splits)
qed

lemma decompress_outcome:
  assumes blk: "block_holds cbm cb_size sbs (dc_index s) max_index max_ofs"
    and s: "dc_ofs s = 0" "dc_locked s" "pages_ready s" "dc_index s + length sbs \<le> max_index" "max_index \<le> length (dc_pages s)"
    and sz: "sizes_ok isz s"
  shows "ntfs_decompress cbm cb_size max_index max_ofs xpage i_size isz s = Ok (None, outcome sbs xpage i_size isz s)"
proof -
  let ?s = "s\<lparr>dc_cb := 0, dc_completed := []\<rparr>"
  have rdy: "pages_ready ?s" "distinct (filter (\<lambda>dp. dp \<noteq> None) (dc_pages s))"
    using s(3) by (simp_all add: pages_ready_def cong: option.case_cong)
  have dec: "dec_blocks cbm cb_size max_index max_ofs (max_index + 1 - dc_index s) ?s = Ok (None, decoded sbs s)"
    unfolding decoded_def using blk s rdy by (intro dec_blocks_fold) (auto simp: block_holds_def)
  have l: "dc_index s + length sbs \<le> length (dc_pages s)"
    using s(4,5) by simp
  note u = decoded_facts [OF l rdy(2)]
  have "finalize_pages i_size isz xpage (present s (length sbs)) (decoded sbs s\<lparr>dc_locked := False\<rparr>)
    = Ok (outcome sbs xpage i_size isz s)"
    unfolding outcome_def
    using sz blk u(1) rdy(2) decoded_finishable [OF _ s(3) l sz, of] by (intro finalize_pages_ok) (auto simp: sizes_ok_def block_holds_def)
  then show ?thesis
    using dec u(4,6) s(2) by (simp add: ntfs_decompress_def)
qed

lemma outcome_delivered:
  assumes l: "dc_index s + length sbs \<le> length (dc_pages s)" and dist: "distinct (filter (\<lambda>dp. dp \<noteq> None) (dc_pages s))"
    and ofs: "dc_ofs s = 0"
  shows "delivered sbs xpage i_size isz s (outcome sbs xpage i_size isz s)"
proof -
  let ?i = "dc_index s" and ?n = "length sbs" and ?u = "decoded sbs s\<lparr>dc_locked := False\<rparr>"
  let ?ds = "present s ?n" and ?t = "outcome sbs xpage i_size isz s"
  note u = decoded_facts [OF l dist]
  have ds: "distinct ?ds" "\<forall>d\<in>set ?ds. d < length (dc_pages s)" "dc_pages ?u = dc_pages s"
    using u(1) l by auto
  note t = fold_done_at [OF ds(1), of ?u i_size isz xpage, folded outcome_def, unfolded ds(3), OF dist ds(2)]
  have "dc_cache ?t p = map_option (done_page (int (?i + j) = xpage) (clip p i_size isz (sb_page (sbs ! j)))) (dc_cache s p)"
    if j: "j < ?n" "dc_pages s ! (?i + j) = Some p" for j p
  proof -
    have "?i + j \<in> set ?ds" using j by simp
    then have "dc_cache ?t p = map_option (\<lambda>pg. done_page (int (?i + j) = xpage) (clip p i_size isz (pg_data pg)) pg) (dc_cache (decoded sbs s) p)"
      using t j(2) by (elim conjE) (drule (1) bspec, drule spec, drule (1) mp, erule trans, simp)
    then show ?thesis
      using u(8) [OF j] by (simp add: option.map_comp comp_def done_page_filled)
  qed
  moreover have "dc_cache ?t p = dc_cache s p" if n: "\<forall>j<?n. dc_pages s ! (?i + j) \<noteq> Some p" for p
  proof -
    have "\<forall>d\<in>set ?ds. dc_pages s ! d \<noteq> Some p"
      using n unfolding Ball_def in_present by auto
    then show ?thesis using t u(7) [OF n] by simp
  qed
  moreover have "(\<exists>d\<in>set ?ds. int d = xpage) \<longleftrightarrow> (\<exists>j<?n. int (?i + j) = xpage \<and> dc_pages s ! (?i + j) \<noteq> None)"
    unfolding Bex_def in_present by blast
  ultimately show ?thesis
    using t u(2-5) ofs unfolding delivered_def by auto
qed

text \<open>
  C2. Decompressing a compression block that holds the encoding of any list of stored or compressed
  sub-blocks succeeds. The expansion of each sub-block, with the bytes behind the initialized size
  cleared, ends up in its destination page if the caller supplied that page. Exactly these pages are
  unmapped, marked up to date, unlocked and, except for the target page, released, and their entries in the
  array of pages are reset. No other page changes, the target page is reported as done exactly if it
  was among them, and the lock of the compression buffer is dropped.
\<close>

theorem decompress_correct:
  assumes "block_holds cbm cb_size sbs (dc_index s) max_index max_ofs"
    and "dc_ofs s = 0" "dc_locked s" "pages_ready s" "sizes_ok initialized_size s"
    and "dc_index s + length sbs \<le> max_index" "max_index \<le> length (dc_pages s)"
  shows "\<exists>t. ntfs_decompress cbm cb_size max_index max_ofs xpage i_size initialized_size s = Ok (None, t) \<and>
    delivered sbs xpage i_size initialized_size s t"
  using decompress_outcome [OF assms(1-4,6,7,5)] outcome_delivered [of s sbs] assms
  by (auto simp: pages_ready_def)

lemma le_bytes_2: "le_bytes 2 v = [of_nat v, of_nat (v div 256)]"
  by (simp add: numeral_2_eq_2)

definition fresh_page :: page where
  "fresh_page = \<lparr>pg_data = replicate 4096 0, pg_uptodate = False, pg_dirty = False, pg_error = False,
     pg_locked = True, pg_kmaps = 1, pg_count = 2\<rparr>"

definition one_page :: dec where
  "one_page = \<lparr>dc_cb = 0, dc_index = 0, dc_ofs = 0, dc_pages = [Some 0], dc_cache = [0 \<mapsto> fresh_page],
     dc_completed = [], dc_xpage_done = False, dc_locked = True\<rparr>"

text \<open>The block consists of the letters a and b and a phrase that repeats them three times.\<close>

theorem decompress_correct_witness:
  "\<exists>t. ntfs_decompress [4, 0xb0, 4, 97, 98, 3, 16, 0, 0] 9 1 0 0 8 8 one_page = Ok (None, t) \<and>
    delivered [Packed [Symbol 97, Symbol 98, Phrase 2 6]] 0 8 8 one_page t"
proof (rule decompress_correct)
  have lg: "extra_bits 2 = 0" "extra_bits (Suc (Suc 0)) = 0" by code_simp+
  have "sb_bytes (Packed [Symbol 97, Symbol 98, Phrase 2 6]) = [4, 0xb0, 4, 97, 98, 3, 16]"
    by (simp add: body_bytes.simps lg le_bytes_2)
  then show "block_holds [4, 0xb0, 4, 97, 98, 3, 16, 0, 0] 9 [Packed [Symbol 97, Symbol 98, Phrase 2 6]] (dc_index one_page) 1 0"
    by (simp add: block_holds_def block_ends_def bytes_at_def body_bytes.simps lg le_bytes_2)
qed (simp_all add: one_page_def fresh_page_def pages_ready_def page_ready_def sizes_ok_def in_s64_def)


end
