(* ===== verification/Ntfs_Boot.thy ===== *)
theory Ntfs_Boot
  imports Ntfs_Volume Ntfs_Bytes
begin

text \<open>
  Mounting, first part (\<^verbatim>\<open>ntfs/super.c\<close>): finding a valid boot sector on the device, with the repair of
  the primary one from a backup, taking the geometry of the volume from it, and setting up the zones
  of the cluster allocator. A boot sector is the buffer of bytes it was read into.
\<close>

section \<open>The boot sector\<close>

definition magicNTFS :: nat where
  "magicNTFS = 0x202020205346544e"

definition NTFS_BLOCK_SIZE :: nat where
  "NTFS_BLOCK_SIZE = 512"

definition NTFS_MAX_CLUSTER_SIZE :: nat where
  "NTFS_MAX_CLUSTER_SIZE = 65536"

definition bs_oem_id :: "u8 list \<Rightarrow> nat result" where
  "bs_oem_id b = le64_at b 3"

definition bs_bytes_per_sector :: "u8 list \<Rightarrow> nat result" where
  "bs_bytes_per_sector b = le16_at b 11"

definition bs_sectors_per_cluster :: "u8 list \<Rightarrow> nat result" where
  "bs_sectors_per_cluster b = rd_le b 13 1"

definition bs_reserved_sectors :: "u8 list \<Rightarrow> nat result" where
  "bs_reserved_sectors b = le16_at b 14"

definition bs_fats :: "u8 list \<Rightarrow> nat result" where
  "bs_fats b = rd_le b 16 1"

definition bs_root_entries :: "u8 list \<Rightarrow> nat result" where
  "bs_root_entries b = le16_at b 17"

definition bs_sectors :: "u8 list \<Rightarrow> nat result" where
  "bs_sectors b = le16_at b 19"

definition bs_sectors_per_fat :: "u8 list \<Rightarrow> nat result" where
  "bs_sectors_per_fat b = le16_at b 22"

definition bs_large_sectors :: "u8 list \<Rightarrow> nat result" where
  "bs_large_sectors b = le32_at b 32"

definition bs_number_of_sectors :: "u8 list \<Rightarrow> int result" where
  "bs_number_of_sectors b = sle64_at b 40"

definition bs_mft_lcn :: "u8 list \<Rightarrow> int result" where
  "bs_mft_lcn b = sle64_at b 48"

definition bs_mftmirr_lcn :: "u8 list \<Rightarrow> int result" where
  "bs_mftmirr_lcn b = sle64_at b 56"

definition bs_clusters_per_mft_record :: "u8 list \<Rightarrow> u8 result" where
  "bs_clusters_per_mft_record b = rd b 64"

definition bs_clusters_per_index_record :: "u8 list \<Rightarrow> u8 result" where
  "bs_clusters_per_index_record b = rd b 68"

definition bs_volume_serial_number :: "u8 list \<Rightarrow> nat result" where
  "bs_volume_serial_number b = le64_at b 72"

definition bs_checksum :: "u8 list \<Rightarrow> nat result" where
  "bs_checksum b = le32_at b 80"

definition bs_end_of_sector_marker :: "u8 list \<Rightarrow> nat result" where
  "bs_end_of_sector_marker b = le16_at b 510"

lemmas bs_defs =
  bs_oem_id_def bs_bytes_per_sector_def bs_sectors_per_cluster_def bs_reserved_sectors_def bs_fats_def
  bs_root_entries_def bs_sectors_def bs_sectors_per_fat_def bs_large_sectors_def bs_number_of_sectors_def
  bs_mft_lcn_def bs_mftmirr_lcn_def bs_clusters_per_mft_record_def bs_clusters_per_index_record_def
  bs_volume_serial_number_def bs_checksum_def bs_end_of_sector_marker_def

section \<open>Checking a boot sector\<close>

text \<open>The warnings of \<^verbatim>\<open>is_boot_sector_ntfs\<close>, which do not make the sector invalid.\<close>

datatype boot_warning = Invalid_checksum | Invalid_end_marker

text \<open>The sum of the first \<open>n\<close> 32-bit values.\<close>

fun boot_sum :: "u8 list \<Rightarrow> nat \<Rightarrow> nat result" where
  "boot_sum b 0 = Ok 0"
| "boot_sum b (Suc n) = bind_result (boot_sum b n) (\<lambda>i. bind_result (le32_at b (4 * n)) (\<lambda>u. Ok ((i + u) mod 2 ^ 32)))"

definition boot_checksum_warning :: "u8 list \<Rightarrow> bool \<Rightarrow> boot_warning list result" where
  "boot_checksum_warning b silent =
     bind_result (bs_checksum b) (\<lambda>checksum.
     if checksum \<noteq> 0 \<and> \<not> silent then
       bind_result (boot_sum b 20) (\<lambda>i. Ok (if checksum \<noteq> i then [Invalid_checksum] else []))
     else Ok [])"

text \<open>The check of \<^verbatim>\<open>clusters_per_mft_record\<close> and of \<^verbatim>\<open>clusters_per_index_record\<close>.\<close>

definition clusters_per_record_ok :: "u8 \<Rightarrow> bool" where
  "clusters_per_record_ok c \<longleftrightarrow> (0xe1 \<le> c \<and> c \<le> 0xf7) \<or> sint c \<in> {1, 2, 4, 8, 16, 32, 64}"

definition sectors_per_cluster_ok :: "nat \<Rightarrow> bool" where
  "sectors_per_cluster_ok n \<longleftrightarrow> n \<in> {1, 2, 4, 8, 16, 32, 64, 128}"

definition is_boot_sector_ntfs :: "u8 list \<Rightarrow> bool \<Rightarrow> (bool \<times> boot_warning list) result" where
  "is_boot_sector_ntfs b silent =
     bind_result (boot_checksum_warning b silent) (\<lambda>ws.
     bind_result (bs_oem_id b) (\<lambda>oem_id.
     if oem_id \<noteq> magicNTFS then Ok (False, ws) else
     bind_result (bs_bytes_per_sector b) (\<lambda>bytes_per_sector.
     if bytes_per_sector < 0x100 \<or> bytes_per_sector > 0x1000 then Ok (False, ws) else
     bind_result (bs_sectors_per_cluster b) (\<lambda>sectors_per_cluster.
     if \<not> sectors_per_cluster_ok sectors_per_cluster then Ok (False, ws) else
     if bytes_per_sector * sectors_per_cluster > NTFS_MAX_CLUSTER_SIZE then Ok (False, ws) else
     bind_result (bs_reserved_sectors b) (\<lambda>reserved_sectors.
     bind_result (bs_root_entries b) (\<lambda>root_entries.
     bind_result (bs_sectors b) (\<lambda>sectors.
     bind_result (bs_sectors_per_fat b) (\<lambda>sectors_per_fat.
     bind_result (bs_large_sectors b) (\<lambda>large_sectors.
     bind_result (bs_fats b) (\<lambda>fats.
     if reserved_sectors \<noteq> 0 \<or> root_entries \<noteq> 0 \<or> sectors \<noteq> 0 \<or> sectors_per_fat \<noteq> 0 \<or> large_sectors \<noteq> 0 \<or> fats \<noteq> 0
     then Ok (False, ws) else
     bind_result (bs_clusters_per_mft_record b) (\<lambda>clusters_per_mft_record.
     if \<not> clusters_per_record_ok clusters_per_mft_record then Ok (False, ws) else
     bind_result (bs_clusters_per_index_record b) (\<lambda>clusters_per_index_record.
     if \<not> clusters_per_record_ok clusters_per_index_record then Ok (False, ws) else
     bind_result (bs_end_of_sector_marker b) (\<lambda>end_of_sector_marker.
     Ok (True, ws @ (if \<not> silent \<and> end_of_sector_marker \<noteq> 0xaa55 then [Invalid_end_marker] else [])))))))))))))))"

section \<open>Reading the boot sector from the device\<close>

text \<open>
  The buffer cache of the device: the contents of each block on the device and in its buffer, whether
  a block can be read and be written, and the number of references held to its buffer.
\<close>

record block_dev =
  bd_disk :: "int \<Rightarrow> u8 list"
  bd_buffer :: "int \<Rightarrow> u8 list"
  bd_readable :: "int \<Rightarrow> bool"
  bd_writable :: "int \<Rightarrow> bool"
  bd_refs :: "int \<Rightarrow> nat"

definition sb_bread :: "int \<Rightarrow> block_dev \<Rightarrow> bool \<times> block_dev" where
  "sb_bread n dev = (if bd_readable dev n then (True, dev\<lparr>bd_refs := (bd_refs dev)(n := bd_refs dev n + 1)\<rparr>) else (False, dev))"

definition brelse :: "int \<Rightarrow> block_dev \<Rightarrow> block_dev" where
  "brelse n dev = dev\<lparr>bd_refs := (bd_refs dev)(n := bd_refs dev n - 1)\<rparr>"

text \<open>\<^verbatim>\<open>sync_dirty_buffer\<close> on a dirty buffer; the buffer stays up to date if the write succeeds.\<close>

definition sync_dirty_buffer :: "int \<Rightarrow> block_dev \<Rightarrow> bool \<times> block_dev" where
  "sync_dirty_buffer n dev =
     (if bd_writable dev n then (True, dev\<lparr>bd_disk := (bd_disk dev)(n := bd_buffer dev n)\<rparr>) else (False, dev))"

definition ON_ERRORS_PANIC :: nat where
  "ON_ERRORS_PANIC = 1"

definition ON_ERRORS_REMOUNT_RO :: nat where
  "ON_ERRORS_REMOUNT_RO = 2"

definition ON_ERRORS_CONTINUE :: nat where
  "ON_ERRORS_CONTINUE = 4"

definition ON_ERRORS_RECOVER :: nat where
  "ON_ERRORS_RECOVER = 0x10"

definition bread_valid :: "int \<Rightarrow> bool \<Rightarrow> block_dev \<Rightarrow> (bool \<times> bool \<times> block_dev) result" where
  "bread_valid n silent dev =
     (case sb_bread n dev of
        (True, dev) \<Rightarrow> bind_result (is_boot_sector_ntfs (bd_buffer dev n) silent) (\<lambda>(ok, _). Ok (True, ok, dev))
      | (False, dev) \<Rightarrow> Ok (False, False, dev))"

definition brelse_if :: "bool \<Rightarrow> int \<Rightarrow> block_dev \<Rightarrow> block_dev" where
  "brelse_if c n dev = (if c then brelse n dev else dev)"

text \<open>The part of \<^verbatim>\<open>read_ntfs_boot_sector\<close> behind the label \<^verbatim>\<open>hotfix_primary_boot_sector\<close>.\<close>

definition hotfix_primary_boot_sector :: "bool \<Rightarrow> bool \<Rightarrow> int \<Rightarrow> block_dev \<Rightarrow> (int option \<times> block_dev) result" where
  "hotfix_primary_boot_sector rdonly has_primary bh_backup dev =
     (if \<not> has_primary then Ok (Some bh_backup, dev)
      else if rdonly then Ok (Some bh_backup, brelse 0 dev)
      else
        bind_result (rd_bytes (bd_buffer dev bh_backup) 0 NTFS_BLOCK_SIZE) (\<lambda>bs.
        bind_result (wr_bytes (bd_buffer dev 0) 0 bs) (\<lambda>buf.
        let (uptodate, dev) = sync_dirty_buffer 0 (dev\<lparr>bd_buffer := (bd_buffer dev)(0 := buf)\<rparr>) in
        if uptodate then Ok (Some 0, brelse bh_backup dev)
        else Ok (Some bh_backup, brelse 0 dev))))"

definition read_ntfs_boot_sector :: "ntfs_volume \<Rightarrow> bool \<Rightarrow> bool \<Rightarrow> block_dev \<Rightarrow> (int option \<times> block_dev) result" where
  "read_ntfs_boot_sector vol rdonly silent dev =
     bind_result (bread_valid 0 silent dev) (\<lambda>(has_primary, valid, dev).
     if valid then Ok (Some 0, dev)
     else if on_errors vol AND ON_ERRORS_RECOVER = 0 then Ok (None, brelse_if has_primary 0 dev)
     else
       let last_block = (nr_blocks vol - 1) mod 2 ^ 64; middle_block = nr_blocks vol mod 2 ^ 64 div 2 in
       bind_result (bread_valid last_block silent dev) (\<lambda>(has_backup, valid, dev).
       if valid then hotfix_primary_boot_sector rdonly has_primary last_block dev
       else
         let dev = brelse_if has_backup last_block dev in
         bind_result (bread_valid middle_block silent dev) (\<lambda>(has_backup, valid, dev).
         if valid then hotfix_primary_boot_sector rdonly has_primary middle_block dev
         else Ok (None, brelse_if has_primary 0 (brelse_if has_backup middle_block dev)))))"

section \<open>The geometry of the volume\<close>

text \<open>\<^verbatim>\<open>ffs\<close>: the number of the lowest bit that is set, counted from one.\<close>

fun ffs :: "nat \<Rightarrow> nat" where
  "ffs n = (if n = 0 then 0 else if odd n then 1 else Suc (ffs (n div 2)))"

declare ffs.simps [simp del]

text \<open>\<^verbatim>\<open>ffs(n) - 1\<close> stored in a \<^verbatim>\<open>u8\<close> field.\<close>

definition size_bits :: "nat \<Rightarrow> nat" where
  "size_bits n = nat ((int (ffs n) - 1) mod 256)"

text \<open>A 32-bit left shift; shifting by 32 or more is undefined in C.\<close>

definition shl32 :: "nat \<Rightarrow> int \<Rightarrow> nat result" where
  "shl32 x k = (if 0 \<le> k \<and> k < 32 then Ok (x * 2 ^ nat k mod 2 ^ 32) else Oob)"

text \<open>\<^verbatim>\<open>size - 1\<close> as a \<^verbatim>\<open>u32\<close>.\<close>

definition size_mask :: "nat \<Rightarrow> nat" where
  "size_mask n = nat ((int n - 1) mod 2 ^ 32)"

text \<open>The size of mft and index records: a number of clusters, or the negative binary logarithm of the size.\<close>

definition clusters_to_size :: "ntfs_volume \<Rightarrow> int \<Rightarrow> nat result" where
  "clusters_to_size vol c = (if c > 0 then shl32 (cluster_size vol) (int (ffs (nat c)) - 1) else shl32 1 (- c))"

definition parse_sector_size :: "ntfs_volume \<Rightarrow> u8 list \<Rightarrow> ntfs_volume result" where
  "parse_sector_size vol b =
     bind_result (bs_bytes_per_sector b) (\<lambda>n. Ok (vol\<lparr>sector_size := n, sector_size_bits := size_bits n\<rparr>))"

definition parse_cluster_size :: "ntfs_volume \<Rightarrow> int \<Rightarrow> ntfs_volume result" where
  "parse_cluster_size vol sectors_per_cluster_bits =
     bind_result (shl32 (sector_size vol) sectors_per_cluster_bits) (\<lambda>n.
     Ok (vol\<lparr>cluster_size := n, cluster_size_mask := size_mask n, cluster_size_bits := size_bits n\<rparr>))"

definition parse_mft_record_size :: "ntfs_volume \<Rightarrow> u8 list \<Rightarrow> ntfs_volume result" where
  "parse_mft_record_size vol b =
     bind_result (bs_clusters_per_mft_record b) (\<lambda>c.
     bind_result (clusters_to_size vol (sint c)) (\<lambda>n.
     Ok (vol\<lparr>mft_record_size := n, mft_record_size_mask := size_mask n, mft_record_size_bits := size_bits n\<rparr>)))"

definition parse_index_record_size :: "ntfs_volume \<Rightarrow> u8 list \<Rightarrow> ntfs_volume result" where
  "parse_index_record_size vol b =
     bind_result (bs_clusters_per_index_record b) (\<lambda>c.
     bind_result (clusters_to_size vol (sint c)) (\<lambda>n.
     Ok (vol\<lparr>index_record_size := n, index_record_size_mask := size_mask n, index_record_size_bits := size_bits n\<rparr>)))"

text \<open>The size of the mft mirror in mft records.\<close>

definition set_mftmirr_size :: "ntfs_volume \<Rightarrow> ntfs_volume result" where
  "set_mftmirr_size vol =
     bind_result (shl32 4 (int (mft_record_size_bits vol))) (\<lambda>four.
     Ok (vol\<lparr>mftmirr_size := (if cluster_size vol \<le> four then 4 else cluster_size vol div 2 ^ mft_record_size_bits vol)\<rparr>))"

definition parse_ntfs_boot_sector :: "ntfs_volume \<Rightarrow> u8 list \<Rightarrow> (bool \<times> ntfs_volume) result" where
  "parse_ntfs_boot_sector vol b =
     bind_result (parse_sector_size vol b) (\<lambda>vol.
     if sector_size vol < sb_blocksize vol then Ok (False, vol) else
     bind_result (bs_sectors_per_cluster b) (\<lambda>sectors_per_cluster.
     let sectors_per_cluster_bits = int (ffs sectors_per_cluster) - 1 in
     bind_result (parse_cluster_size vol sectors_per_cluster_bits) (\<lambda>vol.
     if cluster_size vol < sector_size vol then Ok (False, vol) else
     bind_result (parse_mft_record_size vol b) (\<lambda>vol.
     if mft_record_size vol > PAGE_SIZE then Ok (False, vol) else
     if mft_record_size vol < sector_size vol then Ok (False, vol) else
     bind_result (parse_index_record_size vol b) (\<lambda>vol.
     if index_record_size vol < sector_size vol then Ok (False, vol) else
     bind_result (bs_number_of_sectors b) (\<lambda>number_of_sectors.
     let ll = number_of_sectors div 2 ^ nat sectors_per_cluster_bits in
     if ll mod 2 ^ 64 \<ge> 2 ^ 32 then Ok (False, vol) else
     let vol = vol\<lparr>nr_clusters := ll\<rparr> in
     bind_result (bs_mft_lcn b) (\<lambda>ll.
     if ll \<ge> nr_clusters vol then Ok (False, vol) else
     let vol = vol\<lparr>mft_lcn := ll\<rparr> in
     bind_result (bs_mftmirr_lcn b) (\<lambda>ll.
     if ll \<ge> nr_clusters vol then Ok (False, vol) else
     bind_result (set_mftmirr_size (vol\<lparr>mftmirr_lcn := ll\<rparr>)) (\<lambda>vol.
     bind_result (bs_volume_serial_number b) (\<lambda>serial_no.
     Ok (True, vol\<lparr>serial_no := serial_no\<rparr>)))))))))))"

section \<open>The zones of the cluster allocator\<close>

text \<open>The loop that halves the mft zone until it ends inside the volume.\<close>

partial_function (option) cap_mft_zone :: "int \<Rightarrow> int \<Rightarrow> int \<Rightarrow> int option" where
  "cap_mft_zone nr lcn zone_size =
     (if lcn + zone_size \<ge> nr then cap_mft_zone nr lcn (zone_size div 2) else Some (lcn + zone_size))"

definition initial_mft_zone_size :: "ntfs_volume \<Rightarrow> int" where
  "initial_mft_zone_size vol =
     (let n = nr_clusters vol in
      if mft_zone_multiplier vol = 4 then n div 2
      else if mft_zone_multiplier vol = 3 then (n + n div 2) div 4
      else if mft_zone_multiplier vol = 2 then n div 4
      else n div 8)"

text \<open>Where the mft is on a volume as \<^verbatim>\<open>mkntfs\<close> makes it, in 32-bit arithmetic.\<close>

definition standard_mft_lcn :: "ntfs_volume \<Rightarrow> int" where
  "standard_mft_lcn vol =
     (let cs = int (cluster_size vol); lcn = ((8192 + 2 * cs - 1) mod 2 ^ 32) div cs in
      if lcn * cs < 16 * 1024 then ((16 * 1024 + cs - 1) mod 2 ^ 32) div cs else lcn)"

text \<open>The result is \<open>None\<close> if the function does not return, because of the loop or a division by zero.\<close>

definition ntfs_setup_allocators :: "ntfs_volume \<Rightarrow> ntfs_volume option" where
  "ntfs_setup_allocators vol =
     (if cluster_size vol = 0 then None else
      case cap_mft_zone (nr_clusters vol) (mft_lcn vol) (initial_mft_zone_size vol) of
        None \<Rightarrow> None
      | Some zone_end \<Rightarrow>
          Some (vol\<lparr>mft_zone_pos := mft_lcn vol,
                    mft_zone_start := (if mft_lcn vol \<le> standard_mft_lcn vol then 0 else mft_lcn vol),
                    mft_zone_end := zone_end, data1_zone_pos := zone_end, data2_zone_pos := 0,
                    mft_data_pos := 24\<rparr>))"

section \<open>Well-formed geometry\<close>

text \<open>A size that is a power of two, with its mask and its binary logarithm.\<close>

definition sized :: "nat \<Rightarrow> nat \<Rightarrow> nat \<Rightarrow> bool" where
  "sized n msk bits \<longleftrightarrow> n = 2 ^ bits \<and> msk = n - 1"

definition geometry_wf :: "ntfs_volume \<Rightarrow> bool" where
  "geometry_wf vol \<longleftrightarrow>
     sized (sector_size vol) (sector_size vol - 1) (sector_size_bits vol)
     \<and> sized (cluster_size vol) (cluster_size_mask vol) (cluster_size_bits vol)
     \<and> sized (mft_record_size vol) (mft_record_size_mask vol) (mft_record_size_bits vol)
     \<and> sized (index_record_size vol) (index_record_size_mask vol) (index_record_size_bits vol)
     \<and> 256 \<le> sector_size vol \<and> sb_blocksize vol \<le> sector_size vol
     \<and> sector_size vol \<le> cluster_size vol \<and> cluster_size vol \<le> NTFS_MAX_CLUSTER_SIZE
     \<and> sector_size vol \<le> mft_record_size vol \<and> mft_record_size vol \<le> PAGE_SIZE
     \<and> sector_size vol \<le> index_record_size vol \<and> index_record_size vol < 2 ^ 32
     \<and> 0 \<le> nr_clusters vol \<and> nr_clusters vol < 2 ^ 32
     \<and> mft_lcn vol < nr_clusters vol \<and> mftmirr_lcn vol < nr_clusters vol
     \<and> 4 \<le> mftmirr_size vol \<and> cluster_size vol \<le> mftmirr_size vol * mft_record_size vol"

lemma ffs_power: "ffs (2 ^ k) = Suc k"
  by (induction k) (subst ffs.simps, simp)+

lemma size_bits_power: "k < 256 \<Longrightarrow> size_bits (2 ^ k) = k"
  by (simp add: size_bits_def ffs_power)

lemma size_mask_power: "k < 32 \<Longrightarrow> size_mask (2 ^ k) = 2 ^ k - 1"
proof -
  assume "k < 32"
  then have "(2::int) ^ k < 2 ^ 32" by (rule power_strict_increasing) simp
  then have "((2::int) ^ k - 1) mod 2 ^ 32 = 2 ^ k - 1" by (simp add: mod_pos_pos_trivial)
  then show ?thesis by (simp add: size_mask_def nat_diff_distrib nat_power_eq)
qed

lemma shl32_power: "i + j < 32 \<Longrightarrow> shl32 (2 ^ i) (int j) = Ok (2 ^ (i + j))"
  using power_strict_increasing [of "i + j" 32 "2::nat"] by (simp add: shl32_def flip: power_add)

lemma power_of_member:
  assumes "sectors_per_cluster_ok n"
  shows "\<exists>j\<le>7. n = (2::nat) ^ j"
proof -
  from assms have "n \<in> set (map (\<lambda>j. 2 ^ j) [0, 1, 2, 3, 4, 5, 6, 7])" by (simp add: sectors_per_cluster_ok_def)
  then obtain j where "j \<in> set [0, 1, 2, 3, 4, 5, 6, 7]" and "n = 2 ^ j" unfolding set_map by blast
  then show ?thesis by (intro exI [of _ j]) auto
qed

lemma clusters_to_size_power:
  assumes "cluster_size vol = 2 ^ m" and "m \<le> 16" and "clusters_per_record_ok c"
  shows "\<exists>j<32. clusters_to_size vol (sint c) = Ok (2 ^ j)"
proof (cases "0xe1 \<le> c \<and> c \<le> 0xf7")
  case True
  then have u: "0xe1 \<le> uint c" "uint c \<le> 0xf7" by (simp_all add: word_le_def)
  have "sint c = uint c - 256"
    using u mod_add_self2 [of "uint c - 128" 256]
    by (simp add: sint_uint signed_take_bit_eq_take_bit_shift take_bit_eq_mod add.commute)
  then have "clusters_to_size vol (sint c) = Ok (2 ^ nat (256 - uint c))"
    using u shl32_power [of 0 "nat (256 - uint c)"] by (simp add: clusters_to_size_def)
  moreover have "nat (256 - uint c) < 32" using u by simp
  ultimately show ?thesis by blast
next
  case False
  then have "sint c \<in> {1, 2, 4, 8, 16, 32, 64}" using assms(3) by (auto simp: clusters_per_record_ok_def)
  then have "sectors_per_cluster_ok (nat (sint c))" and pos: "sint c > 0"
    by (auto simp: sectors_per_cluster_ok_def)
  then obtain j where j: "j \<le> 7" "nat (sint c) = 2 ^ j" using power_of_member by blast
  then have "clusters_to_size vol (sint c) = Ok (2 ^ (m + j))"
    using assms(1,2) pos shl32_power [of m j] by (simp add: clusters_to_size_def ffs_power nat_power_eq)
  moreover have "m + j < 32" using assms(2) j(1) by simp
  ultimately show ?thesis by blast
qed

text \<open>What the check of the boot sector guarantees.\<close>

lemma valid_boot_sector:
  assumes "is_boot_sector_ntfs b silent = Ok (True, ws)"
  obtains bps spc cm ci where "bs_bytes_per_sector b = Ok bps" and "0x100 \<le> bps" and "bps \<le> 0x1000"
    and "bs_sectors_per_cluster b = Ok spc" and "sectors_per_cluster_ok spc"
    and "bps * spc \<le> NTFS_MAX_CLUSTER_SIZE"
    and "bs_clusters_per_mft_record b = Ok cm" and "clusters_per_record_ok cm"
    and "bs_clusters_per_index_record b = Ok ci" and "clusters_per_record_ok ci" and "512 \<le> length b"
proof -
  from assms obtain bps spc cm ci mk where "bs_bytes_per_sector b = Ok bps" "\<not> (bps < 0x100 \<or> bps > 0x1000)"
    "bs_sectors_per_cluster b = Ok spc" "sectors_per_cluster_ok spc" "\<not> bps * spc > NTFS_MAX_CLUSTER_SIZE"
    "bs_clusters_per_mft_record b = Ok cm" "clusters_per_record_ok cm"
    "bs_clusters_per_index_record b = Ok ci" "clusters_per_record_ok ci" "bs_end_of_sector_marker b = Ok mk"
    unfolding is_boot_sector_ntfs_def
    by (auto simp add: outcome_simps split: if_splits)
  moreover have "512 \<le> length b" using calculation(10) rd_le_less by (fastforce simp: bs_end_of_sector_marker_def)
  ultimately show ?thesis using that [of bps spc cm ci] by simp
qed

text \<open>The volume after the sizes have been taken from a valid boot sector.\<close>

definition with_sizes :: "ntfs_volume \<Rightarrow> nat \<Rightarrow> nat \<Rightarrow> nat \<Rightarrow> nat \<Rightarrow> ntfs_volume" where
  "with_sizes vol k m p q =
     vol\<lparr>sector_size := 2 ^ k, sector_size_bits := k,
         cluster_size := 2 ^ m, cluster_size_mask := 2 ^ m - 1, cluster_size_bits := m,
         mft_record_size := 2 ^ p, mft_record_size_mask := 2 ^ p - 1, mft_record_size_bits := p,
         index_record_size := 2 ^ q, index_record_size_mask := 2 ^ q - 1, index_record_size_bits := q\<rparr>"

lemma parse_sizes:
  assumes "bs_bytes_per_sector b = Ok (2 ^ k)" and "k \<le> 12"
    and "bs_sectors_per_cluster b = Ok (2 ^ j)" and "k + j \<le> 16"
    and "bs_clusters_per_mft_record b = Ok cm" and "clusters_per_record_ok cm"
    and "bs_clusters_per_index_record b = Ok ci" and "clusters_per_record_ok ci"
  obtains p q where "p < 32" and "q < 32"
    and "parse_sector_size vol b = Ok (vol\<lparr>sector_size := 2 ^ k, sector_size_bits := k\<rparr>)"
    and "\<And>v. sector_size v = 2 ^ k \<Longrightarrow> parse_cluster_size v (int j) =
           Ok (v\<lparr>cluster_size := 2 ^ (k + j), cluster_size_mask := 2 ^ (k + j) - 1, cluster_size_bits := k + j\<rparr>)"
    and "\<And>v. cluster_size v = 2 ^ (k + j) \<Longrightarrow> parse_mft_record_size v b =
           Ok (v\<lparr>mft_record_size := 2 ^ p, mft_record_size_mask := 2 ^ p - 1, mft_record_size_bits := p\<rparr>)"
    and "\<And>v. cluster_size v = 2 ^ (k + j) \<Longrightarrow> parse_index_record_size v b =
           Ok (v\<lparr>index_record_size := 2 ^ q, index_record_size_mask := 2 ^ q - 1, index_record_size_bits := q\<rparr>)"
proof -
  let ?v = "vol\<lparr>cluster_size := 2 ^ (k + j)\<rparr>"
  have same: "clusters_to_size v c = clusters_to_size ?v c" if "cluster_size v = 2 ^ (k + j)" for v c
    using that by (simp add: clusters_to_size_def)
  obtain p where p: "p < 32" "clusters_to_size ?v (sint cm) = Ok (2 ^ p)"
    using clusters_to_size_power [of ?v "k + j" cm] assms by auto
  obtain q where q: "q < 32" "clusters_to_size ?v (sint ci) = Ok (2 ^ q)"
    using clusters_to_size_power [of ?v "k + j" ci] assms by auto
  show ?thesis
  proof (rule that [OF p(1) q(1)])
    show "parse_sector_size vol b = Ok (vol\<lparr>sector_size := 2 ^ k, sector_size_bits := k\<rparr>)"
      using assms(1,2) by (simp add: parse_sector_size_def size_bits_power)
    show "parse_cluster_size v (int j) =
        Ok (v\<lparr>cluster_size := 2 ^ (k + j), cluster_size_mask := 2 ^ (k + j) - 1, cluster_size_bits := k + j\<rparr>)"
      if "sector_size v = 2 ^ k" for v
      using that assms(4) by (simp add: parse_cluster_size_def ffs_power shl32_power size_bits_power size_mask_power)
    show "parse_mft_record_size v b =
        Ok (v\<lparr>mft_record_size := 2 ^ p, mft_record_size_mask := 2 ^ p - 1, mft_record_size_bits := p\<rparr>)"
      if "cluster_size v = 2 ^ (k + j)" for v
      using p same [OF that] assms(5) by (simp add: parse_mft_record_size_def size_bits_power size_mask_power)
    show "parse_index_record_size v b =
        Ok (v\<lparr>index_record_size := 2 ^ q, index_record_size_mask := 2 ^ q - 1, index_record_size_bits := q\<rparr>)"
      if "cluster_size v = 2 ^ (k + j)" for v
      using q same [OF that] assms(7) by (simp add: parse_index_record_size_def size_bits_power size_mask_power)
  qed
qed

lemma s64_div_range:
  assumes "in_s64 N"
  shows "- (2 ^ 63) \<le> N div 2 ^ j \<and> N div 2 ^ j < (2 ^ 63 :: int)"
proof -
  have one: "(1::int) \<le> 2 ^ j" by simp
  then have lo: "- 9223372036854775808 * 2 ^ j \<le> N" and hi: "N \<le> 9223372036854775807 * 2 ^ j"
    using assms unfolding in_s64_def by linarith+
  have "(- 9223372036854775808 * 2 ^ j) div 2 ^ j \<le> N div 2 ^ j" "N div 2 ^ j \<le> (9223372036854775807 * 2 ^ j) div 2 ^ j"
    by (rule zdiv_mono1 [OF lo], simp) (rule zdiv_mono1 [OF hi], simp)
  moreover have "(- 9223372036854775808 * 2 ^ j) div 2 ^ j = (- 9223372036854775808 :: int)"
      "(9223372036854775807 * 2 ^ j) div 2 ^ j = (9223372036854775807 :: int)"
    by (rule nonzero_mult_div_cancel_right, simp)+
  ultimately show ?thesis by simp
qed

lemma u64_small:
  assumes "n mod 2 ^ 64 < (2 ^ 32 :: int)" and "- (2 ^ 63) \<le> n" and "n < 2 ^ 63"
  shows "0 \<le> n \<and> n < 2 ^ 32"
proof (cases "n < 0")
  case True
  then have "n mod 2 ^ 64 = n + 2 ^ 64" using mod_add_self2 [of n "2 ^ 64"] mod_pos_pos_trivial [of "n + 2 ^ 64" "2 ^ 64"] assms(2) by simp
  then show ?thesis using assms by simp
qed (use assms in simp)

lemma parse_outcome:
  assumes valid: "is_boot_sector_ntfs b silent = Ok (True, ws)"
    and pow: "bs_bytes_per_sector b = Ok (2 ^ k)"
    and parsed: "parse_ntfs_boot_sector vol b = Ok (True, vol')"
  obtains m p q n ml mm sz sn where "8 \<le> k" and "k \<le> m" and "m \<le> 16" and "k \<le> p" and "p \<le> 12" and "k \<le> q" and "q < 32"
    and "0 \<le> n" and "n < 2 ^ 32" and "ml < n" and "mm < n" and "sb_blocksize vol \<le> 2 ^ k"
    and "sz = (if 2 ^ m \<le> (2 ^ (p + 2) :: nat) then 4 else 2 ^ m div 2 ^ p)"
    and "vol' = (with_sizes vol k m p q)\<lparr>nr_clusters := n, mft_lcn := ml, mftmirr_lcn := mm, mftmirr_size := sz, serial_no := sn\<rparr>"
proof -
  obtain spc cm ci where f: "0x100 \<le> (2::nat) ^ k" "(2::nat) ^ k \<le> 0x1000" "bs_sectors_per_cluster b = Ok spc"
      "sectors_per_cluster_ok spc" "2 ^ k * spc \<le> NTFS_MAX_CLUSTER_SIZE"
      "bs_clusters_per_mft_record b = Ok cm" "clusters_per_record_ok cm"
      "bs_clusters_per_index_record b = Ok ci" "clusters_per_record_ok ci"
    using valid_boot_sector [OF valid] pow by (metis result.inject(1))
  obtain j where j: "spc = 2 ^ j" using power_of_member [OF f(4)] by blast
  have k: "8 \<le> k" "k \<le> 12"
    using f(1,2) power_le_imp_le_exp [of "2::nat" 8 k] power_le_imp_le_exp [of "2::nat" k 12] by simp_all
  have m: "k + j \<le> 16"
    using f(5) j power_le_imp_le_exp [of "2::nat" "k + j" 16] by (simp add: NTFS_MAX_CLUSTER_SIZE_def power_add)
  obtain p q where pq: "p < 32" "q < 32" and steps:
      "parse_sector_size vol b = Ok (vol\<lparr>sector_size := 2 ^ k, sector_size_bits := k\<rparr>)"
      "\<And>v. sector_size v = 2 ^ k \<Longrightarrow> parse_cluster_size v (int j) =
         Ok (v\<lparr>cluster_size := 2 ^ (k + j), cluster_size_mask := 2 ^ (k + j) - 1, cluster_size_bits := k + j\<rparr>)"
      "\<And>v. cluster_size v = 2 ^ (k + j) \<Longrightarrow> parse_mft_record_size v b =
         Ok (v\<lparr>mft_record_size := 2 ^ p, mft_record_size_mask := 2 ^ p - 1, mft_record_size_bits := p\<rparr>)"
      "\<And>v. cluster_size v = 2 ^ (k + j) \<Longrightarrow> parse_index_record_size v b =
         Ok (v\<lparr>index_record_size := 2 ^ q, index_record_size_mask := 2 ^ q - 1, index_record_size_bits := q\<rparr>)"
    using parse_sizes [OF pow k(2) f(3) [unfolded j] m f(6-9), where vol = vol] by blast
  from parsed obtain N n ml mm sn v where r: "sb_blocksize vol \<le> 2 ^ k" "(2::nat) ^ p \<le> PAGE_SIZE" "(2::nat) ^ k \<le> 2 ^ p"
      "(2::nat) ^ k \<le> 2 ^ q" "n mod 2 ^ 64 < 2 ^ 32" "ml < n" "mm < n"
      "set_mftmirr_size ((with_sizes vol k (k + j) p q)\<lparr>nr_clusters := n, mft_lcn := ml, mftmirr_lcn := mm\<rparr>) = Ok v"
      "vol' = v\<lparr>serial_no := sn\<rparr>" "bs_number_of_sectors b = Ok N" "n = N div 2 ^ j"
    unfolding parse_ntfs_boot_sector_def
    by (auto simp: steps f(3) j Let_def outcome_simps with_sizes_def not_less not_le ffs_power split: if_splits)
  have p: "p \<le> 12" using r(2) power_le_imp_le_exp [of "2::nat" p 12] by (simp add: PAGE_SIZE_def)
  have "in_s64 N" using r(10) by (auto simp: bs_number_of_sectors_def sle64_at_def outcome_simps)
  then have "- (2 ^ 63) \<le> n" "n < 2 ^ 63" using s64_div_range [of N j] r(11) by (simp_all add: in_s64_def)
  then have n: "0 \<le> n" "n < 2 ^ 32" using r(5) u64_small [of n] by simp_all
  show ?thesis
  proof (rule that [OF k(1) _ m _ p _ pq(2) n r(6,7,1)])
    show "k \<le> p" "k \<le> q" using r(3,4) power_le_imp_le_exp [of "2::nat" k] by simp_all
    show "vol' = (with_sizes vol k (k + j) p q)\<lparr>nr_clusters := n, mft_lcn := ml, mftmirr_lcn := mm,
        mftmirr_size := (if 2 ^ (k + j) \<le> (2 ^ (p + 2) :: nat) then 4 else 2 ^ (k + j) div 2 ^ p), serial_no := sn\<rparr>"
      using r(8,9) p shl32_power [of 2 p] by (auto simp: set_mftmirr_size_def with_sizes_def outcome_simps add.commute)
  qed simp_all
qed

lemma parsed_geometry:
  assumes "is_boot_sector_ntfs b silent = Ok (True, ws)" and "bs_bytes_per_sector b = Ok (2 ^ k)"
    and "parse_ntfs_boot_sector vol b = Ok (True, vol')"
  shows "geometry_wf vol'"
proof -
  obtain m p q n ml mm sz sn where r: "8 \<le> k" "k \<le> m" "m \<le> 16" "k \<le> p" "p \<le> 12" "k \<le> q" "q < 32"
      "0 \<le> n" "n < 2 ^ 32" "ml < n" "mm < n" "sb_blocksize vol \<le> 2 ^ k"
      "sz = (if 2 ^ m \<le> (2 ^ (p + 2) :: nat) then 4 else 2 ^ m div 2 ^ p)"
      "vol' = (with_sizes vol k m p q)\<lparr>nr_clusters := n, mft_lcn := ml, mftmirr_lcn := mm, mftmirr_size := sz, serial_no := sn\<rparr>"
    using parse_outcome [OF assms] by blast
  have pow: "i \<le> i' \<Longrightarrow> (2::nat) ^ i \<le> 2 ^ i'" for i i' by (rule power_increasing) simp_all
  have sz: "4 \<le> sz \<and> 2 ^ m \<le> sz * 2 ^ p"
  proof (cases "2 ^ m \<le> (2 ^ (p + 2) :: nat)")
    case True
    then show ?thesis using r(13) by (simp add: power_add mult.commute)
  next
    case False
    then have "p + 2 \<le> m" using pow [of m "p + 2"] by linarith
    then have "sz = 2 ^ (m - p)" and "2 \<le> m - p" using r(13) False by (simp_all add: power_diff)
    then show ?thesis using pow [of 2 "m - p"] \<open>p + 2 \<le> m\<close> by (simp flip: power_add)
  qed
  have "q \<le> 31" using r(7) by simp
  then have q: "(2::nat) ^ q < 2 ^ 32" using pow [of q 31] by simp
  show ?thesis
    using r(8-12) sz q pow [of 8 k] pow [of k m] pow [of m 16] pow [of k p] pow [of p 12] pow [of k q] r(1-6)
    by (simp add: r(14) geometry_wf_def sized_def with_sizes_def NTFS_MAX_CLUSTER_SIZE_def PAGE_SIZE_def)
qed

text \<open>
  C13. The geometry taken from a boot sector is well-formed: when the boot sector passes the check of
  \<^verbatim>\<open>is_boot_sector_ntfs\<close>, gives a power of two as the sector size, and is accepted by
  \<^verbatim>\<open>parse_ntfs_boot_sector\<close>, then sector, cluster, mft record and index record sizes are powers of two
  with their masks and logarithms stored beside them, they are ordered and bounded, the mft and its
  mirror start before the end of the volume, and the mirror fills at least a cluster.
\<close>

theorem boot_geometry_wf:
  assumes "is_boot_sector_ntfs b silent = Ok (True, ws)" and "bs_bytes_per_sector b = Ok (2 ^ k)"
    and "parse_ntfs_boot_sector vol b = Ok (True, vol')"
  shows "geometry_wf vol'"
  by (rule parsed_geometry [OF assms])

text \<open>A boot sector with the given sector size, mft cluster and number of sectors.\<close>

definition example_boot :: "nat \<Rightarrow> int \<Rightarrow> nat \<Rightarrow> u8 list" where
  "example_boot bps mft n =
     [0xeb, 0x52, 0x90] @ le_bytes 8 magicNTFS @ le_bytes 2 bps @ [8] @ replicate 26 0
     @ le_bytes 8 n @ le_bytes 8 (nat (mft mod 2 ^ 64)) @ le_bytes 8 2 @ [0xf6, 0, 0, 0, 1, 0, 0, 0]
     @ le_bytes 8 0x1234 @ le_bytes 4 0 @ replicate 426 0 @ [0x55, 0xaa]"

lemma le_val_zeros: "le_val (replicate n 0) = 0"
  by (induction n) simp_all

lemma example_boot_fields:
  "bs_checksum (example_boot bps mft n) = Ok 0"
  "bs_oem_id (example_boot bps mft n) = Ok magicNTFS"
  "bs_bytes_per_sector (example_boot bps mft n) = Ok (bps mod 65536)"
  "bs_sectors_per_cluster (example_boot bps mft n) = Ok 8"
  "bs_reserved_sectors (example_boot bps mft n) = Ok 0"
  "bs_root_entries (example_boot bps mft n) = Ok 0"
  "bs_sectors (example_boot bps mft n) = Ok 0"
  "bs_sectors_per_fat (example_boot bps mft n) = Ok 0"
  "bs_large_sectors (example_boot bps mft n) = Ok 0"
  "bs_fats (example_boot bps mft n) = Ok 0"
  "bs_clusters_per_mft_record (example_boot bps mft n) = Ok 0xf6"
  "bs_clusters_per_index_record (example_boot bps mft n) = Ok 1"
  "bs_end_of_sector_marker (example_boot bps mft n) = Ok 0xaa55"
  "bs_number_of_sectors (example_boot bps mft n) = Ok (s64 (int (n mod 2 ^ 64)))"
  "bs_mft_lcn (example_boot bps mft n) = Ok (s64 (mft mod 2 ^ 64))"
  "bs_mftmirr_lcn (example_boot bps mft n) = Ok 2"
  "bs_volume_serial_number (example_boot bps mft n) = Ok 0x1234"
  by (simp_all add: example_boot_def bs_defs rd_le_def rd_bytes_def sle64_at_def le_val_le_bytes nat_mod_distrib zmod_int
      magicNTFS_def s64_def le_val_zeros nth_append)

lemma example_boot_valid:
  assumes "256 \<le> bps" and "bps \<le> 4096"
  shows "is_boot_sector_ntfs (example_boot bps mft n) silent = Ok (True, [])"
  using assms
  by (auto simp: is_boot_sector_ntfs_def boot_checksum_warning_def example_boot_fields clusters_per_record_ok_def
      sectors_per_cluster_ok_def NTFS_MAX_CLUSTER_SIZE_def)

lemmas parse_defs = parse_ntfs_boot_sector_def parse_sector_size_def parse_cluster_size_def parse_mft_record_size_def
  parse_index_record_size_def set_mftmirr_size_def clusters_to_size_def

lemma ffs_numeral: "ffs (Suc 0) = 1" "ffs 8 = 4" "ffs 512 = 10" "ffs 1024 = 11" "ffs 4096 = 13"
  by ((subst ffs.simps, simp)+)

lemma example_boot_parsed:
  "parse_ntfs_boot_sector zero_volume (example_boot 512 4 1000000) =
     Ok (True, (with_sizes zero_volume 9 12 10 12)
       \<lparr>nr_clusters := 125000, mft_lcn := 4, mftmirr_lcn := 2, mftmirr_size := 4, serial_no := 0x1234\<rparr>)"
  by (simp add: parse_defs example_boot_fields with_sizes_def zero_volume_def size_bits_def size_mask_def shl32_def
      ffs_numeral s64_def PAGE_SIZE_def)

theorem boot_geometry_wf_witness:
  "\<exists>vol'. is_boot_sector_ntfs (example_boot 512 4 1000000) False = Ok (True, [])
     \<and> bs_bytes_per_sector (example_boot 512 4 1000000) = Ok (2 ^ 9)
     \<and> parse_ntfs_boot_sector zero_volume (example_boot 512 4 1000000) = Ok (True, vol') \<and> geometry_wf vol'"
proof -
  have valid: "is_boot_sector_ntfs (example_boot 512 4 1000000) False = Ok (True, [])"
    by (rule example_boot_valid) simp_all
  have bps: "bs_bytes_per_sector (example_boot 512 4 1000000) = Ok (2 ^ 9)" by (simp add: example_boot_fields)
  show ?thesis
    using boot_geometry_wf [OF valid bps example_boot_parsed] valid bps example_boot_parsed by blast
qed

section \<open>The zones lie in the volume\<close>

lemma cap_mft_zone_eq:
  assumes "lcn < nr" and "0 \<le> sz"
  shows "\<exists>z. cap_mft_zone nr lcn sz = Some (lcn + sz div 2 ^ z) \<and> lcn + sz div 2 ^ z < nr
    \<and> (\<forall>i<z. nr \<le> lcn + sz div 2 ^ i)"
  using assms(2)
proof (induction "nat sz" arbitrary: sz rule: less_induct)
  case less
  show ?case
  proof (cases "nr \<le> lcn + sz")
    case True
    with assms(1) have "0 < sz" by simp
    then have "nat (sz div 2) < nat sz" "0 \<le> sz div 2" by simp_all
    from less(1) [OF this] obtain z where z: "cap_mft_zone nr lcn (sz div 2) = Some (lcn + sz div 2 div 2 ^ z)"
        "lcn + sz div 2 div 2 ^ z < nr" "\<forall>i<z. nr \<le> lcn + sz div 2 div 2 ^ i" by blast
    have shift: "sz div 2 div 2 ^ i = sz div 2 ^ Suc i" for i by (simp add: zdiv_zmult2_eq)
    have "nr \<le> lcn + sz div 2 ^ i" if "i < Suc z" for i
      using that True z(3) by (cases i) (simp_all add: shift)
    then show ?thesis
      using z(1,2) True unfolding shift
      by (intro exI [of _ "Suc z"]) (simp add: cap_mft_zone.simps [of nr lcn sz] del: power_Suc)
  next
    case False
    then show ?thesis by (intro exI [of _ 0]) (simp add: cap_mft_zone.simps)
  qed
qed

text \<open>Without the check of the boot sector that the mft starts inside the volume, the loop would not end.\<close>

lemma cap_mft_zone_returned:
  assumes "cap_mft_zone nr lcn sz = Some y"
  shows "\<not> (nr \<le> lcn \<and> 0 \<le> sz)"
proof (rule cap_mft_zone.raw_induct [where P = "\<lambda>n l s y. \<not> (n \<le> l \<and> 0 \<le> s)", OF _ assms])
  fix cap n l s y
  assume h: "\<And>n l s y. cap n l s = Some y \<Longrightarrow> \<not> (n \<le> l \<and> 0 \<le> s)"
    and "(if n \<le> l + s then cap n l (s div 2) else Some (l + s)) = Some (y :: int)"
  then show "\<not> (n \<le> l \<and> 0 \<le> (s :: int))" using h [of n l "s div 2" y] by (auto split: if_splits)
qed

lemma setup_allocators_stuck:
  assumes "0 \<le> nr_clusters vol" and "nr_clusters vol \<le> mft_lcn vol"
  shows "ntfs_setup_allocators vol = None"
proof -
  have "0 \<le> initial_mft_zone_size vol"
    using assms(1) by (auto simp: initial_mft_zone_size_def Let_def pos_imp_zdiv_nonneg_iff)
  then have "cap_mft_zone (nr_clusters vol) (mft_lcn vol) (initial_mft_zone_size vol) = None"
    using cap_mft_zone_returned assms(2) by (metis option.exhaust)
  then show ?thesis by (simp add: ntfs_setup_allocators_def)
qed

lemma parse_step_fields:
  "parse_sector_size vol b = Ok v \<Longrightarrow> bs_bytes_per_sector b = Ok (sector_size v)"
  "parse_cluster_size vol k = Ok v \<Longrightarrow> sector_size v = sector_size vol"
  "parse_mft_record_size vol b = Ok v \<Longrightarrow> cluster_size v = cluster_size vol"
  "parse_index_record_size vol b = Ok v \<Longrightarrow> cluster_size v = cluster_size vol"
  "set_mftmirr_size vol = Ok v \<Longrightarrow>
     cluster_size v = cluster_size vol \<and> nr_clusters v = nr_clusters vol \<and> mft_lcn v = mft_lcn vol"
  by (auto simp: parse_sector_size_def parse_cluster_size_def parse_mft_record_size_def parse_index_record_size_def
      set_mftmirr_size_def outcome_simps)

lemma parsed_bounds:
  assumes valid: "is_boot_sector_ntfs b silent = Ok (True, ws)"
    and parsed: "parse_ntfs_boot_sector vol b = Ok (True, vol')"
  shows "256 \<le> cluster_size vol'" and "mft_lcn vol' < nr_clusters vol'" and "0 \<le> nr_clusters vol'"
proof -
  obtain bps spc where f: "bs_bytes_per_sector b = Ok bps" "0x100 \<le> bps" "bs_sectors_per_cluster b = Ok spc"
    using valid_boot_sector [OF valid] by metis
  from parsed obtain N n where r: "bps \<le> cluster_size vol'" "mft_lcn vol' < nr_clusters vol'" "nr_clusters vol' = n"
      "n mod 2 ^ 64 < 2 ^ 32" "bs_number_of_sectors b = Ok N" "n = N div 2 ^ nat (int (ffs spc) - 1)"
    unfolding parse_ntfs_boot_sector_def
    by (auto simp: f(3) Let_def outcome_simps not_less not_le split: if_splits dest!: parse_step_fields) (simp add: f(1))
  have "in_s64 N" using r(5) by (auto simp: bs_number_of_sectors_def sle64_at_def outcome_simps)
  then show "0 \<le> nr_clusters vol'" using s64_div_range [of N] u64_small [of n] r(3,4,6) by simp
  show "256 \<le> cluster_size vol'" "mft_lcn vol' < nr_clusters vol'" using r(1,2) f(2) by simp_all
qed

lemma allocators_return:
  assumes "256 \<le> cluster_size vol" and "mft_lcn vol < nr_clusters vol" and "0 \<le> nr_clusters vol"
  shows "\<exists>z vol'. ntfs_setup_allocators vol = Some vol'
    \<and> mft_zone_end vol' = mft_lcn vol + initial_mft_zone_size vol div 2 ^ z
    \<and> (\<forall>i<z. nr_clusters vol \<le> mft_lcn vol + initial_mft_zone_size vol div 2 ^ i)
    \<and> mft_lcn vol \<le> mft_zone_end vol' \<and> mft_zone_end vol' < nr_clusters vol
    \<and> mft_zone_pos vol' = mft_lcn vol \<and> mft_zone_start vol' \<in> {0, mft_lcn vol}
    \<and> data1_zone_pos vol' = mft_zone_end vol' \<and> data2_zone_pos vol' = 0
    \<and> (0 \<le> mft_lcn vol \<longrightarrow> 0 \<le> mft_zone_start vol' \<and> mft_zone_start vol' \<le> mft_zone_pos vol' \<and> mft_zone_pos vol' \<le> mft_zone_end vol')"
proof -
  have size: "0 \<le> initial_mft_zone_size vol" using assms(3) by (auto simp: initial_mft_zone_size_def Let_def pos_imp_zdiv_nonneg_iff)
  then have nonneg: "0 \<le> initial_mft_zone_size vol div 2 ^ z" for z by (simp add: pos_imp_zdiv_nonneg_iff)
  obtain z where "cap_mft_zone (nr_clusters vol) (mft_lcn vol) (initial_mft_zone_size vol) =
        Some (mft_lcn vol + initial_mft_zone_size vol div 2 ^ z)"
      "mft_lcn vol + initial_mft_zone_size vol div 2 ^ z < nr_clusters vol"
      "\<forall>i<z. nr_clusters vol \<le> mft_lcn vol + initial_mft_zone_size vol div 2 ^ i"
    using cap_mft_zone_eq [OF assms(2) size] by blast
  then show ?thesis
    using assms(1) nonneg [of z] by (intro exI [of _ z]) (simp add: ntfs_setup_allocators_def)
qed

text \<open>
  C15. Setting up the allocators ends. For every boot sector that is valid and accepted, the loop that halves the
  mft zone stops, at the first size for which the zone ends before the end of the volume. The zone does not
  end before the first cluster of the mft, it starts there or at cluster zero, and the data zone starts where it ends. If
  the first cluster of the mft is not negative, which the boot sector checks do not ensure, the mft
  zone therefore lies inside the volume.
\<close>

theorem setup_allocators_terminates:
  assumes "is_boot_sector_ntfs b silent = Ok (True, ws)" and "parse_ntfs_boot_sector vol\<^sub>0 b = Ok (True, vol)"
  shows "\<exists>z vol'. ntfs_setup_allocators vol = Some vol'
    \<and> mft_zone_end vol' = mft_lcn vol + initial_mft_zone_size vol div 2 ^ z
    \<and> (\<forall>i<z. nr_clusters vol \<le> mft_lcn vol + initial_mft_zone_size vol div 2 ^ i)
    \<and> mft_lcn vol \<le> mft_zone_end vol' \<and> mft_zone_end vol' < nr_clusters vol
    \<and> mft_zone_pos vol' = mft_lcn vol \<and> mft_zone_start vol' \<in> {0, mft_lcn vol}
    \<and> data1_zone_pos vol' = mft_zone_end vol' \<and> data2_zone_pos vol' = 0
    \<and> (0 \<le> mft_lcn vol \<longrightarrow> 0 \<le> mft_zone_start vol' \<and> mft_zone_start vol' \<le> mft_zone_pos vol' \<and> mft_zone_pos vol' \<le> mft_zone_end vol')"
  by (rule allocators_return) (rule parsed_bounds [OF assms])+

theorem setup_allocators_terminates_witness:
  "\<exists>vol vol'. parse_ntfs_boot_sector zero_volume (example_boot 512 4 1000000) = Ok (True, vol)
     \<and> ntfs_setup_allocators vol = Some vol' \<and> mft_zone_end vol' = 15629 \<and> mft_zone_start vol' = 0"
proof -
  have valid: "is_boot_sector_ntfs (example_boot 512 4 1000000) False = Ok (True, [])"
    by (rule example_boot_valid) simp_all
  define vol where "vol = (with_sizes zero_volume 9 12 10 12)
       \<lparr>nr_clusters := 125000, mft_lcn := 4, mftmirr_lcn := 2, mftmirr_size := 4, serial_no := 0x1234\<rparr>"
  have parsed: "parse_ntfs_boot_sector zero_volume (example_boot 512 4 1000000) = Ok (True, vol)"
    unfolding vol_def by (rule example_boot_parsed)
  have zone: "initial_mft_zone_size vol = 15625" "mft_lcn vol = 4" "nr_clusters vol = 125000"
    by (simp_all add: vol_def initial_mft_zone_size_def with_sizes_def zero_volume_def)
  obtain z vol' where v: "ntfs_setup_allocators vol = Some vol'" "mft_zone_end vol' = 4 + 15625 div 2 ^ z"
      "\<forall>i<z. 125000 \<le> (4 + 15625 div 2 ^ i :: int)"
    using setup_allocators_terminates [OF valid parsed] unfolding zone by blast
  have "z = 0" using v(3) by (cases z) auto
  moreover have "mft_zone_start vol' = 0"
    using v(1) by (auto simp: ntfs_setup_allocators_def vol_def standard_mft_lcn_def with_sizes_def zero_volume_def split: option.splits if_splits)
  ultimately show ?thesis using parsed v by auto
qed

section \<open>Finding the boot sector\<close>

text \<open>The verdict of the check, which does not depend on whether warnings are wanted.\<close>

definition boot_ok :: "u8 list \<Rightarrow> bool" where
  "boot_ok b \<longleftrightarrow> (case is_boot_sector_ntfs b True of Ok (ok, ws) \<Rightarrow> ok | _ \<Rightarrow> False)"

lemma boot_sum_Ok: "4 * n \<le> length b \<Longrightarrow> \<exists>v. boot_sum b n = Ok v"
  by (induction n) (auto simp: rd_le_Ok)

lemma boot_check_verdict:
  assumes "512 \<le> length b"
  shows "\<exists>ws. is_boot_sector_ntfs b silent = Ok (boot_ok b, ws)"
proof -
  obtain v where sum: "boot_sum b 20 = Ok v" using boot_sum_Ok [of 20 b] assms by auto
  have "\<exists>ws. boot_checksum_warning b silent = Ok ws"
    using assms sum by (simp add: boot_checksum_warning_def bs_checksum_def rd_le_Ok)
  then obtain ws where ws: "boot_checksum_warning b silent = Ok ws" ..
  have quiet: "boot_checksum_warning b True = Ok []" using assms by (simp add: boot_checksum_warning_def bs_checksum_def rd_le_Ok)
  show ?thesis
    unfolding boot_ok_def is_boot_sector_ntfs_def ws quiet using assms
    by (simp add: bs_defs rd_le_Ok)
qed

lemma rd_le_take: "i + n \<le> k \<Longrightarrow> k \<le> length b \<Longrightarrow> rd_le (take k b) i n = rd_le b i n"
  by (simp add: rd_le_Ok drop_take min_def)

lemma boot_ok_prefix:
  assumes "512 \<le> length b"
  shows "boot_ok (take 512 b) = boot_ok b"
  using assms
  by (simp add: boot_ok_def is_boot_sector_ntfs_def boot_checksum_warning_def bs_defs rd_le_take cong: if_cong)

definition taken :: "int \<Rightarrow> block_dev \<Rightarrow> block_dev" where
  "taken n dev = dev\<lparr>bd_refs := (bd_refs dev)(n := bd_refs dev n + 1)\<rparr>"

lemma bread_valid_eq:
  assumes "512 \<le> length (bd_buffer dev n)"
  shows "bread_valid n silent dev =
    Ok (bd_readable dev n, bd_readable dev n \<and> boot_ok (bd_buffer dev n), if bd_readable dev n then taken n dev else dev)"
  using boot_check_verdict [OF assms, of silent] by (auto simp: bread_valid_def sb_bread_def taken_def)

lemma taken_simps [simp]:
  "bd_disk (taken n dev) = bd_disk dev" "bd_buffer (taken n dev) = bd_buffer dev"
  "bd_readable (taken n dev) = bd_readable dev" "bd_writable (taken n dev) = bd_writable dev"
  "brelse n (taken n dev) = dev"
  by (simp_all add: taken_def brelse_def)

lemma brelse_other: "m \<noteq> n \<Longrightarrow> brelse m (taken n (taken m dev)) = taken n dev"
  by (simp add: taken_def brelse_def fun_upd_twist)

text \<open>The device after the primary boot sector has been replaced by the backup.\<close>

definition hotfixed :: "int \<Rightarrow> block_dev \<Rightarrow> u8 list" where
  "hotfixed n dev = take 512 (bd_buffer dev n) @ drop 512 (bd_buffer dev 0)"

text \<open>A block with a valid boot sector, and the blocks of the two backups.\<close>

definition valid_at :: "block_dev \<Rightarrow> int \<Rightarrow> bool" where
  "valid_at dev n \<longleftrightarrow> bd_readable dev n \<and> boot_ok (bd_buffer dev n)"

definition backup_blocks :: "ntfs_volume \<Rightarrow> int set" where
  "backup_blocks vol = {(nr_blocks vol - 1) mod 2 ^ 64, nr_blocks vol mod 2 ^ 64 div 2}"

text \<open>
  What the caller gets: a valid boot sector with one reference, or nothing and no reference. The device
  is changed at most by copying one of the two backups over the primary boot sector.
\<close>

definition boot_sector_found :: "ntfs_volume \<Rightarrow> block_dev \<Rightarrow> bool \<Rightarrow> int option \<Rightarrow> block_dev \<Rightarrow> bool" where
  "boot_sector_found vol dev may_fix found dev' \<longleftrightarrow>
     (case found of
        None \<Rightarrow> dev' = dev
      | Some n \<Rightarrow>
          boot_ok (bd_buffer dev' n) \<and> bd_refs dev' = (bd_refs dev)(n := bd_refs dev n + 1)
          \<and> (bd_disk dev' = bd_disk dev
             \<or> may_fix \<and> n = 0 \<and> (\<exists>m\<in>backup_blocks vol. valid_at dev m \<and> bd_disk dev' = (bd_disk dev)(0 := hotfixed m dev))))"

lemma hotfix_found:
  assumes "\<And>n. 512 \<le> length (bd_buffer dev n)" and "valid_at dev n" and "n \<in> backup_blocks vol" and "n \<noteq> 0"
  shows "\<exists>m dev'. hotfix_primary_boot_sector rdonly has_primary n (taken n (if has_primary then taken 0 dev else dev)) = Ok (Some m, dev')
    \<and> boot_sector_found vol dev (\<not> rdonly) (Some m) dev'"
proof -
  have ok: "boot_ok (bd_buffer dev n)" using assms(2) by (simp add: valid_at_def)
  let ?b = "hotfixed n dev"
  have len: "512 \<le> length (bd_buffer dev 0)" "512 \<le> length (bd_buffer dev n)" using assms(1) by simp_all
  have "boot_ok ?b" using boot_ok_prefix [of ?b] boot_ok_prefix [of "bd_buffer dev n"] len ok by (simp add: hotfixed_def min_def)
  moreover have "rd_bytes (bd_buffer dev n) 0 NTFS_BLOCK_SIZE = Ok (take 512 (bd_buffer dev n))"
    using len by (simp add: rd_bytes_def NTFS_BLOCK_SIZE_def)
  moreover have "wr_bytes (bd_buffer dev 0) 0 (take 512 (bd_buffer dev n)) = Ok ?b"
    using len by (simp add: wr_bytes_def hotfixed_def min_def)
  ultimately show ?thesis
    using assms(2-4) ok
    by (auto simp: hotfix_primary_boot_sector_def boot_sector_found_def sync_dirty_buffer_def brelse_other taken_def brelse_def fun_upd_twist)
qed

definition recovers :: "ntfs_volume \<Rightarrow> bool" where
  "recovers vol \<longleftrightarrow> on_errors vol AND ON_ERRORS_RECOVER \<noteq> 0"

lemma brelse_if_taken: "brelse_if c n (if c then taken n dev else dev) = dev"
  by (simp add: brelse_if_def)

lemma boot_sector_search:
  assumes len: "\<And>n. 512 \<le> length (bd_buffer dev n)"
  shows "\<exists>found dev'. read_ntfs_boot_sector vol rdonly silent dev = Ok (found, dev')
    \<and> boot_sector_found vol dev (\<not> rdonly \<and> recovers vol \<and> \<not> valid_at dev 0) found dev'
    \<and> (found = None \<longleftrightarrow> \<not> valid_at dev 0 \<and> (recovers vol \<longrightarrow> (\<forall>n\<in>backup_blocks vol. \<not> valid_at dev n)))"
proof -
  define has where "has = bd_readable dev 0"
  define dev0 where "dev0 = (if has then taken 0 dev else dev)"
  let ?l = "(nr_blocks vol - 1) mod 2 ^ 64" and ?m = "nr_blocks vol mod 2 ^ 64 div 2"
  have d0: "bd_buffer dev0 = bd_buffer dev" "bd_readable dev0 = bd_readable dev" "brelse_if has 0 dev0 = dev"
    by (simp_all add: dev0_def brelse_if_taken)
  have b: "bread_valid n silent d = Ok (bd_readable dev n, valid_at dev n, if bd_readable dev n then taken n d else d)"
    if "bd_buffer d = bd_buffer dev" "bd_readable d = bd_readable dev" for n d
    using bread_valid_eq [of d n silent] len that by (simp add: valid_at_def)
  have v: "valid_at dev n \<Longrightarrow> bd_readable dev n" "valid_at dev 0 \<Longrightarrow> dev0 = taken 0 dev" for n
    by (simp_all add: valid_at_def dev0_def has_def)
  have read: "read_ntfs_boot_sector vol rdonly silent dev =
      (if valid_at dev 0 then Ok (Some 0, taken 0 dev)
       else if \<not> recovers vol then Ok (None, dev)
       else if valid_at dev ?l then hotfix_primary_boot_sector rdonly has ?l (taken ?l dev0)
       else if valid_at dev ?m then hotfix_primary_boot_sector rdonly has ?m (taken ?m dev0)
       else Ok (None, dev))"
    using d0 v by (auto simp: read_ntfs_boot_sector_def b dev0_def [symmetric] has_def [symmetric] recovers_def Let_def brelse_if_taken)
  have fix_at: "\<exists>m dev'. hotfix_primary_boot_sector rdonly has n (taken n dev0) = Ok (Some m, dev')
      \<and> boot_sector_found vol dev (\<not> rdonly) (Some m) dev'" if "valid_at dev n" "n \<in> backup_blocks vol" "\<not> valid_at dev 0" for n
    using hotfix_found [of dev n vol rdonly has] len that unfolding dev0_def by metis
  consider (primary) "valid_at dev 0" | (none) "\<not> valid_at dev 0" "\<not> recovers vol \<or> \<not> valid_at dev ?l \<and> \<not> valid_at dev ?m"
    | (last) "\<not> valid_at dev 0" "recovers vol" "valid_at dev ?l"
    | (middle) "\<not> valid_at dev 0" "recovers vol" "\<not> valid_at dev ?l" "valid_at dev ?m" by blast
  then show ?thesis
  proof cases
    case primary
    then show ?thesis by (simp add: read boot_sector_found_def taken_def valid_at_def)
  next
    case none
    then show ?thesis by (auto simp: read boot_sector_found_def backup_blocks_def)
  next
    case last
    then show ?thesis using fix_at [of ?l] by (auto simp: read backup_blocks_def)
  next
    case middle
    then show ?thesis using fix_at [of ?m] by (auto simp: read backup_blocks_def)
  qed
qed

text \<open>
  C14. Finding the boot sector: on a device whose blocks have at least 512 bytes the search returns a
  block with a valid boot sector and exactly one reference to its buffer, or nothing and no reference.
  It finds nothing only if the primary sector is invalid and recovery is off or both backups are
  invalid. The device is written only when the primary sector is invalid, recovery is on and the mount
  is not read-only, and then the first 512 bytes of block zero become those of a valid one of the two backups it read.
\<close>

theorem boot_sector_search_correct:
  assumes "\<And>n. 512 \<le> length (bd_buffer dev n)"
  shows "\<exists>found dev'. read_ntfs_boot_sector vol rdonly silent dev = Ok (found, dev')
    \<and> boot_sector_found vol dev (\<not> rdonly \<and> recovers vol \<and> \<not> valid_at dev 0) found dev'
    \<and> (found = None \<longleftrightarrow> \<not> valid_at dev 0 \<and> (recovers vol \<longrightarrow> (\<forall>n\<in>backup_blocks vol. \<not> valid_at dev n)))"
  by (rule boot_sector_search [OF assms])

text \<open>A device of 100 blocks with a damaged primary boot sector and a backup in the last block.\<close>

definition example_dev :: block_dev where
  "example_dev =
     \<lparr>bd_disk = (\<lambda>n. if n = 99 then example_boot 512 4 1000000 else replicate 512 0),
      bd_buffer = (\<lambda>n. if n = 99 then example_boot 512 4 1000000 else replicate 512 0),
      bd_readable = (\<lambda>n. 0 \<le> n \<and> n < 100), bd_writable = (\<lambda>n. True), bd_refs = (\<lambda>n. 0)\<rparr>"

lemma length_example_boot [simp]: "length (example_boot bps mft n) = 512"
  by (simp add: example_boot_def)

lemma example_boot_ok: "boot_ok (example_boot 512 4 n)"
  using example_boot_valid [of 512 4 n True] by (simp add: boot_ok_def)

lemma zero_boot_not_ok: "\<not> boot_ok (replicate 512 0)"
  by (simp add: boot_ok_def is_boot_sector_ntfs_def boot_checksum_warning_def bs_defs rd_le_def rd_bytes_def le_val_zeros magicNTFS_def)

theorem boot_sector_search_correct_witness:
  "(\<forall>n. 512 \<le> length (bd_buffer example_dev n))
   \<and> (\<exists>n dev'. read_ntfs_boot_sector (zero_volume\<lparr>nr_blocks := 100, on_errors := 0x10\<rparr>) False True example_dev = Ok (Some n, dev')
        \<and> boot_ok (bd_buffer dev' n) \<and> bd_refs dev' = (\<lambda>m. if m = n then 1 else 0))"
proof -
  let ?vol = "zero_volume\<lparr>nr_blocks := 100, on_errors := 0x10\<rparr>"
  have len: "512 \<le> length (bd_buffer example_dev n)" for n by (simp add: example_dev_def)
  obtain found dev' where f: "read_ntfs_boot_sector ?vol False True example_dev = Ok (found, dev')"
      "boot_sector_found ?vol example_dev (\<not> False \<and> recovers ?vol \<and> \<not> valid_at example_dev 0) found dev'"
      "found = None \<longleftrightarrow> \<not> valid_at example_dev 0 \<and> (recovers ?vol \<longrightarrow> (\<forall>n\<in>backup_blocks ?vol. \<not> valid_at example_dev n))"
    using boot_sector_search_correct [OF len, where vol = ?vol and rdonly = False and silent = True] by blast
  have "99 \<in> backup_blocks ?vol" "recovers ?vol" "valid_at example_dev 99"
    by (simp_all add: backup_blocks_def recovers_def ON_ERRORS_RECOVER_def valid_at_def example_dev_def example_boot_ok)
  then obtain n where "found = Some n" using f(3) by (cases found) auto
  moreover have "bd_refs example_dev = (\<lambda>n. 0)" by (simp add: example_dev_def)
  ultimately show ?thesis using f(1,2) len by (auto simp: boot_sector_found_def)
qed

section \<open>What the checks let pass\<close>

lemma ffs_double: "0 < n \<Longrightarrow> ffs (2 * n) = Suc (ffs n)"
  by (subst ffs.simps) simp

lemma ffs_eight: "0 < n \<Longrightarrow> ffs (8 * n) = ffs n + 3"
  using ffs_double [of n] ffs_double [of "2 * n"] ffs_double [of "4 * n"] by simp

lemma ffs_bounds: "0 < n \<Longrightarrow> 1 \<le> ffs n \<and> 2 ^ (ffs n - 1) \<le> n"
proof (induction n rule: ffs.induct)
  case (1 n)
  show ?case
  proof (cases "odd n")
    case True
    then show ?thesis using 1(2) by (subst (1 2) ffs.simps) simp
  next
    case False
    then obtain m where m: "n = 2 * m" by blast
    then have "1 \<le> ffs m \<and> 2 ^ (ffs m - 1) \<le> m" using 1 False by auto
    moreover obtain k where "ffs m = Suc k" using calculation by (cases "ffs m") auto
    ultimately show ?thesis using 1(2) by (simp add: m ffs_double)
  qed
qed

lemma ffs_sector:
  assumes "512 \<le> bps" and "bps \<le> 1024"
  shows "1 \<le> ffs bps" and "ffs bps \<le> 11"
proof -
  have f: "1 \<le> ffs bps" "2 ^ (ffs bps - 1) \<le> bps" using ffs_bounds [of bps] assms(1) by simp_all
  then have "(2::nat) ^ (ffs bps - 1) \<le> 2 ^ 10" using assms(2) by simp
  then have "ffs bps - 1 \<le> 10" by (simp only: power_increasing_iff)
  then show "1 \<le> ffs bps" "ffs bps \<le> 11" using f(1) by simp_all
qed

lemma bad_boot_parsed:
  assumes bps: "512 \<le> bps" "bps \<le> 1024" and mft: "- 9223372036854775808 \<le> mft" "mft < 0"
  shows "\<exists>vol. parse_ntfs_boot_sector zero_volume (example_boot bps mft 1000000) = Ok (True, vol)
    \<and> sector_size vol = bps \<and> cluster_size vol = 8 * bps \<and> cluster_size_bits vol = ffs bps + 2 \<and> mft_lcn vol = mft"
proof -
  have m: "s64 (mft mod 18446744073709551616) = mft" using mft by (simp add: s64_def mod_add_left_eq mod_pos_pos_trivial)
  have b: "size_bits (8 * bps) = ffs bps + 2" "bps * 8 mod 4294967296 = 8 * bps" "bps mod 65536 = bps" "8 * bps mod 4294967296 = 8 * bps"
    using bps ffs_sector [OF bps] by (simp_all add: size_bits_def ffs_eight)
  have k: "size_bits 1024 = 10" by (simp add: size_bits_def ffs_numeral)
  show ?thesis
    using bps mft
    by (simp add: parse_defs example_boot_fields zero_volume_def b k m ffs_numeral PAGE_SIZE_def shl32_def s64_def [of 1000000])
qed

text \<open>
  C38. The checks of the boot sector are too weak. For every sector size between 512 and 1024 bytes, power of two
  or not, and for every negative first cluster of the mft there is a boot sector that passes
  \<^verbatim>\<open>is_boot_sector_ntfs\<close> without a warning and is accepted by \<^verbatim>\<open>parse_ntfs_boot_sector\<close>. The stored logarithm
  belongs to the cluster size only if the sector size is a power of two, and the position at which the
  allocator starts in the mft zone is the negative cluster.
\<close>

theorem boot_sector_accepts_bad_geometry:
  assumes "512 \<le> bps" and "bps \<le> 1024" and "- 9223372036854775808 \<le> mft" and "mft < 0"
  shows "is_boot_sector_ntfs (example_boot bps mft 1000000) silent = Ok (True, [])
   \<and> (\<exists>vol vol'. parse_ntfs_boot_sector zero_volume (example_boot bps mft 1000000) = Ok (True, vol)
        \<and> sector_size vol = bps \<and> cluster_size vol = 8 * bps
        \<and> (cluster_size vol = 2 ^ cluster_size_bits vol \<longleftrightarrow> (\<exists>k. bps = 2 ^ k))
        \<and> ntfs_setup_allocators vol = Some vol' \<and> mft_zone_pos vol' = mft)"
proof -
  have valid: "is_boot_sector_ntfs (example_boot bps mft 1000000) silent = Ok (True, [])" for silent
    using assms(1,2) by (intro example_boot_valid) simp_all
  obtain vol where v: "parse_ntfs_boot_sector zero_volume (example_boot bps mft 1000000) = Ok (True, vol)"
      "sector_size vol = bps" "cluster_size vol = 8 * bps" "cluster_size_bits vol = ffs bps + 2" "mft_lcn vol = mft"
    using bad_boot_parsed [OF assms] by blast
  obtain k where k: "ffs bps = Suc k" using ffs_sector(1) [OF assms(1,2)] by (cases "ffs bps") auto
  have "8 * bps = 2 ^ (ffs bps + 2) \<longleftrightarrow> bps = 2 ^ k" by (simp add: k)
  also have "\<dots> \<longleftrightarrow> (\<exists>k. bps = 2 ^ k)" using k by (auto simp: ffs_power)
  finally show ?thesis
    using valid v allocators_return [OF parsed_bounds [OF valid v(1)]] by auto
qed

theorem boot_sector_accepts_bad_geometry_witness:
  "is_boot_sector_ntfs (example_boot 768 (- 1) 1000000) False = Ok (True, [])
   \<and> (\<exists>vol vol'. parse_ntfs_boot_sector zero_volume (example_boot 768 (- 1) 1000000) = Ok (True, vol)
        \<and> sector_size vol = 768 \<and> cluster_size vol = 6144 \<and> ntfs_setup_allocators vol = Some vol' \<and> mft_zone_pos vol' = - 1)"
  using boot_sector_accepts_bad_geometry [of 768 "- 1" False] by auto

end
