(* ===== verification/Ntfs_Statfs.thy ===== *)
theory Ntfs_Statfs
  imports Ntfs_Boot
begin

text \<open>
  The numbers of free clusters and of free mft records (\<^verbatim>\<open>get_nr_free_clusters\<close>,
  \<^verbatim>\<open>__get_nr_free_mft_records\<close> and \<^verbatim>\<open>ntfs_statfs\<close> of \<^verbatim>\<open>ntfs/super.c\<close>), counted in the pages of the two
  bitmaps. Reading a page of a bitmap is a parameter: \<open>None\<close> is a page that cannot be read.
\<close>

section \<open>Counting set bits\<close>

type_synonym bitmap_pages = "nat \<Rightarrow> u8 list option"

text \<open>\<^verbatim>\<open>bitmap_weight\<close> of a page.\<close>

definition byte_weight :: "u8 \<Rightarrow> nat" where
  "byte_weight b = length (filter (bit b) [0..<8])"

definition bitmap_weight :: "u8 list \<Rightarrow> nat" where
  "bitmap_weight bs = sum_list (map byte_weight bs)"

text \<open>The loop over the pages of a bitmap, from page \<open>index\<close> on.\<close>

fun subtract_pages :: "bitmap_pages \<Rightarrow> nat \<Rightarrow> nat \<Rightarrow> int \<Rightarrow> int" where
  "subtract_pages read_mapping_page index 0 nr_free = nr_free"
| "subtract_pages read_mapping_page index (Suc n) nr_free =
     subtract_pages read_mapping_page (Suc index) n
       (case read_mapping_page index of
          None \<Rightarrow> s64 (nr_free - int (PAGE_SIZE * 8))
        | Some page \<Rightarrow> s64 (nr_free - int (bitmap_weight page)))"

definition pages_of_bits :: "int \<Rightarrow> nat" where
  "pages_of_bits n = nat (((n + 7) div 8 + int PAGE_SIZE - 1) div int PAGE_SIZE)"

definition get_nr_free_clusters :: "bitmap_pages \<Rightarrow> ntfs_volume \<Rightarrow> int" where
  "get_nr_free_clusters lcnbmp vol =
     (let nr_free = subtract_pages lcnbmp 0 (pages_of_bits (nr_clusters vol)) (nr_clusters vol);
          nr_free = (if nr_clusters vol mod 64 \<noteq> 0 then nr_free + (64 - nr_clusters vol mod 64) else nr_free)
      in if nr_free < 0 then 0 else nr_free)"

definition get_nr_free_mft_records :: "bitmap_pages \<Rightarrow> int \<Rightarrow> nat \<Rightarrow> int" where
  "get_nr_free_mft_records mftbmp nr_free max_index =
     (let nr_free = subtract_pages mftbmp 0 max_index nr_free in if nr_free < 0 then 0 else nr_free)"

section \<open>The statfs call\<close>

record kstatfs =
  f_type :: nat
  f_bsize :: nat
  f_blocks :: int
  f_bfree :: int
  f_bavail :: int
  f_files :: int
  f_ffree :: int
  f_fsid :: "nat \<times> nat"
  f_namelen :: nat

text \<open>\<open>mft_size\<close> and \<open>mft_initialized_size\<close> are the two sizes of the inode of the mft.\<close>

definition ntfs_statfs :: "bitmap_pages \<Rightarrow> bitmap_pages \<Rightarrow> ntfs_volume \<Rightarrow> int \<Rightarrow> int \<Rightarrow> kstatfs" where
  "ntfs_statfs lcnbmp mftbmp vol mft_size mft_initialized_size =
     (let size = s64 (get_nr_free_clusters lcnbmp vol * 2 ^ cluster_size_bits vol) div int PAGE_SIZE;
          size = (if size < 0 then 0 else size);
          files = mft_size div 2 ^ mft_record_size_bits vol;
          max_index = pages_of_bits (mft_initialized_size div 2 ^ mft_record_size_bits vol)
      in \<lparr>f_type = 0x5346544e, f_bsize = PAGE_SIZE,
          f_blocks = s64 (nr_clusters vol * 2 ^ cluster_size_bits vol) div int PAGE_SIZE,
          f_bfree = size, f_bavail = size, f_files = files,
          f_ffree = get_nr_free_mft_records mftbmp files max_index,
          f_fsid = (serial_no vol mod 2 ^ 32, serial_no vol div 2 ^ 32 mod 2 ^ 32),
          f_namelen = 255\<rparr>)"

section \<open>The bits of a bitmap\<close>

text \<open>The bits of a bitmap with the given pages, and reading it when some pages fail.\<close>

definition page_bits :: nat where
  "page_bits = 32768"

definition bitmap_bit :: "(nat \<Rightarrow> u8 list) \<Rightarrow> nat \<Rightarrow> bool" where
  "bitmap_bit pages i \<longleftrightarrow> bit (pages (i div page_bits) ! (i mod page_bits div 8)) (i mod 8)"

definition reading :: "(nat \<Rightarrow> u8 list) \<Rightarrow> (nat \<Rightarrow> bool) \<Rightarrow> bitmap_pages" where
  "reading pages fails k = (if fails k then None else Some (pages k))"

lemma byte_weight_card: "byte_weight b = card {i. i < 8 \<and> bit b i}"
proof -
  have "byte_weight b = card (set (filter (bit b) [0..<8]))"
    unfolding byte_weight_def by (rule distinct_card [symmetric]) simp
  also have "set (filter (bit b) [0..<8]) = {i. i < 8 \<and> bit b i}" by auto
  finally show ?thesis .
qed

lemma bitmap_weight_card:
  "bitmap_weight bs = card {i. i < 8 * length bs \<and> bit (bs ! (i div 8)) (i mod 8)}"
proof (induction bs rule: rev_induct)
  case (snoc b bs)
  let ?n = "8 * length bs"
  let ?A = "{i. i < ?n \<and> bit (bs ! (i div 8)) (i mod 8)}" and ?B = "(\<lambda>i. ?n + i) ` {i. i < 8 \<and> bit b i}"
  have "{i. i < 8 * length (bs @ [b]) \<and> bit ((bs @ [b]) ! (i div 8)) (i mod 8)} = ?A \<union> ?B" (is "?S = _")
  proof (rule set_eqI)
    fix i
    show "i \<in> ?S \<longleftrightarrow> i \<in> ?A \<union> ?B"
    proof (cases "i < ?n")
      case True
      then have "i div 8 < length bs" by (simp add: less_mult_imp_div_less mult.commute)
      then show ?thesis using True by (auto simp: nth_append)
    next
      case False
      define j where "j = i - ?n"
      with False have i: "i = ?n + j" by simp
      then show ?thesis by (cases "j < 8") (auto simp: nth_append)
    qed
  qed
  moreover have "?A \<inter> ?B = {}" by auto
  moreover have "card ?B = byte_weight b" by (simp add: byte_weight_card card_image)
  ultimately show ?case using snoc by (simp add: bitmap_weight_def card_Un_disjoint)
qed (simp add: bitmap_weight_def)

lemma page_weight:
  assumes "length (pages k) = PAGE_SIZE"
  shows "bitmap_weight (pages k) = card {i. k * page_bits \<le> i \<and> i < (k + 1) * page_bits \<and> bitmap_bit pages i}"
proof -
  let ?A = "{i. i < 8 * length (pages k) \<and> bit (pages k ! (i div 8)) (i mod 8)}"
  have "bij_betw (\<lambda>i. k * page_bits + i) ?A {i. k * page_bits \<le> i \<and> i < (k + 1) * page_bits \<and> bitmap_bit pages i}"
  proof (rule bij_betw_imageI)
    show "(\<lambda>i. k * page_bits + i) ` ?A = {i. k * page_bits \<le> i \<and> i < (k + 1) * page_bits \<and> bitmap_bit pages i}"
    proof (rule set_eqI)
      fix i
      show "i \<in> (\<lambda>i. k * page_bits + i) ` ?A \<longleftrightarrow> i \<in> {i. k * page_bits \<le> i \<and> i < (k + 1) * page_bits \<and> bitmap_bit pages i}"
      proof (cases "k * page_bits \<le> i \<and> i < (k + 1) * page_bits")
        case True
        then obtain j where j: "i = k * page_bits + j" "j < page_bits" using le_Suc_ex [of "k * page_bits" i] by auto
        have "k * page_bits + j = j + k * 4096 * 8" by (simp add: page_bits_def)
        then have "(k * page_bits + j) mod 8 = j mod 8" by (simp only: mod_mult_self1)
        then show ?thesis using j assms by (auto simp: bitmap_bit_def page_bits_def PAGE_SIZE_def)
      qed (use assms in \<open>auto simp: page_bits_def PAGE_SIZE_def\<close>)
    qed
  qed simp
  then show ?thesis unfolding bitmap_weight_card by (rule bij_betw_same_card)
qed

section \<open>The loop over the pages\<close>

text \<open>What a page costs: its set bits, or all of its bits if it cannot be read.\<close>

definition page_cost :: "(nat \<Rightarrow> u8 list) \<Rightarrow> (nat \<Rightarrow> bool) \<Rightarrow> nat \<Rightarrow> nat" where
  "page_cost pages fails k = (if fails k then page_bits else bitmap_weight (pages k))"

definition set_bits :: "(nat \<Rightarrow> u8 list) \<Rightarrow> nat \<Rightarrow> nat set" where
  "set_bits pages n = {i. i < n \<and> bitmap_bit pages i}"

lemma finite_set_bits [simp]: "finite (set_bits pages n)"
  by (simp add: set_bits_def)

lemma page_weight_le:
  fixes pages :: "nat \<Rightarrow> u8 list"
  assumes "length (pages k) = PAGE_SIZE"
  shows "bitmap_weight (pages k) \<le> page_bits"
proof -
  have "bitmap_weight (pages k) \<le> card {i. k * page_bits \<le> i \<and> i < (k + 1) * page_bits}"
    unfolding page_weight [of pages k, OF assms] by (rule card_mono) (auto intro: finite_subset [of _ "{..<(k + 1) * page_bits}"])
  also have "\<dots> = page_bits"
    using card_atLeastLessThan [of "k * page_bits" "(k + 1) * page_bits"] by (simp add: atLeastLessThan_def Int_def atLeast_def lessThan_def)
  finally show ?thesis .
qed

lemma page_cost_le: "length (pages k) = PAGE_SIZE \<Longrightarrow> page_cost pages fails k \<le> page_bits"
  by (simp add: page_cost_def page_weight_le)

lemma subtract_pages_eq:
  assumes "\<And>k. length (pages k) = PAGE_SIZE"
    and "nr < 9223372036854775808" and "- 9223372036854775808 \<le> nr - int (n * page_bits)"
  shows "subtract_pages (reading pages fails) k n nr = nr - int (\<Sum>j<n. page_cost pages fails (k + j))"
  using assms(2,3)
proof (induction n arbitrary: k nr)
  case (Suc n)
  let ?c = "page_cost pages fails k"
  have c: "?c \<le> page_bits" by (rule page_cost_le) (rule assms(1))
  have "(case reading pages fails k of None \<Rightarrow> s64 (nr - int (PAGE_SIZE * 8)) | Some page \<Rightarrow> s64 (nr - int (bitmap_weight page)))
      = nr - int ?c"
    using Suc.prems c by (auto simp: reading_def page_cost_def page_bits_def PAGE_SIZE_def s64_simps)
  moreover have "subtract_pages (reading pages fails) (Suc k) n (nr - int ?c)
      = nr - int ?c - int (\<Sum>j<n. page_cost pages fails (Suc k + j))"
    using Suc.prems c by (intro Suc.IH) auto
  ultimately show ?case by (simp add: sum.lessThan_Suc_shift del: sum.lessThan_Suc)
qed simp

lemma page_weights:
  assumes "\<And>k. length (pages k) = PAGE_SIZE"
  shows "(\<Sum>j<n. bitmap_weight (pages j)) = card (set_bits pages (n * page_bits))"
proof (induction n)
  case (Suc n)
  let ?A = "set_bits pages (n * page_bits)" and ?B = "{i. n * page_bits \<le> i \<and> i < (n + 1) * page_bits \<and> bitmap_bit pages i}"
  have "set_bits pages (Suc n * page_bits) = ?A \<union> ?B" by (auto simp: set_bits_def)
  moreover have "?A \<inter> ?B = {}" by (auto simp: set_bits_def)
  moreover have "finite ?B" by (rule finite_subset [of _ "{..<(n + 1) * page_bits}"]) auto
  ultimately show ?case using Suc page_weight [of pages n, OF assms] by (simp add: card_Un_disjoint)
qed (simp add: set_bits_def)

lemma page_costs:
  assumes "\<And>k. length (pages k) = PAGE_SIZE"
  shows "card (set_bits pages (n * page_bits)) \<le> (\<Sum>j<n. page_cost pages fails j)"
    and "(\<And>k. \<not> fails k) \<Longrightarrow> (\<Sum>j<n. page_cost pages fails j) = card (set_bits pages (n * page_bits))"
  unfolding page_weights [OF assms, symmetric]
  using page_weight_le [of pages, OF assms] by (auto intro!: sum_mono simp: page_cost_def)

section \<open>The results\<close>

text \<open>The free units among the first \<open>n\<close>.\<close>

definition free_bits :: "(nat \<Rightarrow> u8 list) \<Rightarrow> nat \<Rightarrow> nat" where
  "free_bits pages n = card {i. i < n \<and> \<not> bitmap_bit pages i}"

lemma free_bits_eq: "int (free_bits pages n) = int n - int (card (set_bits pages n))"
proof -
  have "{..<n} = set_bits pages n \<union> {i. i < n \<and> \<not> bitmap_bit pages i}" by (auto simp: set_bits_def)
  moreover have "set_bits pages n \<inter> {i. i < n \<and> \<not> bitmap_bit pages i} = {}" by (auto simp: set_bits_def)
  ultimately have "n = card (set_bits pages n) + free_bits pages n"
    unfolding free_bits_def by (metis card_Un_disjoint card_lessThan finite_Un finite_lessThan)
  then show ?thesis by linarith
qed

text \<open>
  The cluster bitmap of a volume: the bits behind the last cluster are set up to a multiple of 64 and
  clear behind it.
\<close>

definition padded_bitmap :: "(nat \<Rightarrow> u8 list) \<Rightarrow> nat \<Rightarrow> bool" where
  "padded_bitmap pages n \<longleftrightarrow> (\<forall>i\<ge>n. bitmap_bit pages i \<longleftrightarrow> i < (n + 63) div 64 * 64)"

lemma padded_set_bits:
  assumes "padded_bitmap pages n" and "(n + 63) div 64 * 64 \<le> m"
  shows "int (card (set_bits pages m)) = int (card (set_bits pages n)) + (int ((n + 63) div 64 * 64) - int n)"
proof -
  let ?p = "(n + 63) div 64 * 64"
  have le: "n \<le> ?p" by presburger
  have "set_bits pages m = set_bits pages n \<union> {n..<?p}"
    using assms le unfolding padded_bitmap_def set_bits_def by (auto simp: not_less)
  moreover have "set_bits pages n \<inter> {n..<?p} = {}" by (auto simp: set_bits_def)
  ultimately show ?thesis using le by (simp add: card_Un_disjoint)
qed

lemma pages_of_bits_cover:
  assumes "0 \<le> n"
  shows "(nat n + 63) div 64 * 64 \<le> pages_of_bits n * page_bits" and "pages_of_bits n * page_bits \<le> nat n + 32775"
proof -
  obtain m where m: "n = int m" using assms zero_le_imp_eq_int by blast
  have "pages_of_bits n = ((m + 7) div 8 + 4095) div 4096"
    by (simp add: pages_of_bits_def m PAGE_SIZE_def nat_div_distrib)
  moreover have "(m + 63) div 64 * 64 \<le> b * 32768 \<and> b * 32768 \<le> m + 32775" if "b = ((m + 7) div 8 + 4095) div 4096" for b
  proof -
    have a: "m \<le> 8 * ((m + 7) div 8)" "8 * ((m + 7) div 8) \<le> m + 7" by linarith+
    have b: "(m + 7) div 8 \<le> 4096 * b" "4096 * b \<le> (m + 7) div 8 + 4095" unfolding that by linarith+
    have "(m + 63) div 64 \<le> (b * 512 * 64 + 63) div 64" using a b by (intro div_le_mono) linarith
    also have "\<dots> = b * 512" by simp
    finally show ?thesis using a b by linarith
  qed
  ultimately show "(nat n + 63) div 64 * 64 \<le> pages_of_bits n * page_bits" "pages_of_bits n * page_bits \<le> nat n + 32775"
    by (simp_all add: m page_bits_def)
qed

lemma round_up_64: "(n + 63) div 64 * 64 = (if n mod 64 = 0 then n else n + (64 - n mod 64))" for n :: nat
proof -
  define q r where "q = n div 64" and "r = n mod 64"
  then have n: "n = q * 64 + r" and r: "r < 64" by simp_all
  have "(q * 64 + r + 63) div 64 = q + (r + 63) div 64" by simp
  moreover have "(r + 63) div 64 = (if r = 0 then 0 else 1)" using r by (auto intro: div_nat_eqI)
  ultimately show ?thesis using r unfolding n by (auto simp: algebra_simps)
qed

lemma free_clusters:
  assumes len: "\<And>k. length (pages k) = PAGE_SIZE" and nr: "0 \<le> nr_clusters vol" "nr_clusters vol < 2 ^ 32"
    and pad: "padded_bitmap pages (nat (nr_clusters vol))"
  shows "get_nr_free_clusters (reading pages fails) vol \<le> int (free_bits pages (nat (nr_clusters vol)))"
    and "(\<And>k. \<not> fails k) \<Longrightarrow>
      get_nr_free_clusters (reading pages fails) vol = int (free_bits pages (nat (nr_clusters vol)))"
    and "0 \<le> get_nr_free_clusters (reading pages fails) vol"
proof -
  define n where "n = nat (nr_clusters vol)"
  let ?k = "pages_of_bits (nr_clusters vol)" and ?cost = "\<Sum>j<pages_of_bits (nr_clusters vol). page_cost pages fails j"
  have n: "nr_clusters vol = int n" using nr by (simp add: n_def)
  have k: "(n + 63) div 64 * 64 \<le> ?k * page_bits" "?k * page_bits \<le> n + 32775"
    using pages_of_bits_cover [OF nr(1)] by (simp_all add: n_def)
  have sub: "subtract_pages (reading pages fails) 0 ?k (nr_clusters vol) = int n - int ?cost"
  proof -
    have "- 9223372036854775808 \<le> nr_clusters vol - int (?k * page_bits)" using k(2) n by linarith
    then show ?thesis using subtract_pages_eq [of pages "nr_clusters vol" ?k fails 0, OF len] nr n by simp
  qed
  have pad_eq: "(if nr_clusters vol mod 64 \<noteq> 0 then x + (64 - nr_clusters vol mod 64) else x) = x + (int ((n + 63) div 64 * 64) - int n)" for x
  proof -
    have "nr_clusters vol mod 64 = int (n mod 64)" by (simp add: n zmod_int)
    then show ?thesis unfolding round_up_64 by (auto simp: of_nat_diff)
  qed
  have result: "get_nr_free_clusters (reading pages fails) vol = max 0 (int ((n + 63) div 64 * 64) - int ?cost)"
    unfolding get_nr_free_clusters_def Let_def sub pad_eq by (simp add: max_def)
  have bits: "int (card (set_bits pages (?k * page_bits))) = int ((n + 63) div 64 * 64) - int (free_bits pages n)"
    using padded_set_bits [OF pad [folded n_def] k(1)] free_bits_eq [of pages n] by linarith
  show "get_nr_free_clusters (reading pages fails) vol \<le> int (free_bits pages (nat (nr_clusters vol)))"
    using page_costs(1) [of pages ?k fails, OF len] bits unfolding result n_def [symmetric] by linarith
  show "get_nr_free_clusters (reading pages fails) vol = int (free_bits pages (nat (nr_clusters vol)))" if "\<And>k. \<not> fails k"
    using page_costs(2) [of pages fails ?k, OF len that] bits unfolding result n_def [symmetric] by linarith
  show "0 \<le> get_nr_free_clusters (reading pages fails) vol" by (simp add: result)
qed

lemma free_mft_records:
  assumes len: "\<And>k. length (pages k) = PAGE_SIZE" and size: "0 \<le> init" "init \<le> files" "files < 2 ^ 62"
    and used: "\<And>i. bitmap_bit pages i \<Longrightarrow> i < nat init"
  shows "get_nr_free_mft_records (reading pages fails) files (pages_of_bits init) \<le> int (free_bits pages (nat files))"
    and "(\<And>k. \<not> fails k) \<Longrightarrow>
      get_nr_free_mft_records (reading pages fails) files (pages_of_bits init) = int (free_bits pages (nat files))"
proof -
  let ?k = "pages_of_bits init" and ?cost = "\<Sum>j<pages_of_bits init. page_cost pages fails j"
  have "nat init \<le> (nat init + 63) div 64 * 64" using mod_less_divisor [of 64 "nat init"] unfolding round_up_64 by auto
  then have k: "nat init \<le> ?k * page_bits" "?k * page_bits \<le> nat init + 32775"
    using pages_of_bits_cover [OF size(1)] by linarith+
  have "- 9223372036854775808 \<le> files - int (?k * page_bits)" using k(2) size by linarith
  then have sub: "subtract_pages (reading pages fails) 0 ?k files = files - int ?cost"
    using subtract_pages_eq [of pages files ?k fails 0, OF len] size by simp
  have "set_bits pages (?k * page_bits) = set_bits pages (nat files)"
    using used k(1) size unfolding set_bits_def by force
  then have bits: "int (card (set_bits pages (?k * page_bits))) = files - int (free_bits pages (nat files))"
    using free_bits_eq [of pages "nat files"] size by simp
  show "get_nr_free_mft_records (reading pages fails) files ?k \<le> int (free_bits pages (nat files))"
    using page_costs(1) [of pages ?k fails, OF len] bits unfolding get_nr_free_mft_records_def Let_def sub by (simp del: of_nat_sum)
  show "get_nr_free_mft_records (reading pages fails) files ?k = int (free_bits pages (nat files))" if "\<And>k. \<not> fails k"
    using page_costs(2) [of pages fails ?k, OF len that] bits unfolding get_nr_free_mft_records_def Let_def sub by (simp del: of_nat_sum)
qed

lemma statfs_free:
  assumes geo: "geometry_wf vol"
    and len: "\<And>k. length (lcn_pages k) = PAGE_SIZE" "\<And>k. length (mft_pages k) = PAGE_SIZE"
    and pad: "padded_bitmap lcn_pages (nat (nr_clusters vol))"
    and size: "0 \<le> init_size" "init_size \<le> mft_size" "mft_size < 2 ^ 62"
    and used: "\<And>i. bitmap_bit mft_pages i \<Longrightarrow> i < nat (init_size div 2 ^ mft_record_size_bits vol)"
    and st: "st = ntfs_statfs (reading lcn_pages lcn_fails) (reading mft_pages mft_fails) vol mft_size init_size"
  shows "f_blocks st = nr_clusters vol * int (cluster_size vol) div int PAGE_SIZE"
    and "f_bfree st \<le> int (free_bits lcn_pages (nat (nr_clusters vol)) * cluster_size vol div PAGE_SIZE)"
    and "(\<And>k. \<not> lcn_fails k) \<Longrightarrow> f_bfree st = int (free_bits lcn_pages (nat (nr_clusters vol)) * cluster_size vol div PAGE_SIZE)"
    and "f_ffree st \<le> int (free_bits mft_pages (nat (mft_size div int (mft_record_size vol))))"
    and "(\<And>k. \<not> mft_fails k) \<Longrightarrow> f_ffree st = int (free_bits mft_pages (nat (mft_size div int (mft_record_size vol))))"
proof -
  let ?n = "nat (nr_clusters vol)" and ?b = "int (cluster_size vol)" and ?free = "get_nr_free_clusters (reading lcn_pages lcn_fails) vol"
  have g: "0 \<le> nr_clusters vol" "nr_clusters vol < 2 ^ 32" "cluster_size vol \<le> 65536"
      "?b = 2 ^ cluster_size_bits vol" "int (mft_record_size vol) = 2 ^ mft_record_size_bits vol"
    using geo by (simp_all add: geometry_wf_def sized_def NTFS_MAX_CLUSTER_SIZE_def)
  have small: "s64 (x * ?b) = x * ?b" if "0 \<le> x" "x < 2 ^ 32" for x
  proof -
    have "x * ?b \<le> 2 ^ 32 * 65536" using that g(3) by (intro mult_mono) auto
    then show ?thesis using that by (intro s64_id) (simp_all add: order.trans [of _ 0])
  qed
  have free: "0 \<le> ?free" "?free \<le> int (free_bits lcn_pages ?n)"
    using free_clusters(1,3) [of lcn_pages, OF len(1) g(1,2) pad] by blast+
  have "?free < 2 ^ 32" using free(2) free_bits_eq [of lcn_pages ?n] g(1,2) by linarith
  note free = free this
  have bfree: "f_bfree st = ?free * ?b div int PAGE_SIZE"
    using small [OF free(1,3)] free(1) unfolding st ntfs_statfs_def Let_def g(4) [symmetric]
    by (simp add: PAGE_SIZE_def pos_imp_zdiv_nonneg_iff not_less)
  show "f_blocks st = nr_clusters vol * ?b div int PAGE_SIZE"
    using small [OF g(1,2)] unfolding st ntfs_statfs_def Let_def g(4) by simp
  show "f_bfree st \<le> int (free_bits lcn_pages ?n * cluster_size vol div PAGE_SIZE)"
    using mult_right_mono [OF free(2), of ?b] unfolding bfree by (simp add: zdiv_int PAGE_SIZE_def zdiv_mono1)
  show "f_bfree st = int (free_bits lcn_pages ?n * cluster_size vol div PAGE_SIZE)" if "\<And>k. \<not> lcn_fails k"
    using free_clusters(2) [of lcn_pages vol lcn_fails, OF len(1) g(1,2) pad that] unfolding bfree by (simp add: zdiv_int)
  have "init_size div 2 ^ mft_record_size_bits vol \<le> mft_size div 2 ^ mft_record_size_bits vol" using size by (simp add: zdiv_mono1)
  moreover have "mft_size div 2 ^ mft_record_size_bits vol \<le> mft_size"
    using zdiv_mono2 [of mft_size 1 "2 ^ mft_record_size_bits vol"] size by simp
  ultimately have m: "0 \<le> init_size div 2 ^ mft_record_size_bits vol"
      "init_size div 2 ^ mft_record_size_bits vol \<le> mft_size div 2 ^ mft_record_size_bits vol"
      "mft_size div 2 ^ mft_record_size_bits vol < 2 ^ 62"
    using size by (simp_all add: pos_imp_zdiv_nonneg_iff)
  have ffree: "f_ffree st = get_nr_free_mft_records (reading mft_pages mft_fails) (mft_size div int (mft_record_size vol))
      (pages_of_bits (init_size div int (mft_record_size vol)))"
    unfolding st ntfs_statfs_def Let_def g(5) by simp
  show "f_ffree st \<le> int (free_bits mft_pages (nat (mft_size div int (mft_record_size vol))))"
    unfolding ffree g(5) by (rule free_mft_records(1) [OF len(2) m used])
  show "f_ffree st = int (free_bits mft_pages (nat (mft_size div int (mft_record_size vol))))" if "\<And>k. \<not> mft_fails k"
    unfolding ffree g(5) by (rule free_mft_records(2) [OF len(2) m used that])
qed

text \<open>
  C16. The numbers \<^verbatim>\<open>statfs\<close> reports are right, and never too large when pages of a bitmap cannot be
  read. On a volume with well-formed geometry whose cluster bitmap is padded with set bits to a multiple
  of 64 and whose mft bitmap marks only initialized records, the number of free blocks is that of the
  bytes in free clusters divided by the page size, and the number of free files is the number of mft
  records that are not in use; whatever pages fail, the reported numbers do not exceed these.
\<close>

theorem statfs_correct:
  assumes "geometry_wf vol"
    and "\<And>k. length (lcn_pages k) = PAGE_SIZE" and "\<And>k. length (mft_pages k) = PAGE_SIZE"
    and "padded_bitmap lcn_pages (nat (nr_clusters vol))"
    and "0 \<le> init_size" and "init_size \<le> mft_size" and "mft_size < 2 ^ 62"
    and "\<And>i. bitmap_bit mft_pages i \<Longrightarrow> i < nat (init_size div 2 ^ mft_record_size_bits vol)"
    and "st = ntfs_statfs (reading lcn_pages lcn_fails) (reading mft_pages mft_fails) vol mft_size init_size"
  shows "f_blocks st = nr_clusters vol * int (cluster_size vol) div int PAGE_SIZE
    \<and> f_bfree st \<le> int (free_bits lcn_pages (nat (nr_clusters vol)) * cluster_size vol div PAGE_SIZE)
    \<and> ((\<forall>k. \<not> lcn_fails k) \<longrightarrow> f_bfree st = int (free_bits lcn_pages (nat (nr_clusters vol)) * cluster_size vol div PAGE_SIZE))
    \<and> f_ffree st \<le> int (free_bits mft_pages (nat (mft_size div int (mft_record_size vol))))
    \<and> ((\<forall>k. \<not> mft_fails k) \<longrightarrow> f_ffree st = int (free_bits mft_pages (nat (mft_size div int (mft_record_size vol)))))"
  using statfs_free [OF assms] by blast

text \<open>A volume of 100 clusters, four of them in use.\<close>

definition statfs_volume :: ntfs_volume where
  "statfs_volume = (with_sizes zero_volume 9 12 10 12)
     \<lparr>nr_clusters := 100, mft_lcn := 4, mftmirr_lcn := 50, mftmirr_size := 4, serial_no := 0x1234\<rparr>"

definition used_clusters :: "u8 list" where
  "used_clusters = [0xf, 0, 0, 0, 0, 0, 0, 0, 0, 0, 0, 0, 0xf0, 0xff, 0xff, 0xff]"

definition first_page :: "u8 list \<Rightarrow> nat \<Rightarrow> u8 list" where
  "first_page bs k = (if k = 0 then bs @ replicate (4096 - length bs) 0 else replicate 4096 0)"

lemma first_page_bits:
  assumes "length bs \<le> 4096"
  shows "bitmap_bit (first_page bs) i \<longleftrightarrow> i < 8 * length bs \<and> bit (bs ! (i div 8)) (i mod 8)"
proof -
  have lt: "i mod 32768 div 8 < 4096" by simp
  show ?thesis
  proof (cases "i < 32768")
    case True
    then show ?thesis using assms lt by (auto simp: bitmap_bit_def page_bits_def nth_append first_page_def)
  next
    case False
    then show ?thesis using assms lt by (auto simp: bitmap_bit_def page_bits_def first_page_def)
  qed
qed

lemma used_clusters_padded: "padded_bitmap (first_page used_clusters) 100"
proof -
  have "list_all (\<lambda>i. bit (used_clusters ! (i div 8)) (i mod 8)) [100..<128]" by code_simp
  then have "bit (used_clusters ! (i div 8)) (i mod 8)" if "i \<in> {100..<128}" for i
    using that unfolding list_all_iff set_upt by blast
  moreover have "length used_clusters = 16" by (simp add: used_clusters_def)
  ultimately show ?thesis by (auto simp: padded_bitmap_def first_page_bits)
qed

lemma free_bits_filter:
  "free_bits pages n = length (filter (\<lambda>i. \<not> bitmap_bit pages i) [0..<n])"
proof -
  have "{i. i < n \<and> \<not> bitmap_bit pages i} = set (filter (\<lambda>i. \<not> bitmap_bit pages i) [0..<n])" by auto
  then show ?thesis unfolding free_bits_def by (simp only: distinct_card distinct_filter distinct_upt)
qed

lemma used_clusters_free: "free_bits (first_page used_clusters) 100 = 96"
proof -
  have "length used_clusters = 16" by (simp add: used_clusters_def)
  then have "free_bits (first_page used_clusters) 100
      = length (filter (\<lambda>i. \<not> (i < 128 \<and> bit (used_clusters ! (i div 8)) (i mod 8))) [0..<100])"
    by (simp add: free_bits_filter first_page_bits)
  also have "\<dots> = 96" by code_simp
  finally show ?thesis .
qed

theorem statfs_correct_witness:
  "geometry_wf statfs_volume \<and> padded_bitmap (first_page used_clusters) 100
   \<and> f_bfree (ntfs_statfs (reading (first_page used_clusters) (\<lambda>k. False)) (reading (first_page [0xff]) (\<lambda>k. True)) statfs_volume 65536 32768) = 96
   \<and> f_ffree (ntfs_statfs (reading (first_page used_clusters) (\<lambda>k. False)) (reading (first_page [0xff]) (\<lambda>k. True)) statfs_volume 65536 32768)
       \<le> int (free_bits (first_page [0xff]) 64)"
proof -
  have geo: "geometry_wf statfs_volume"
    by (simp add: statfs_volume_def with_sizes_def zero_volume_def geometry_wf_def sized_def NTFS_MAX_CLUSTER_SIZE_def PAGE_SIZE_def)
  have vol: "nr_clusters statfs_volume = 100" "cluster_size statfs_volume = 4096" "mft_record_size statfs_volume = 1024"
      "mft_record_size_bits statfs_volume = 10"
    by (simp_all add: statfs_volume_def with_sizes_def)
  have len: "length (first_page used_clusters k) = PAGE_SIZE" "length (first_page [0xff] k) = PAGE_SIZE" for k
    by (simp_all add: first_page_def used_clusters_def PAGE_SIZE_def)
  have pad: "padded_bitmap (first_page used_clusters) (nat (nr_clusters statfs_volume))"
    using used_clusters_padded by (simp add: vol)
  have used: "i < nat (32768 div 2 ^ mft_record_size_bits statfs_volume)" if "bitmap_bit (first_page [0xff]) i" for i
    using that by (simp add: first_page_bits vol)
  have "f_bfree (ntfs_statfs (reading (first_page used_clusters) (\<lambda>k. False)) (reading (first_page [0xff]) (\<lambda>k. True)) statfs_volume 65536 32768) = 96
   \<and> f_ffree (ntfs_statfs (reading (first_page used_clusters) (\<lambda>k. False)) (reading (first_page [0xff]) (\<lambda>k. True)) statfs_volume 65536 32768)
       \<le> int (free_bits (first_page [0xff]) 64)"
    using statfs_correct [OF geo len pad _ _ _ used refl, where mft_size = 65536 and lcn_fails = "\<lambda>k. False" and mft_fails = "\<lambda>k. True"] used_clusters_free
    by (simp add: vol PAGE_SIZE_def)
  then show ?thesis using geo used_clusters_padded by blast
qed

end
