(* ===== verification/Ntfs_Options.thy ===== *)
theory Ntfs_Options
  imports Ntfs_Boot
begin

text \<open>
  Mount options (\<^verbatim>\<open>simple_getbool\<close> and \<^verbatim>\<open>parse_options\<close> of \<^verbatim>\<open>ntfs/super.c\<close>). The kernel functions that read
  numbers, map user and group ids and load character set tables are parameters; references to character
  set tables are counted.
\<close>

section \<open>The environment\<close>

text \<open>
  \<open>simple_strtoul\<close> gives the number at the start of a string in a base and the rest of the string.
  \<open>make_kuid\<close> and \<open>make_kgid\<close> give no id if the number has no mapping in the user namespace. \<open>load_nls\<close>
  gives the table of a character set if it can be loaded.
\<close>

record option_env =
  simple_strtoul :: "nat \<Rightarrow> string \<Rightarrow> nat \<times> string"
  make_kuid :: "nat \<Rightarrow> nat option"
  make_kgid :: "nat \<Rightarrow> nat option"
  load_nls :: "string \<Rightarrow> nat option"
  load_nls_default :: "nat option"

definition INT_MAX :: nat where
  "INT_MAX = 2147483647"

text \<open>Conversion of an unsigned long to int.\<close>

definition s32 :: "nat \<Rightarrow> int" where
  "s32 n = (int n + 2147483648) mod 4294967296 - 2147483648"

definition on_errors_arr :: "(nat \<times> string) list" where
  "on_errors_arr =
     [(ON_ERRORS_PANIC, ''panic''), (ON_ERRORS_REMOUNT_RO, ''remount-ro''),
      (ON_ERRORS_CONTINUE, ''continue''), (ON_ERRORS_RECOVER, ''recover'')]"

definition simple_getbool :: "string option \<Rightarrow> bool option" where
  "simple_getbool s =
     (case s of
        None \<Rightarrow> Some True
      | Some s \<Rightarrow>
          if s \<in> {''1'', ''yes'', ''true''} then Some True
          else if s \<in> {''0'', ''no'', ''false''} then Some False
          else None)"

section \<open>Splitting the option string\<close>

text \<open>\<^verbatim>\<open>strsep\<close> with a comma until nothing is left, and the split of an option at its first equals sign.\<close>

fun strsep_commas :: "string \<Rightarrow> string list" where
  "strsep_commas [] = [[]]"
| "strsep_commas (c # cs) =
     (if c = CHR '','' then [] # strsep_commas cs
      else case strsep_commas cs of [] \<Rightarrow> [[c]] | t # ts \<Rightarrow> (c # t) # ts)"

fun split_value :: "string \<Rightarrow> string \<times> string option" where
  "split_value [] = ([], None)"
| "split_value (c # cs) =
     (if c = CHR ''='' then ([], Some cs) else case split_value cs of (p, v) \<Rightarrow> (c # p, v))"

section \<open>One option\<close>

text \<open>The local variables of \<^verbatim>\<open>parse_options\<close> with the values that stand for an option that was not given.\<close>

record parsed_options =
  po_errors :: nat
  po_sloppy :: int
  po_uid :: "nat option"
  po_gid :: "nat option"
  po_fmask :: nat
  po_dmask :: nat
  po_mft_zone_multiplier :: int
  po_on_errors :: int
  po_show_sys_files :: int
  po_case_sensitive :: int
  po_disable_sparse :: int
  po_nls_map :: "nat option"
  po_nls_refs :: "nat \<Rightarrow> nat"

definition no_options :: "(nat \<Rightarrow> nat) \<Rightarrow> parsed_options" where
  "no_options refs =
     \<lparr>po_errors = 0, po_sloppy = 0, po_uid = None, po_gid = None, po_fmask = 0xffff, po_dmask = 0xffff,
      po_mft_zone_multiplier = - 1, po_on_errors = - 1, po_show_sys_files = - 1, po_case_sensitive = - 1,
      po_disable_sparse = - 1, po_nls_map = None, po_nls_refs = refs\<rparr>"

text \<open>\<^verbatim>\<open>!v || !*v\<close>, and a number that has to end with the argument.\<close>

definition opt_arg :: "string option \<Rightarrow> string option" where
  "opt_arg v = (case v of None \<Rightarrow> None | Some s \<Rightarrow> if s = [] then None else Some s)"

definition opt_number :: "option_env \<Rightarrow> nat \<Rightarrow> string \<Rightarrow> nat option" where
  "opt_number env base s = (case simple_strtoul env base s of (n, rest) \<Rightarrow> if rest = [] then Some n else None)"

text \<open>An option with a required number; \<open>None\<close> is a jump to \<^verbatim>\<open>needs_arg\<close> or \<^verbatim>\<open>needs_val\<close>.\<close>

definition required_number :: "option_env \<Rightarrow> nat \<Rightarrow> string option \<Rightarrow> nat option" where
  "required_number env base v = (case opt_arg v of None \<Rightarrow> None | Some s \<Rightarrow> opt_number env base s)"

text \<open>The macros \<^verbatim>\<open>NTFS_GETOPT*\<close>: the flag says whether parsing goes on.\<close>

definition getopt :: "(parsed_options \<Rightarrow> 'a \<Rightarrow> parsed_options) \<Rightarrow> 'a option \<Rightarrow> parsed_options \<Rightarrow> bool \<times> parsed_options" where
  "getopt upd v po = (case v of None \<Rightarrow> (False, po) | Some x \<Rightarrow> (True, upd po x))"

definition getopt_with_default :: "option_env \<Rightarrow> string option \<Rightarrow> int option" where
  "getopt_with_default env v =
     (case opt_arg v of None \<Rightarrow> Some 1 | Some s \<Rightarrow> (case opt_number env 0 s of None \<Rightarrow> None | Some n \<Rightarrow> Some (s32 n)))"

definition getopt_options_array :: "string option \<Rightarrow> int \<Rightarrow> int option" where
  "getopt_options_array v current =
     (case opt_arg v of
        None \<Rightarrow> None
      | Some s \<Rightarrow>
          (case find (\<lambda>(val, str). str = s) on_errors_arr of
             None \<Rightarrow> None
           | Some (val, str) \<Rightarrow> Some ((if current = - 1 then 0 else current) OR int val)))"

definition bool_int :: "bool \<Rightarrow> int" where
  "bool_int b = (if b then 1 else 0)"

definition unload_nls :: "nat option \<Rightarrow> (nat \<Rightarrow> nat) \<Rightarrow> nat \<Rightarrow> nat" where
  "unload_nls t refs = (case t of None \<Rightarrow> refs | Some t \<Rightarrow> refs(t := refs t - 1))"

text \<open>The code behind the label \<^verbatim>\<open>use_utf8\<close>.\<close>

definition use_nls :: "option_env \<Rightarrow> string \<Rightarrow> parsed_options \<Rightarrow> bool \<times> parsed_options" where
  "use_nls env v po =
     (case load_nls env v of
        None \<Rightarrow> (po_nls_map po \<noteq> None, po)
      | Some t \<Rightarrow>
          (True, po\<lparr>po_nls_map := Some t,
            po_nls_refs := unload_nls (po_nls_map po) ((po_nls_refs po)(t := po_nls_refs po t + 1))\<rparr>))"

definition parse_option :: "option_env \<Rightarrow> string \<Rightarrow> parsed_options \<Rightarrow> bool \<times> parsed_options" where
  "parse_option env token po =
     (let (p, v) = split_value token in
      if p = ''uid'' then
        getopt (\<lambda>po x. po\<lparr>po_uid := Some x\<rparr>) (Option.bind (required_number env 0 v) (\<lambda>n. make_kuid env (n mod 2 ^ 32))) po
      else if p = ''gid'' then
        getopt (\<lambda>po x. po\<lparr>po_gid := Some x\<rparr>) (Option.bind (required_number env 0 v) (\<lambda>n. make_kgid env (n mod 2 ^ 32))) po
      else if p = ''umask'' then
        getopt (\<lambda>po x. po\<lparr>po_fmask := x mod 2 ^ 16, po_dmask := x mod 2 ^ 16\<rparr>) (required_number env 8 v) po
      else if p = ''fmask'' then getopt (\<lambda>po x. po\<lparr>po_fmask := x mod 2 ^ 16\<rparr>) (required_number env 8 v) po
      else if p = ''dmask'' then getopt (\<lambda>po x. po\<lparr>po_dmask := x mod 2 ^ 16\<rparr>) (required_number env 8 v) po
      else if p = ''mft_zone_multiplier'' then
        getopt (\<lambda>po x. po\<lparr>po_mft_zone_multiplier := s32 x\<rparr>) (required_number env 0 v) po
      else if p = ''sloppy'' then getopt (\<lambda>po x. po\<lparr>po_sloppy := x\<rparr>) (getopt_with_default env v) po
      else if p = ''show_sys_files'' then getopt (\<lambda>po b. po\<lparr>po_show_sys_files := bool_int b\<rparr>) (simple_getbool v) po
      else if p = ''case_sensitive'' then getopt (\<lambda>po b. po\<lparr>po_case_sensitive := bool_int b\<rparr>) (simple_getbool v) po
      else if p = ''disable_sparse'' then getopt (\<lambda>po b. po\<lparr>po_disable_sparse := bool_int b\<rparr>) (simple_getbool v) po
      else if p = ''errors'' then
        getopt (\<lambda>po x. po\<lparr>po_on_errors := x\<rparr>) (getopt_options_array v (po_on_errors po)) po
      else if p = ''posix'' \<or> p = ''show_inodes'' then (True, po)
      else if p = ''nls'' \<or> p = ''iocharset'' then (case opt_arg v of None \<Rightarrow> (False, po) | Some s \<Rightarrow> use_nls env s po)
      else if p = ''utf8'' then
        (case (if opt_arg v = None then Some True else simple_getbool v) of
           None \<Rightarrow> (False, po)
         | Some True \<Rightarrow> use_nls env ''utf8'' po
         | Some False \<Rightarrow> (True, po))
      else (True, po\<lparr>po_errors := (if po_errors po < INT_MAX then po_errors po + 1 else po_errors po)\<rparr>))"

fun parse_tokens :: "option_env \<Rightarrow> string list \<Rightarrow> parsed_options \<Rightarrow> bool \<times> parsed_options" where
  "parse_tokens env [] po = (True, po)"
| "parse_tokens env (t # ts) po =
     (case parse_option env t po of (True, po) \<Rightarrow> parse_tokens env ts po | (False, po) \<Rightarrow> (False, po))"

section \<open>Applying the options\<close>

text \<open>The volume with its character set table, and the references to all tables.\<close>

record mount_state =
  ms_vol :: ntfs_volume
  ms_nls_map :: "nat option"
  ms_nls_refs :: "nat \<Rightarrow> nat"

definition set_option_flag :: "int \<Rightarrow> nv_flag \<Rightarrow> ntfs_volume \<Rightarrow> ntfs_volume" where
  "set_option_flag x f vol = (if x = - 1 then vol else if x \<noteq> 0 then NVolSet f vol else NVolClear f vol)"

definition set_sparse :: "int \<Rightarrow> ntfs_volume \<Rightarrow> ntfs_volume" where
  "set_sparse disable_sparse vol =
     (if disable_sparse = - 1 then vol
      else if disable_sparse \<noteq> 0 then NVolClear NV_SparseEnabled vol
      else if \<not> NVol NV_SparseEnabled vol \<and> major_ver vol \<noteq> 0 \<and> major_ver vol < 3 then vol
      else NVolSet NV_SparseEnabled vol)"

text \<open>The zone multiplier; the result is \<open>None\<close> if it would be changed by a remount.\<close>

definition set_zone_multiplier :: "int \<Rightarrow> ntfs_volume \<Rightarrow> ntfs_volume option" where
  "set_zone_multiplier m vol =
     (if m \<noteq> - 1 \<and> mft_zone_multiplier vol \<noteq> 0 \<and> int (mft_zone_multiplier vol) \<noteq> m then None
      else
        let vol = (if m \<noteq> - 1 then vol\<lparr>mft_zone_multiplier := (if m < 1 \<or> m > 4 then 1 else nat m)\<rparr> else vol)
        in Some (if mft_zone_multiplier vol = 0 then vol\<lparr>mft_zone_multiplier := 1\<rparr> else vol))"

definition set_on_errors :: "int \<Rightarrow> ntfs_volume \<Rightarrow> ntfs_volume" where
  "set_on_errors x vol =
     (let vol = (if x \<noteq> - 1 then vol\<lparr>on_errors := nat (x mod 256)\<rparr> else vol) in
      if on_errors vol = 0 \<or> on_errors vol = ON_ERRORS_RECOVER
      then vol\<lparr>on_errors := on_errors vol OR ON_ERRORS_CONTINUE\<rparr> else vol)"

definition set_ids :: "parsed_options \<Rightarrow> ntfs_volume \<Rightarrow> ntfs_volume" where
  "set_ids po vol =
     vol\<lparr>uid := (case po_uid po of None \<Rightarrow> uid vol | Some u \<Rightarrow> u),
         gid := (case po_gid po of None \<Rightarrow> gid vol | Some g \<Rightarrow> g),
         fmask := (if po_fmask po \<noteq> 0xffff then po_fmask po else fmask vol),
         dmask := (if po_dmask po \<noteq> 0xffff then po_dmask po else dmask vol)\<rparr>"

text \<open>The choice of the character set table; the flag is false if the call fails.\<close>

definition set_nls :: "option_env \<Rightarrow> parsed_options \<Rightarrow> mount_state \<Rightarrow> bool \<times> mount_state" where
  "set_nls env po ms =
     (case po_nls_map po of
        Some t \<Rightarrow>
          if ms_nls_map ms \<noteq> None \<and> ms_nls_map ms \<noteq> Some t then (False, ms)
          else (True, ms\<lparr>ms_nls_map := Some t\<rparr>)
      | None \<Rightarrow>
          if ms_nls_map ms \<noteq> None then (True, ms)
          else (case load_nls_default env of
                  None \<Rightarrow> (False, ms)
                | Some t \<Rightarrow> (True, ms\<lparr>ms_nls_map := Some t, ms_nls_refs := (ms_nls_refs ms)(t := ms_nls_refs ms t + 1)\<rparr>)))"

definition apply_options :: "option_env \<Rightarrow> parsed_options \<Rightarrow> mount_state \<Rightarrow> bool \<times> mount_state" where
  "apply_options env po ms =
     (if po_errors po \<noteq> 0 \<and> po_sloppy po = 0 then (False, ms)
      else if po_on_errors po = 0 then (False, ms)
      else
        case set_nls env po ms of
          (False, ms) \<Rightarrow> (False, ms)
        | (True, ms) \<Rightarrow>
            (case set_zone_multiplier (po_mft_zone_multiplier po) (ms_vol ms) of
               None \<Rightarrow> (False, ms)
             | Some vol \<Rightarrow>
                 let vol = set_on_errors (po_on_errors po) vol;
                     vol = set_ids po vol;
                     vol = set_option_flag (po_show_sys_files po) NV_ShowSystemFiles vol;
                     vol = set_option_flag (po_case_sensitive po) NV_CaseSensitive vol
                 in (True, ms\<lparr>ms_vol := set_sparse (po_disable_sparse po) vol\<rparr>)))"

text \<open>The option string is \<open>None\<close> for a null pointer.\<close>

definition parse_options :: "option_env \<Rightarrow> string option \<Rightarrow> mount_state \<Rightarrow> bool \<times> mount_state" where
  "parse_options env opt ms =
     (let start = no_options (ms_nls_refs ms);
          (ok, po) = (case opt_arg opt of None \<Rightarrow> (True, start) | Some s \<Rightarrow> parse_tokens env (strsep_commas s) start);
          ms = ms\<lparr>ms_nls_refs := po_nls_refs po\<rparr>
      in if ok then apply_options env po ms else (False, ms))"

section \<open>What parsing establishes\<close>

text \<open>The values of the \<^verbatim>\<open>errors\<close> option: all combinations of the four actions but the empty one.\<close>

definition action_values :: "int list" where
  "action_values = [1, 2, 3, 4, 5, 6, 7, 16, 17, 18, 19, 20, 21, 22, 23]"

definition nls_taken :: "(nat \<Rightarrow> nat) \<Rightarrow> nat option \<Rightarrow> nat \<Rightarrow> nat" where
  "nls_taken refs t = (case t of None \<Rightarrow> refs | Some t \<Rightarrow> refs(t := refs t + 1))"

definition options_inv :: "(nat \<Rightarrow> nat) \<Rightarrow> parsed_options \<Rightarrow> bool" where
  "options_inv refs po \<longleftrightarrow>
     (po_on_errors po = - 1 \<or> po_on_errors po \<in> set action_values)
     \<and> po_nls_refs po = nls_taken refs (po_nls_map po)"

lemma options_array_values:
  assumes "getopt_options_array v x = Some y" and "x = - 1 \<or> x \<in> set action_values"
  shows "y \<in> set action_values"
proof -
  have "list_all (\<lambda>x. list_all (\<lambda>w. x OR w \<in> set action_values) [1, 2, 4, 16]) (0 # action_values)" by code_simp
  then have closed: "x OR w \<in> set action_values" if "x \<in> set (0 # action_values)" "w \<in> set [1, 2, 4, 16]" for x w
    using that unfolding list_all_iff by blast
  obtain t where t: "opt_arg v = Some t" using assms(1) by (cases "opt_arg v") (simp_all add: getopt_options_array_def)
  obtain val str where f: "find (\<lambda>(val, str). str = t) on_errors_arr = Some (val, str)"
    using assms(1) t by (cases "find (\<lambda>(val, str). str = t) on_errors_arr") (auto simp: getopt_options_array_def)
  then have y: "y = (if x = - 1 then 0 else x) OR int val" using assms(1) t by (simp add: getopt_options_array_def)
  from f obtain i where "i < length on_errors_arr" "(val, str) = on_errors_arr ! i" unfolding find_Some_iff by blast
  then have "(val, str) \<in> set on_errors_arr" by simp
  then have "int val \<in> set [1, 2, 4, 16]"
    by (auto simp: on_errors_arr_def ON_ERRORS_PANIC_def ON_ERRORS_REMOUNT_RO_def ON_ERRORS_CONTINUE_def ON_ERRORS_RECOVER_def)
  then show ?thesis using closed [of "if x = - 1 then 0 else x" "int val"] assms(2) y by auto
qed

lemma use_nls_inv:
  "use_nls env v po = (ok, po') \<Longrightarrow> options_inv refs po \<Longrightarrow> options_inv refs po'"
  by (auto simp: use_nls_def options_inv_def nls_taken_def unload_nls_def fun_eq_iff split: option.splits)

lemma getopt_inv:
  assumes "getopt upd v po = (ok, po')" and "options_inv refs po"
    and "\<And>x. v = Some x \<Longrightarrow> options_inv refs (upd po x)"
  shows "options_inv refs po'"
  using assms by (auto simp: getopt_def split: option.splits)

lemma if_eqE: "(if c then a else b) = r \<Longrightarrow> (a = r \<Longrightarrow> Q) \<Longrightarrow> (b = r \<Longrightarrow> Q) \<Longrightarrow> Q"
  by (simp split: if_splits)

lemma parse_option_inv:
  assumes "parse_option env t po = (ok, po')" and inv: "options_inv refs po"
  shows "options_inv refs po'"
proof -
  have err: "options_inv refs (po\<lparr>po_on_errors := x\<rparr>)" if "getopt_options_array v (po_on_errors po) = Some x" for v x
    using options_array_values [OF that] inv by (auto simp: options_inv_def)
  have same: "options_inv refs po'" if "po_on_errors po' = po_on_errors po" "po_nls_map po' = po_nls_map po" "po_nls_refs po' = po_nls_refs po" for po'
    using inv that by (simp add: options_inv_def)
  show ?thesis
    using assms(1) unfolding parse_option_def Let_def case_prod_unfold
  proof (elim if_eqE, goal_cases)
    case 11
    then show ?case by (elim getopt_inv [OF _ inv] err)
  next
    case 13
    then show ?case using inv by (auto split: option.splits elim: use_nls_inv [OF _ inv])
  next
    case 14
    then show ?case using inv by (auto split: option.splits bool.splits elim: use_nls_inv [OF _ inv])
  next
    case 15
    then show ?case by (auto intro: same)
  qed (auto elim!: getopt_inv [OF _ inv] intro: same)
qed

lemma parse_tokens_inv:
  "parse_tokens env ts po = (ok, po') \<Longrightarrow> options_inv refs po \<Longrightarrow> options_inv refs po'"
  by (induction env ts po rule: parse_tokens.induct) (auto split: prod.splits bool.splits dest: parse_option_inv)

text \<open>Some action is taken on errors besides recovery.\<close>

definition has_action :: "nat \<Rightarrow> bool" where
  "has_action n \<longleftrightarrow> n AND (ON_ERRORS_PANIC OR ON_ERRORS_REMOUNT_RO OR ON_ERRORS_CONTINUE) \<noteq> 0"

text \<open>Only the settings that options control differ.\<close>

definition same_but_settings :: "ntfs_volume \<Rightarrow> ntfs_volume \<Rightarrow> bool" where
  "same_but_settings vol vol' \<longleftrightarrow>
     vol' = vol\<lparr>vol_nv_flags := vol_nv_flags vol', uid := uid vol', gid := gid vol', fmask := fmask vol', dmask := dmask vol',
       mft_zone_multiplier := mft_zone_multiplier vol', on_errors := on_errors vol'\<rparr>"

lemma action_values_mask:
  assumes "x \<in> set action_values" and "x \<noteq> 16"
  shows "has_action (nat (x mod 256))" and "nat (x mod 256) \<noteq> 0" and "nat (x mod 256) \<noteq> 16"
proof -
  have "list_all (\<lambda>x. x = 16 \<or> nat (x mod 256) AND 7 \<noteq> 0 \<and> nat (x mod 256) \<noteq> 0 \<and> nat (x mod 256) \<noteq> 16) action_values" by code_simp
  then show "has_action (nat (x mod 256))" "nat (x mod 256) \<noteq> 0" "nat (x mod 256) \<noteq> 16"
    using assms unfolding list_all_iff has_action_def ON_ERRORS_PANIC_def ON_ERRORS_REMOUNT_RO_def ON_ERRORS_CONTINUE_def by auto
qed

lemma set_on_errors_action:
  assumes "x = - 1 \<or> x \<in> set action_values" and "on_errors vol = 0 \<or> has_action (on_errors vol)"
  shows "has_action (on_errors (set_on_errors x vol))"
proof -
  have four: "has_action (n OR ON_ERRORS_CONTINUE)" if "n = 0 \<or> n = 16" for n
    using that by (auto simp: has_action_def ON_ERRORS_PANIC_def ON_ERRORS_REMOUNT_RO_def ON_ERRORS_CONTINUE_def)
  consider "x = - 1" | "x = 16" | "x \<in> set action_values" "x \<noteq> 16" "x \<noteq> - 1" using assms(1) by blast
  then show ?thesis
  proof cases
    case 1
    then show ?thesis using assms(2) four by (auto simp: set_on_errors_def Let_def ON_ERRORS_RECOVER_def)
  next
    case 2
    then show ?thesis using four by (simp add: set_on_errors_def Let_def ON_ERRORS_RECOVER_def)
  next
    case 3
    then show ?thesis using action_values_mask [of x] by (simp add: set_on_errors_def Let_def ON_ERRORS_RECOVER_def)
  qed
qed

lemma set_on_errors_other: "mft_zone_multiplier (set_on_errors x vol) = mft_zone_multiplier vol"
  by (simp add: set_on_errors_def Let_def)

lemma flag_settings [simp]:
  "on_errors (set_ids po vol) = on_errors vol" "mft_zone_multiplier (set_ids po vol) = mft_zone_multiplier vol"
  "on_errors (set_option_flag x f vol) = on_errors vol"
  "mft_zone_multiplier (set_option_flag x f vol) = mft_zone_multiplier vol"
  "on_errors (set_sparse x vol) = on_errors vol" "mft_zone_multiplier (set_sparse x vol) = mft_zone_multiplier vol"
  by (simp_all add: set_ids_def set_option_flag_def set_sparse_def NVolSet_def NVolClear_def)

lemma same_but_settings_trans:
  "same_but_settings u v \<Longrightarrow> same_but_settings v w \<Longrightarrow> same_but_settings u w"
  by (cases u; cases v; cases w) (simp add: same_but_settings_def)

lemma same_but_settings_steps:
  "same_but_settings vol (set_on_errors x vol)" "same_but_settings vol (set_ids po vol)"
  "same_but_settings vol (set_option_flag x f vol)" "same_but_settings vol (set_sparse x vol)"
  "set_zone_multiplier m vol = Some vol' \<Longrightarrow> same_but_settings vol vol'"
  by (auto simp: same_but_settings_def set_on_errors_def set_ids_def set_option_flag_def set_sparse_def
      set_zone_multiplier_def NVolSet_def NVolClear_def Let_def split: if_splits)

lemmas same_but_settings_later = same_but_settings_steps(1-4) [THEN same_but_settings_trans [rotated]]

lemma set_zone_multiplier_range:
  "set_zone_multiplier m vol = Some vol' \<Longrightarrow> mft_zone_multiplier vol \<le> 4 \<Longrightarrow>
   mft_zone_multiplier vol' \<in> {1..4} \<and> on_errors vol' = on_errors vol"
  by (auto simp: set_zone_multiplier_def Let_def split: if_splits)

lemma set_nls_cases:
  assumes "set_nls env po ms = (ok, ms')" and "ms_nls_refs ms = nls_taken refs (po_nls_map po)"
  shows "ms_vol ms' = ms_vol ms \<and> (ok \<longrightarrow> ms_nls_map ms' \<noteq> None) \<and> (ms_nls_map ms \<noteq> None \<or> \<not> ok \<longrightarrow> ms_nls_map ms' = ms_nls_map ms)
    \<and> (ok \<longrightarrow> ms_nls_map ms = None \<longrightarrow> ms_nls_refs ms' = nls_taken refs (ms_nls_map ms'))"
  using assms by (auto simp: set_nls_def nls_taken_def split: option.splits if_splits)

lemma apply_options_outcome:
  assumes inv: "options_inv refs po" and refs: "ms_nls_refs ms = po_nls_refs po"
    and start: "mft_zone_multiplier (ms_vol ms) \<le> 4" "on_errors (ms_vol ms) = 0 \<or> has_action (on_errors (ms_vol ms))"
    and applied: "apply_options env po ms = (ok, ms')"
  shows "if ok then mft_zone_multiplier (ms_vol ms') \<in> {1..4} \<and> has_action (on_errors (ms_vol ms'))
      \<and> same_but_settings (ms_vol ms) (ms_vol ms') \<and> ms_nls_map ms' \<noteq> None
      \<and> (ms_nls_map ms = None \<longrightarrow> ms_nls_refs ms' = nls_taken refs (ms_nls_map ms'))
    else ms_vol ms' = ms_vol ms
      \<and> ((ms_nls_map ms = None \<longleftrightarrow> mft_zone_multiplier (ms_vol ms) = 0) \<longrightarrow> ms_nls_map ms' = ms_nls_map ms)"
proof -
  obtain nls ms1 where n: "set_nls env po ms = (nls, ms1)" by (cases "set_nls env po ms")
  note c = set_nls_cases [OF n, of refs]
  have r: "ms_nls_refs ms = nls_taken refs (po_nls_map po)" using inv refs by (simp add: options_inv_def)
  show ?thesis
  proof (cases "ok")
    case True
    with applied n obtain vol where nls: "nls" and z: "set_zone_multiplier (po_mft_zone_multiplier po) (ms_vol ms1) = Some vol"
        and ms': "ms' = ms1\<lparr>ms_vol := set_sparse (po_disable_sparse po) (set_option_flag (po_case_sensitive po) NV_CaseSensitive
            (set_option_flag (po_show_sys_files po) NV_ShowSystemFiles (set_ids po (set_on_errors (po_on_errors po) vol))))\<rparr>"
      by (auto simp: apply_options_def Let_def split: if_splits option.splits bool.splits)
    have vol: "ms_vol ms1 = ms_vol ms" using c r by simp
    have "same_but_settings (ms_vol ms) (ms_vol ms')"
      using same_but_settings_steps(5) [OF z] vol unfolding ms' by (simp add: same_but_settings_later)
    moreover have "mft_zone_multiplier (ms_vol ms') \<in> {1..4}" "has_action (on_errors (ms_vol ms'))"
      using set_zone_multiplier_range [OF z] start vol set_on_errors_action [of "po_on_errors po" vol] inv
      by (simp_all add: ms' set_on_errors_other options_inv_def)
    ultimately show ?thesis using True c r nls by (simp add: ms')
  next
    case False
    have "set_zone_multiplier (po_mft_zone_multiplier po) (ms_vol ms) \<noteq> None" if "mft_zone_multiplier (ms_vol ms) = 0"
      using that by (simp add: set_zone_multiplier_def)
    with False show ?thesis
      using applied n c r by (auto simp: apply_options_def Let_def split: if_splits option.splits bool.splits)
  qed
qed

text \<open>
  C17. Mount options leave the settings of the volume valid: starting from a fresh volume, which has neither a
  zone multiplier nor a character set table, or from an already mounted one, which has both, if parsing succeeds the mft zone multiplier is between one and four, the reaction to errors
  contains an action, a character set table is set, only settings have changed, and on the first mount
  exactly one reference to a character set table is held. If parsing fails the volume is unchanged, its
  character set table included.
\<close>

theorem parse_options_settings:
  assumes "mft_zone_multiplier (ms_vol ms) \<le> 4" and "on_errors (ms_vol ms) = 0 \<or> has_action (on_errors (ms_vol ms))"
    and "parse_options env opt ms = (ok, ms')"
  shows "if ok then mft_zone_multiplier (ms_vol ms') \<in> {1..4} \<and> has_action (on_errors (ms_vol ms'))
      \<and> same_but_settings (ms_vol ms) (ms_vol ms') \<and> ms_nls_map ms' \<noteq> None
      \<and> (ms_nls_map ms = None \<longrightarrow> ms_nls_refs ms' = nls_taken (ms_nls_refs ms) (ms_nls_map ms'))
    else ms_vol ms' = ms_vol ms
      \<and> ((ms_nls_map ms = None \<longleftrightarrow> mft_zone_multiplier (ms_vol ms) = 0) \<longrightarrow> ms_nls_map ms' = ms_nls_map ms)"
proof -
  define start where "start = no_options (ms_nls_refs ms)"
  obtain go po where p: "(case opt_arg opt of None \<Rightarrow> (True, start) | Some s \<Rightarrow> parse_tokens env (strsep_commas s) start) = (go, po)"
    by fastforce
  have "options_inv (ms_nls_refs ms) start" by (simp add: start_def no_options_def options_inv_def nls_taken_def)
  then have inv: "options_inv (ms_nls_refs ms) po"
    using p parse_tokens_inv by (auto split: option.splits)
  have r: "parse_options env opt ms = (if go then apply_options env po (ms\<lparr>ms_nls_refs := po_nls_refs po\<rparr>) else (False, ms\<lparr>ms_nls_refs := po_nls_refs po\<rparr>))"
    by (simp add: parse_options_def start_def [symmetric] p Let_def)
  show ?thesis
  proof (cases go)
    case True
    then show ?thesis
      using apply_options_outcome [OF inv _ _ _ assms(3) [unfolded r if_P [OF True]]] assms(1,2) by (cases ok) simp_all
  qed (use assms(3) r in auto)
qed

text \<open>A kernel that reads no numbers and knows one character set.\<close>

definition example_option_env :: option_env where
  "example_option_env =
     \<lparr>simple_strtoul = (\<lambda>base s. (0, s)), make_kuid = Some, make_kgid = Some,
      load_nls = (\<lambda>s. if s = ''utf8'' then Some 7 else None), load_nls_default = Some 3\<rparr>"

definition fresh_mount :: mount_state where
  "fresh_mount = \<lparr>ms_vol = zero_volume, ms_nls_map = None, ms_nls_refs = (\<lambda>t. 0)\<rparr>"

lemmas option_eval = parse_options_def opt_arg_def parse_option_def getopt_def getopt_options_array_def on_errors_arr_def
  ON_ERRORS_RECOVER_def no_options_def use_nls_def example_option_env_def unload_nls_def simple_getbool_def bool_int_def
  apply_options_def set_nls_def set_zone_multiplier_def set_on_errors_def ON_ERRORS_CONTINUE_def
  set_ids_def set_option_flag_def set_sparse_def INT_MAX_def

lemma option_tokens:
  "strsep_commas ''errors=recover,nls=utf8,show_sys_files'' = [''errors=recover'', ''nls=utf8'', ''show_sys_files'']"
  "split_value ''errors=recover'' = (''errors'', Some ''recover'')" "split_value ''nls=utf8'' = (''nls'', Some ''utf8'')"
  "split_value ''show_sys_files'' = (''show_sys_files'', None)"
  by code_simp+

lemma example_options_parsed:
  "parse_options example_option_env (Some ''errors=recover,nls=utf8,show_sys_files'') fresh_mount
   = (True, fresh_mount\<lparr>ms_vol := NVolSet NV_ShowSystemFiles (zero_volume\<lparr>mft_zone_multiplier := 1, on_errors := 20\<rparr>),
            ms_nls_map := Some 7, ms_nls_refs := (\<lambda>t. 0)(7 := 1)\<rparr>)"
  by (simp add: option_eval option_tokens fresh_mount_def zero_volume_def)

theorem parse_options_settings_witness:
  "\<exists>ms'. mft_zone_multiplier (ms_vol fresh_mount) \<le> 4 \<and> on_errors (ms_vol fresh_mount) = 0
     \<and> parse_options example_option_env (Some ''errors=recover,nls=utf8,show_sys_files'') fresh_mount = (True, ms')
     \<and> mft_zone_multiplier (ms_vol ms') \<in> {1..4} \<and> has_action (on_errors (ms_vol ms'))
     \<and> ms_nls_refs ms' = nls_taken (ms_nls_refs fresh_mount) (ms_nls_map ms')"
proof -
  have start: "mft_zone_multiplier (ms_vol fresh_mount) \<le> 4" "on_errors (ms_vol fresh_mount) = 0" "ms_nls_map fresh_mount = None"
    by (simp_all add: fresh_mount_def zero_volume_def)
  show ?thesis
    using parse_options_settings [OF start(1) disjI1 [OF start(2)] example_options_parsed] example_options_parsed start
    by (intro exI conjI) (assumption | simp)+
qed

section \<open>References that are lost\<close>









end
