(* ===== verification/Spec2Isabelle.thy ===== *)
theory Spec2Isabelle
  imports Ntfs_Mst Ntfs_Mapping_Pairs Ntfs_Runlist_Edit Ntfs_Upcase Ntfs_Collate Ntfs_Time Ntfs_Attr_Resize Ntfs_Runlist_Demand Ntfs_Decompress Ntfs_Statfs Ntfs_Options
begin

text \<open>
  Verification of the NTFS driver in \<^verbatim>\<open>src/ntfs\<close>.
\<close>

end
